(* ===== verification/Prelude.thy ===== *)
theory Prelude
  imports Main "HOL-Library.Sublist" "HOL-Library.Char_ord" "HOL-Library.List_Lexorder" "HOL-Library.Word"
begin

text \<open>
  The shared base of the development: the names of the types every component uses (byte
  strings, results, times), Go's 64-bit signed arithmetic, and the list lemmas that the
  component proofs need. A Go \<open>string\<close> is a sequence of bytes, so it is HOL's
  \<^typ>\<open>string\<close> (a list of 8-bit characters); Go compares strings bytewise, which is the
  lexicographic order of List_Lexorder over Char_ord.
\<close>

section \<open>Types and collections\<close>

type_synonym bytes = string
type_synonym ('e, 'a) result = "'e + 'a"

abbreviation Err :: "'e \<Rightarrow> ('e, 'a) result" where
  "Err \<equiv> Inl"

abbreviation Ok :: "'a \<Rightarrow> ('e, 'a) result" where
  "Ok \<equiv> Inr"

text \<open>
  A \<open>time.Time\<close> is the number of nanoseconds since Go's zero time, so the zero value is 0;
  a \<open>time.Duration\<close> is a number of nanoseconds.
\<close>

type_synonym time = int
type_synonym duration = int

named_theorems path_simps \<open>facts about path segments, joins and splits\<close>
named_theorems store_simps \<open>lookup laws of the stores\<close>
named_theorems frame_simps \<open>what an operation leaves unchanged\<close>

section \<open>int64\<close>

definition wrap64 :: "int \<Rightarrow> int" where
  "wrap64 x = (x + 2 ^ 63) mod 2 ^ 64 - 2 ^ 63"

definition is_int64 :: "int \<Rightarrow> bool" where
  "is_int64 x \<longleftrightarrow> - (2 ^ 63) \<le> x \<and> x < 2 ^ 63"

lemma wrap64_id [simp]: "is_int64 x \<Longrightarrow> wrap64 x = x"
  by (simp add: wrap64_def is_int64_def)

lemma is_int64_wrap64 [simp]: "is_int64 (wrap64 x)"
proof -
  have "0 \<le> (x + 2 ^ 63) mod 2 ^ 64" "(x + 2 ^ 63) mod 2 ^ 64 < (2 ^ 64 :: int)"
    by simp_all
  then show ?thesis by (simp add: wrap64_def is_int64_def)
qed

text \<open>\<open>wrap64\<close> is two's complement reading of the 64-bit word.\<close>

lemma wrap64_word: "wrap64 x = sint (word_of_int x :: 64 word)"
  by (simp add: wrap64_def sint_sbintrunc' signed_take_bit_eq_take_bit_shift take_bit_eq_mod)

lemma wrap64_bounded:
  assumes "0 \<le> x" "x \<le> m" "is_int64 m"
  shows "wrap64 x = x"
  using assms by (simp add: is_int64_def)

section \<open>Lists\<close>

lemma sorted_nth_le: "sorted xs \<Longrightarrow> i \<le> j \<Longrightarrow> j < length xs \<Longrightarrow> xs ! i \<le> xs ! j"
  by (simp add: sorted_nth_mono)

lemma set_dropWhile_subset: "set (dropWhile P xs) \<subseteq> set xs"
  by (auto dest: set_dropWhileD)

lemma set_dropWhile_rev_subset: "set (rev (dropWhile P (rev xs))) \<subseteq> set xs"
  by (auto dest: set_dropWhileD)

text \<open>
  Bytewise comparison and prefixes: a string that has \<open>t\<close> as a prefix is not below \<open>t\<close>,
  and a string between \<open>t\<close> and an extension of \<open>t\<close> extends \<open>t\<close> too.
\<close>

lemma prefix_imp_le:
  fixes t :: "'a::linorder list"
  assumes "prefix t s"
  shows "t \<le> s"
  using assms
proof (induction t arbitrary: s)
  case Nil
  then show ?case by simp
next
  case (Cons a t)
  then obtain s' where s: "s = a # s'" and "prefix t s'"
    by (cases s) auto
  with Cons.IH show ?case by simp
qed

lemma between_prefix:
  fixes t :: "'a::linorder list"
  assumes "t \<le> s" "s \<le> t @ u"
  shows "prefix t s"
  using assms
proof (induction t arbitrary: s)
  case Nil
  then show ?case by simp
next
  case (Cons a t)
  from Cons.prems(1) obtain b s' where s: "s = b # s'"
    by (cases s) auto
  with Cons.prems have "a = b" "t \<le> s'" "s' \<le> t @ u"
    by auto
  with Cons.IH s show ?case by simp
qed

end
