(* ===== verification/GoStrings.thy ===== *)
theory GoStrings
  imports Prelude
begin

text \<open>
  The parts of Go's \<open>strings\<close>, \<open>unicode\<close> and \<open>unicode/utf8\<close> packages that the program
  uses. Strings are byte sequences; the functions that Go defines on code points
  (\<open>TrimSpace\<close>, \<open>ToLower\<close>, \<open>Map\<close>, regular expressions) go through Go's own UTF-8 decoding,
  in which an invalid byte is the rune U+FFFD of width one.
\<close>

section \<open>Byte-level functions\<close>

abbreviation slash :: char where
  "slash \<equiv> CHR ''/''"

abbreviation backslash :: char where
  "backslash \<equiv> CHR 0x5C"

abbreviation NUL :: char where
  "NUL \<equiv> CHR 0x00"

definition HasPrefix :: "string \<Rightarrow> string \<Rightarrow> bool" where
  "HasPrefix s p \<longleftrightarrow> prefix p s"

definition HasSuffix :: "string \<Rightarrow> string \<Rightarrow> bool" where
  "HasSuffix s p \<longleftrightarrow> suffix p s"

definition TrimPrefix :: "string \<Rightarrow> string \<Rightarrow> string" where
  "TrimPrefix s p = (if HasPrefix s p then drop (length p) s else s)"

definition TrimSuffix :: "string \<Rightarrow> string \<Rightarrow> string" where
  "TrimSuffix s p = (if HasSuffix s p then take (length s - length p) s else s)"

definition TrimRightByte :: "string \<Rightarrow> char \<Rightarrow> string" where
  "TrimRightByte s c = rev (dropWhile (\<lambda>x. x = c) (rev s))"

definition ReplaceByte :: "char \<Rightarrow> char \<Rightarrow> string \<Rightarrow> string" where
  "ReplaceByte a b = map (\<lambda>c. if c = a then b else c)"

fun split_on :: "char \<Rightarrow> string \<Rightarrow> string list" where
  "split_on c [] = [[]]"
| "split_on c (x # xs) =
     (if x = c then [] # split_on c xs
      else (case split_on c xs of [] \<Rightarrow> [[x]] | y # ys \<Rightarrow> (x # y) # ys))"

fun join_with :: "char \<Rightarrow> string list \<Rightarrow> string" where
  "join_with c [] = []"
| "join_with c [s] = s"
| "join_with c (s # t # ts) = s @ c # join_with c (t # ts)"

lemma split_on_not_Nil [simp]: "split_on c s \<noteq> []"
  by (induction s) (auto split: list.splits)

lemma join_with_Cons: "ts \<noteq> [] \<Longrightarrow> join_with c (s # ts) = s @ c # join_with c ts"
  by (cases ts) auto

lemma join_with_snoc: "ts \<noteq> [] \<Longrightarrow> join_with c (ts @ [s]) = join_with c ts @ c # s"
  by (induction ts rule: join_with.induct) auto

lemma join_split [path_simps, simp]: "join_with c (split_on c s) = s"
proof (induction s)
  case Nil
  then show ?case by simp
next
  case (Cons x xs)
  obtain y ys where yy: "split_on c xs = y # ys"
    by (cases "split_on c xs") auto
  with Cons show ?case
    by (cases ys) auto
qed

lemma split_on_no_sep: "c \<notin> set s \<Longrightarrow> split_on c s = [s]"
  by (induction s) auto

lemma split_on_append_sep: "c \<notin> set s \<Longrightarrow> split_on c (s @ c # t) = s # split_on c t"
  by (induction s) auto

lemma split_on_snoc_sep: "split_on c (s @ [c]) = split_on c s @ [[]]"
  by (induction s) (auto split: list.splits)

lemma split_join [path_simps]:
  assumes "ss \<noteq> []" "\<And>s. s \<in> set ss \<Longrightarrow> c \<notin> set s"
  shows "split_on c (join_with c ss) = ss"
  using assms
  by (induction ss rule: join_with.induct) (auto simp: split_on_no_sep split_on_append_sep)

lemma split_on_segments: "s \<in> set (split_on c xs) \<Longrightarrow> c \<notin> set s"
proof (induction xs arbitrary: s)
  case Nil
  then show ?case by simp
next
  case (Cons x xs)
  obtain y ys where "split_on c xs = y # ys"
    by (cases "split_on c xs") auto
  with Cons show ?case by (auto split: if_splits)
qed

lemma set_split_on_subset: "s \<in> set (split_on c xs) \<Longrightarrow> set s \<subseteq> set xs"
proof (induction xs arbitrary: s)
  case Nil
  then show ?case by simp
next
  case (Cons x xs)
  obtain y ys where yy: "split_on c xs = y # ys"
    by (cases "split_on c xs") auto
  have "set y \<subseteq> set xs" "\<And>t. t \<in> set ys \<Longrightarrow> set t \<subseteq> set xs"
    using Cons.IH yy by auto
  with Cons.prems yy show ?case by (auto split: if_splits)
qed

lemma set_join_subset: "set (join_with c ss) \<subseteq> insert c (\<Union>s \<in> set ss. set s)"
  by (induction ss rule: join_with.induct) auto

lemma set_ReplaceByte: "a \<noteq> b \<Longrightarrow> a \<notin> set (ReplaceByte a b s)"
  by (auto simp: ReplaceByte_def)

section \<open>UTF-8\<close>

definition byte :: "char \<Rightarrow> nat" where
  "byte c = of_char c"

definition RuneError :: nat where
  "RuneError = 0xFFFD"

definition is_cont :: "nat \<Rightarrow> bool" where
  "is_cont b \<longleftrightarrow> 0x80 \<le> b \<and> b \<le> 0xBF"

text \<open>
  \<open>utf8.DecodeRuneInString\<close>: the rune at the start of a non-empty string and its width. The
  ranges of the second byte are those of Go's \<open>acceptRanges\<close> table, which rule out overlong
  forms, surrogates and values above U+10FFFF.
\<close>

definition second_ok :: "nat \<Rightarrow> nat \<Rightarrow> bool" where
  "second_ok b0 b1 \<longleftrightarrow>
     (if b0 = 0xE0 then 0xA0 \<le> b1 \<and> b1 \<le> 0xBF
      else if b0 = 0xED then 0x80 \<le> b1 \<and> b1 \<le> 0x9F
      else if b0 = 0xF0 then 0x90 \<le> b1 \<and> b1 \<le> 0xBF
      else if b0 = 0xF4 then 0x80 \<le> b1 \<and> b1 \<le> 0x8F
      else is_cont b1)"

definition seq_len :: "nat \<Rightarrow> nat" where
  "seq_len b0 =
     (if b0 < 0x80 then 1
      else if 0xC2 \<le> b0 \<and> b0 \<le> 0xDF then 2
      else if 0xE0 \<le> b0 \<and> b0 \<le> 0xEF then 3
      else if 0xF0 \<le> b0 \<and> b0 \<le> 0xF4 then 4
      else 0)"

definition decode2 :: "nat \<Rightarrow> string \<Rightarrow> nat \<times> nat" where
  "decode2 b0 cs = (case cs of
      c1 # _ \<Rightarrow>
        if second_ok b0 (byte c1)
        then ((b0 - 0xC0) * 64 + (byte c1 - 0x80), 2) else (RuneError, 1)
    | _ \<Rightarrow> (RuneError, 1))"

definition decode3 :: "nat \<Rightarrow> string \<Rightarrow> nat \<times> nat" where
  "decode3 b0 cs = (case cs of
      c1 # c2 # _ \<Rightarrow>
        if second_ok b0 (byte c1) \<and> is_cont (byte c2)
        then ((b0 - 0xE0) * 4096 + (byte c1 - 0x80) * 64 + (byte c2 - 0x80), 3)
        else (RuneError, 1)
    | _ \<Rightarrow> (RuneError, 1))"

definition decode4 :: "nat \<Rightarrow> string \<Rightarrow> nat \<times> nat" where
  "decode4 b0 cs = (case cs of
      c1 # c2 # c3 # _ \<Rightarrow>
        if second_ok b0 (byte c1) \<and> is_cont (byte c2) \<and> is_cont (byte c3)
        then ((b0 - 0xF0) * 262144 + (byte c1 - 0x80) * 4096
               + (byte c2 - 0x80) * 64 + (byte c3 - 0x80), 4)
        else (RuneError, 1)
    | _ \<Rightarrow> (RuneError, 1))"

fun decode_rune :: "string \<Rightarrow> nat \<times> nat" where
  "decode_rune [] = (RuneError, 0)"
| "decode_rune (c0 # cs) =
     (let b0 = byte c0; n = seq_len b0 in
      if n = 1 then (b0, 1)
      else if n = 2 then decode2 b0 cs
      else if n = 3 then decode3 b0 cs
      else if n = 4 then decode4 b0 cs
      else (RuneError, 1))"

lemma decode_rune_width:
  "1 \<le> snd (decode_rune (c # cs)) \<and> snd (decode_rune (c # cs)) \<le> Suc (length cs)"
  by (auto simp: Let_def decode2_def decode3_def decode4_def split: list.splits)

text \<open>
  An ASCII byte is a rune of its own, and every other rune is at least 0x80 and made of bytes
  that are at least 0x80: a separator byte is never hidden inside a multi-byte rune.
\<close>

lemma decode_rune_ascii [simp]: "byte c < 0x80 \<Longrightarrow> decode_rune (c # cs) = (byte c, 1)"
  by (simp add: seq_len_def)

lemma second_ok_cont: "second_ok b0 b1 \<Longrightarrow> 0x80 \<le> b1"
  by (simp add: second_ok_def is_cont_def split: if_splits)

lemma decode2_high:
  assumes "0xC2 \<le> byte c"
  shows "0x80 \<le> fst (decode2 (byte c) cs)"
    and "d \<in> set (take (snd (decode2 (byte c) cs)) (c # cs)) \<Longrightarrow> 0x80 \<le> byte d"
proof -
  have "0x80 \<le> (byte c - 0xC0) * 64 + x" for x
    using assms by simp
  then show "0x80 \<le> fst (decode2 (byte c) cs)"
    by (simp add: decode2_def RuneError_def split: list.split)
  show "d \<in> set (take (snd (decode2 (byte c) cs)) (c # cs)) \<Longrightarrow> 0x80 \<le> byte d"
    using assms second_ok_cont [of "byte c"]
    by (auto simp: decode2_def split: list.splits if_splits)
qed

lemma decode3_high:
  assumes "0xE0 \<le> byte c"
  shows "0x80 \<le> fst (decode3 (byte c) cs)"
    and "d \<in> set (take (snd (decode3 (byte c) cs)) (c # cs)) \<Longrightarrow> 0x80 \<le> byte d"
proof -
  have "0x80 \<le> (byte c - 0xE0) * 4096 + (b1 - 0x80) * 64 + x" if "second_ok (byte c) b1" for b1 x
  proof (cases "byte c = 0xE0")
    case True
    with that have "0xA0 \<le> b1" by (simp add: second_ok_def)
    then show ?thesis by simp
  next
    case False
    with assms show ?thesis by simp
  qed
  then show "0x80 \<le> fst (decode3 (byte c) cs)"
    by (simp add: decode3_def RuneError_def split: list.split)
  show "d \<in> set (take (snd (decode3 (byte c) cs)) (c # cs)) \<Longrightarrow> 0x80 \<le> byte d"
    using assms second_ok_cont [of "byte c"]
    by (auto simp: decode3_def is_cont_def split: list.splits if_splits)
qed

lemma decode4_high:
  assumes "0xF0 \<le> byte c"
  shows "0x80 \<le> fst (decode4 (byte c) cs)"
    and "d \<in> set (take (snd (decode4 (byte c) cs)) (c # cs)) \<Longrightarrow> 0x80 \<le> byte d"
proof -
  have "0x80 \<le> (byte c - 0xF0) * 262144 + (b1 - 0x80) * 4096 + x + y"
    if "second_ok (byte c) b1" for b1 x y
  proof (cases "byte c = 0xF0")
    case True
    with that have "0x90 \<le> b1" by (simp add: second_ok_def)
    then show ?thesis by simp
  next
    case False
    with assms show ?thesis by simp
  qed
  then show "0x80 \<le> fst (decode4 (byte c) cs)"
    by (simp add: decode4_def RuneError_def split: list.split)
  show "d \<in> set (take (snd (decode4 (byte c) cs)) (c # cs)) \<Longrightarrow> 0x80 \<le> byte d"
    using assms second_ok_cont [of "byte c"]
    by (auto simp: decode4_def is_cont_def split: list.splits if_splits)
qed

lemma decode_rune_non_ascii:
  assumes "\<not> byte c < 0x80"
  shows "0x80 \<le> fst (decode_rune (c # cs))"
    and "d \<in> set (take (snd (decode_rune (c # cs))) (c # cs)) \<Longrightarrow> 0x80 \<le> byte d"
proof -
  have n: "seq_len (byte c) \<noteq> 1" "seq_len (byte c) = 2 \<Longrightarrow> 0xC2 \<le> byte c"
    "seq_len (byte c) = 3 \<Longrightarrow> 0xE0 \<le> byte c" "seq_len (byte c) = 4 \<Longrightarrow> 0xF0 \<le> byte c"
    using assms by (auto simp: seq_len_def split: if_splits)
  then show "0x80 \<le> fst (decode_rune (c # cs))"
    using decode2_high(1) decode3_high(1) decode4_high(1)
    by (simp add: Let_def RuneError_def)
  show "d \<in> set (take (snd (decode_rune (c # cs))) (c # cs)) \<Longrightarrow> 0x80 \<le> byte d"
    using n assms decode2_high(2) decode3_high(2) decode4_high(2)
    by (auto simp: Let_def split: if_splits)
qed

declare decode_rune.simps(2) [simp del]

function runes :: "string \<Rightarrow> (nat \<times> string) list" where
  "runes [] = []"
| "runes (c # cs) =
     (case decode_rune (c # cs) of (r, w) \<Rightarrow>
       (r, take w (c # cs)) # runes (drop w (c # cs)))"
  by pat_completeness auto
termination
proof (relation "measure length", goal_cases)
  case 1
  then show ?case by simp
next
  case (2 c cs r w)
  then have "w = snd (decode_rune (c # cs))" by (metis snd_conv)
  then show ?case using decode_rune_width [of c cs] by simp
qed

declare runes.simps(2) [simp del]

lemma runes_Cons:
  "runes (c # cs) = (fst (decode_rune (c # cs)), take (snd (decode_rune (c # cs))) (c # cs))
     # runes (drop (snd (decode_rune (c # cs))) (c # cs))"
  by (simp add: runes.simps(2) case_prod_beta)

lemma runes_ascii [simp]: "byte c < 0x80 \<Longrightarrow> runes (c # cs) = (byte c, [c]) # runes cs"
  by (simp add: runes_Cons)

lemma runes_Nil_iff [simp]: "runes s = [] \<longleftrightarrow> s = []"
  by (cases s) (simp_all add: runes_Cons)

lemma concat_runes: "concat (map snd (runes s)) = s"
proof (induction s rule: runes.induct)
  case 1
  then show ?case by simp
next
  case (2 c cs)
  show ?case
    using "2.IH" [OF prod.collapse]
    by (simp add: runes_Cons del: append_take_drop_id) (metis append_take_drop_id)
qed

lemma length_runes_le: "length (runes s) \<le> length s"
proof (induction s rule: runes.induct)
  case 1
  then show ?case by simp
next
  case (2 c cs)
  have "length (runes (drop (snd (decode_rune (c # cs))) (c # cs))) \<le> length cs"
    using "2.IH" [OF prod.collapse] decode_rune_width [of c cs]
    by simp linarith
  then show ?case by (simp add: runes_Cons)
qed

lemma runes_elem:
  assumes "(r, w) \<in> set (runes s)"
  shows "(\<exists>c. byte c < 0x80 \<and> r = byte c \<and> w = [c])
       \<or> (0x80 \<le> r \<and> (\<forall>d \<in> set w. 0x80 \<le> byte d))"
  using assms
proof (induction s rule: runes.induct)
  case 1
  then show ?case by simp
next
  case (2 c cs)
  from "2.prems" consider
      (hd) "r = fst (decode_rune (c # cs))" "w = take (snd (decode_rune (c # cs))) (c # cs)"
    | (tl) "(r, w) \<in> set (runes (drop (snd (decode_rune (c # cs))) (c # cs)))"
    by (auto simp: runes_Cons)
  then show ?case
  proof cases
    case hd
    then show ?thesis
      using decode_rune_non_ascii [of c] by (cases "byte c < 0x80") auto
  next
    case tl
    then show ?thesis using "2.IH" [OF prod.collapse] by blast
  qed
qed

lemma byte_inject [simp]: "byte c = byte d \<longleftrightarrow> c = d"
  by (simp add: byte_def)

lemma ascii_byte_iff_rune:
  assumes "byte c < 0x80"
  shows "c \<in> set s \<longleftrightarrow> byte c \<in> fst ` set (runes s)"
proof
  assume "c \<in> set s"
  then have "c \<in> set (concat (map snd (runes s)))"
    by (simp only: concat_runes)
  then obtain r w where "(r, w) \<in> set (runes s)" "c \<in> set w"
    by auto
  with runes_elem [OF this(1)] assms show "byte c \<in> fst ` set (runes s)"
    by force
next
  assume "byte c \<in> fst ` set (runes s)"
  then obtain w where w: "(byte c, w) \<in> set (runes s)"
    by auto
  with runes_elem [OF w] assms have "w = [c]"
    by auto
  with w have "c \<in> set (concat (map snd (runes s)))"
    by force
  then show "c \<in> set s"
    by (simp only: concat_runes)
qed

section \<open>Rune-level functions\<close>

text \<open>\<open>unicode.IsSpace\<close>: the Latin-1 spaces and the White_Space property above Latin-1.\<close>

definition IsSpace :: "nat \<Rightarrow> bool" where
  "IsSpace r \<longleftrightarrow>
     r \<in> {0x09, 0x0A, 0x0B, 0x0C, 0x0D, 0x20, 0x85, 0xA0, 0x1680,
          0x2028, 0x2029, 0x202F, 0x205F, 0x3000}
     \<or> (0x2000 \<le> r \<and> r \<le> 0x200A)"

text \<open>
  \<open>strings.TrimSpace\<close> drops the leading and the trailing space runes. Decoding the last rune
  backwards finds the same boundaries as decoding forwards, since a byte that can start a
  rune never continues one.
\<close>

definition TrimSpace :: "string \<Rightarrow> string" where
  "TrimSpace s =
     concat (map snd (rev (dropWhile (IsSpace \<circ> fst) (rev (dropWhile (IsSpace \<circ> fst) (runes s))))))"

lemma set_concat_mono: "set xs \<subseteq> set ys \<Longrightarrow> set (concat (map snd xs)) \<subseteq> set (concat (map snd ys))"
  by auto

lemma set_TrimSpace: "set (TrimSpace s) \<subseteq> set s"
proof -
  have "set (rev (dropWhile (IsSpace \<circ> fst) (rev (dropWhile (IsSpace \<circ> fst) (runes s)))))
      \<subseteq> set (runes s)"
    by (rule subset_trans [OF set_dropWhile_rev_subset set_dropWhile_subset])
  then have "set (TrimSpace s) \<subseteq> set (concat (map snd (runes s)))"
    unfolding TrimSpace_def by (rule set_concat_mono)
  then show ?thesis by (simp only: concat_runes)
qed

text \<open>\<open>utf8.AppendRune\<close>: surrogates and values out of range are written as U+FFFD.\<close>

definition encode3 :: "nat \<Rightarrow> string" where
  "encode3 r = map char_of [0xE0 + r div 4096, 0x80 + r div 64 mod 64, 0x80 + r mod 64]"

definition encode_rune :: "nat \<Rightarrow> string" where
  "encode_rune r =
     (if r < 0x80 then [char_of r]
      else if r < 0x800 then map char_of [0xC0 + r div 64, 0x80 + r mod 64]
      else if 0xD800 \<le> r \<and> r \<le> 0xDFFF \<or> 0x10FFFF < r then encode3 RuneError
      else if r < 0x10000 then encode3 r
      else map char_of [0xF0 + r div 262144, 0x80 + r div 4096 mod 64,
                        0x80 + r div 64 mod 64, 0x80 + r mod 64])"

text \<open>
  \<open>strings.Map\<close> for a mapping that never drops a rune: every rune is mapped and written
  back, so an invalid byte becomes the mapping of U+FFFD.
\<close>

definition strings_Map :: "(nat \<Rightarrow> nat) \<Rightarrow> string \<Rightarrow> string" where
  "strings_Map f s = concat (map (\<lambda>(r, _). encode_rune (f r)) (runes s))"

text \<open>
  \<open>unicode.ToLower\<close>: exact on ASCII; above ASCII the Unicode case table \<open>ul\<close> is a
  parameter of every definition that lowers a string.
\<close>

definition unicode_ToLower :: "(nat \<Rightarrow> nat) \<Rightarrow> nat \<Rightarrow> nat" where
  "unicode_ToLower ul r =
     (if r < 0x80 then (if 0x41 \<le> r \<and> r \<le> 0x5A then r + 0x20 else r) else ul r)"

definition ToLower :: "(nat \<Rightarrow> nat) \<Rightarrow> string \<Rightarrow> string" where
  "ToLower ul = strings_Map (unicode_ToLower ul)"

lemma byte_lt_256 [simp]: "byte c < 256"
  by (simp add: byte_def)

lemma char_of_byte [simp]: "char_of (byte c) = c"
  by (simp add: byte_def)

lemma byte_char_of: "(n::nat) < 256 \<Longrightarrow> byte (char_of n) = n"
  by (simp add: byte_def)

lemma encode_rune_ascii [simp]: "r < 0x80 \<Longrightarrow> encode_rune r = [char_of r]"
  by (simp add: encode_rune_def)

lemma encode_rune_ne [simp]: "encode_rune r \<noteq> []"
  by (simp add: encode_rune_def encode3_def)

lemma byte_char_of_ge: "(n::nat) < 256 \<Longrightarrow> 0x80 \<le> n \<Longrightarrow> 0x80 \<le> byte (char_of n)"
  by (simp add: byte_char_of)

lemma encode_rune_non_ascii:
  assumes "0x80 \<le> r" "c \<in> set (encode_rune r)"
  shows "0x80 \<le> byte c"
proof -
  have m: "0x80 + n mod 64 < 256" for n :: nat
    using mod_less_divisor [of 64 n] by linarith
  have e3: "0x80 \<le> byte c" if "c \<in> set (encode3 n)" "n < 0x10000" for n
    using that m by (auto simp: encode3_def intro!: byte_char_of_ge)
  consider "r < 0x800" | "c \<in> set (encode3 RuneError)" | "c \<in> set (encode3 r)" "r < 0x10000"
    | "\<not> 0x10FFFF < r" "c \<in> set (map char_of [0xF0 + r div 262144, 0x80 + r div 4096 mod 64,
                        0x80 + r div 64 mod 64, 0x80 + r mod 64])"
    using assms by (auto simp: encode_rune_def split: if_splits)
  then show ?thesis
  proof cases
    case 1
    then show ?thesis
      using assms m by (auto simp: encode_rune_def intro!: byte_char_of_ge)
  next
    case 2
    then show ?thesis using e3 by (simp add: RuneError_def)
  next
    case 3
    then show ?thesis using e3 by blast
  next
    case 4
    then have "0xF0 + r div 262144 < 256" by simp
    then show ?thesis using 4(2) m by (auto intro!: byte_char_of_ge)
  qed
qed

end
