(* ===== verification/GoPath.thy ===== *)
theory GoPath
  imports GoStrings
begin

text \<open>
  Go's \<open>path.Clean\<close>, byte for byte, and its equivalence on relative paths with a reference
  that resolves a list of segments on a stack. The sanitiser of archive entry paths rests on
  this equivalence.
\<close>

section \<open>The algorithm\<close>

text \<open>
  The loop of \<open>path.Clean\<close> keeps the rest of the input, the output written so far and
  \<open>dotdot\<close>, the length of the output that backtracking must not touch. \<open>backtrack\<close> is the
  inner loop that moves the write position back to the last slash.
\<close>

function backtrack :: "string \<Rightarrow> nat \<Rightarrow> nat \<Rightarrow> nat" where
  "backtrack out dotdot w =
     (if dotdot < w \<and> out ! w \<noteq> slash then backtrack out dotdot (w - 1) else w)"
  by pat_completeness auto
termination
  by (relation "measure (\<lambda>(out, dotdot, w). w)") auto

declare backtrack.simps [simp del]

definition at_end :: "string \<Rightarrow> bool" where
  "at_end r \<longleftrightarrow> r = [] \<or> hd r = slash"

definition take_elem :: "string \<Rightarrow> string" where
  "take_elem r = takeWhile (\<lambda>c. c \<noteq> slash) r"

definition drop_elem :: "string \<Rightarrow> string" where
  "drop_elem r = dropWhile (\<lambda>c. c \<noteq> slash) r"

lemma drop_elem_less: "r \<noteq> [] \<Longrightarrow> hd r \<noteq> slash \<Longrightarrow> length (drop_elem r) < length r"
  using length_dropWhile_le [of "\<lambda>c. c \<noteq> slash" "tl r"]
  by (cases r) (auto simp: drop_elem_def le_imp_less_Suc)

function clean_loop :: "bool \<Rightarrow> string \<Rightarrow> string \<Rightarrow> nat \<Rightarrow> string" where
  "clean_loop rooted r out dotdot =
     (if r = [] then out
      else if hd r = slash then clean_loop rooted (tl r) out dotdot
      else if hd r = CHR ''.'' \<and> at_end (tl r) then clean_loop rooted (tl r) out dotdot
      else if take 2 r = ''..'' \<and> at_end (drop 2 r) then
        (if dotdot < length out then
           clean_loop rooted (drop 2 r) (take (backtrack out dotdot (length out - 1)) out) dotdot
         else if \<not> rooted then
           (let out' = (if 0 < length out then out @ [slash] else out) @ ''..''
            in clean_loop rooted (drop 2 r) out' (length out'))
         else clean_loop rooted (drop 2 r) out dotdot)
      else
        clean_loop rooted (drop_elem r)
          ((if rooted \<and> length out \<noteq> 1 \<or> \<not> rooted \<and> length out \<noteq> 0
            then out @ [slash] else out) @ take_elem r) dotdot)"
  by pat_completeness auto
termination
  by (relation "measure (\<lambda>(rooted, r, out, dotdot). length r)")
    (auto simp: at_end_def intro: drop_elem_less)

declare clean_loop.simps [simp del]

definition Clean :: "string \<Rightarrow> string" where
  "Clean path =
     (if path = [] then ''.''
      else let rooted = (hd path = slash);
               out = (if rooted then clean_loop True (tl path) [slash] 1
                      else clean_loop False path [] 0)
           in if out = [] then ''.'' else out)"

section \<open>The reference: segments on a stack\<close>

text \<open>
  \<open>resolve\<close> keeps the number of leading \<open>..\<close> elements and the stack of names, and the result
  of cleaning a relative path is the join of both.
\<close>

fun resolve :: "nat \<Rightarrow> string list \<Rightarrow> string list \<Rightarrow> nat \<times> string list" where
  "resolve k names [] = (k, names)"
| "resolve k names (s # ss) =
     (if s = [] \<or> s = ''.'' then resolve k names ss
      else if s = ''..'' then
        (if names \<noteq> [] then resolve k (butlast names) ss else resolve (Suc k) [] ss)
      else resolve k (names @ [s]) ss)"

definition segments_of :: "nat \<Rightarrow> string list \<Rightarrow> string list" where
  "segments_of k names = replicate k ''..'' @ names"

definition proper_name :: "string \<Rightarrow> bool" where
  "proper_name s \<longleftrightarrow> s \<noteq> [] \<and> s \<noteq> ''.'' \<and> s \<noteq> ''..'' \<and> slash \<notin> set s"

definition resolved :: "string \<Rightarrow> string list" where
  "resolved p = (case resolve 0 [] (split_on slash p) of (k, names) \<Rightarrow> segments_of k names)"

section \<open>Equivalence on relative paths\<close>

lemma split_on_at_end: "at_end t \<Longrightarrow> split_on slash t = [] # tl (split_on slash t)"
  by (cases t) (auto simp: at_end_def)

lemma split_on_elem:
  assumes "slash \<notin> set e" "at_end t"
  shows "split_on slash (e @ t) = e # tl (split_on slash t)"
proof (cases t)
  case Nil
  with assms show ?thesis by (simp add: split_on_no_sep)
next
  case (Cons c t')
  with assms have "c = slash" by (simp add: at_end_def)
  with Cons assms show ?thesis by (simp add: split_on_append_sep)
qed

lemma resolve_at_end: "at_end t \<Longrightarrow> resolve k names (split_on slash t) = resolve k names (tl (split_on slash t))"
  by (subst split_on_at_end) simp_all

lemma take_drop_elem: "take_elem r @ drop_elem r = r"
  by (simp add: take_elem_def drop_elem_def)

lemma at_end_drop_elem: "at_end (drop_elem r)"
  using hd_dropWhile [of "\<lambda>c. c \<noteq> slash" r] unfolding at_end_def drop_elem_def by blast

lemma slash_take_elem: "slash \<notin> set (take_elem r)"
  by (auto simp: take_elem_def dest: set_takeWhileD)

lemma join_eq_Nil_iff: "(\<And>s. s \<in> set ss \<Longrightarrow> s \<noteq> []) \<Longrightarrow> join_with c ss = [] \<longleftrightarrow> ss = []"
  by (induction ss rule: join_with.induct) auto

lemma length_join_append: "length (join_with c xs) \<le> length (join_with c (xs @ ys))"
proof (induction ys rule: rev_induct)
  case Nil
  then show ?case by simp
next
  case (snoc y ys)
  have "length (join_with c (xs @ ys)) \<le> length (join_with c ((xs @ ys) @ [y]))"
    by (cases "xs @ ys = []") (simp_all add: join_with_snoc del: append_assoc)
  with snoc show ?case by simp
qed

lemma backtrack_to:
  assumes "dd \<le> p" "p = dd \<or> out ! p = slash" "p \<le> w" "\<And>i. p < i \<Longrightarrow> i \<le> w \<Longrightarrow> out ! i \<noteq> slash"
  shows "backtrack out dd w = p"
  using assms(3,4)
proof (induction "w - p" arbitrary: w)
  case 0
  with assms(1,2) show ?case by (subst backtrack.simps) auto
next
  case (Suc x)
  then have "backtrack out dd (w - 1) = p"
    by (intro Suc.hyps(1)) auto
  with Suc assms(1) show ?case by (subst backtrack.simps) auto
qed

lemma take_backtrack:
  assumes n: "proper_name n" and dd: "dd = length (join_with slash (replicate k ''..''))"
    and out: "out = join_with slash (segments_of k (ns @ [n]))"
  shows "take (backtrack out dd (length out - 1)) out = join_with slash (segments_of k ns)"
proof (cases "segments_of k ns = []")
  case True
  then have "k = 0" "ns = []" by (simp_all add: segments_of_def)
  with out dd have on: "out = n" and dd0: "dd = 0" by (simp_all add: segments_of_def)
  have "backtrack out dd (length out - 1) = 0"
    using n on dd0 by (intro backtrack_to) (auto simp: proper_name_def nth_eq_iff_index_eq in_set_conv_nth)
  then show ?thesis using True by simp
next
  case False
  let ?pre = "join_with slash (segments_of k ns)"
  have o: "out = ?pre @ slash # n"
    using out join_with_snoc [OF False, of slash n] by (simp add: segments_of_def)
  have "dd \<le> length ?pre"
    unfolding dd segments_of_def by (rule length_join_append)
  moreover have "out ! i \<noteq> slash" if "length ?pre < i" "i \<le> length out - 1" for i
  proof -
    have "out ! i = n ! (i - Suc (length ?pre))" "i - Suc (length ?pre) < length n"
      using that o by (auto simp: nth_append nth_Cons')
    then show ?thesis using n by (auto simp: proper_name_def in_set_conv_nth)
  qed
  ultimately have "backtrack out dd (length out - 1) = length ?pre"
    using o by (intro backtrack_to) auto
  then show ?thesis using o by simp
qed

lemma clean_loop_name:
  assumes "r \<noteq> []" "hd r \<noteq> slash" "\<not> (hd r = CHR ''.'' \<and> at_end (tl r))"
    "\<not> (take 2 r = ''..'' \<and> at_end (drop 2 r))"
  shows "clean_loop False r out dd
       = clean_loop False (drop_elem r)
           ((if length out \<noteq> 0 then out @ [slash] else out) @ take_elem r) dd"
  using assms by (subst clean_loop.simps) (simp only: if_False not_False_eq_True simp_thms)

text \<open>The element at the front of the rest is a name unless it is one of the special cases of the loop.\<close>

lemma take_elem_proper:
  assumes "r \<noteq> []" "hd r \<noteq> slash" "\<not> (hd r = CHR ''.'' \<and> at_end (tl r))" "\<not> (take 2 r = ''..'' \<and> at_end (drop 2 r))"
  shows "proper_name (take_elem r)"
proof -
  let ?e = "take_elem r" and ?t = "drop_elem r"
  have r: "r = ?e @ ?t" and t: "at_end ?t" and e: "slash \<notin> set ?e"
    by (simp_all add: take_drop_elem at_end_drop_elem slash_take_elem)
  have "?e \<noteq> []" using assms(1,2) by (cases r) (auto simp: take_elem_def)
  moreover have "?e \<noteq> ''.''" using assms(3) r t by (metis append_Cons append_Nil list.sel(1,3))
  moreover have "?e \<noteq> ''..''"
    using assms(4) r t by (metis append_Cons append_Nil drop_Suc_Cons drop0 list.sel(1,3) numeral_2_eq_2 take_Suc_Cons take0)
  ultimately show ?thesis using e by (simp add: proper_name_def)
qed

text \<open>Writing an element to the output appends it to the segments.\<close>

lemma push_segment:
  assumes "\<forall>s \<in> set ss. s \<noteq> []"
  shows "(if 0 < length (join_with slash ss) then join_with slash ss @ [slash] else join_with slash ss) @ e = join_with slash (ss @ [e])"
proof (cases "ss = []")
  case False
  then have "join_with slash ss \<noteq> []" using join_eq_Nil_iff [of ss slash] assms by blast
  with join_with_snoc [OF False, of slash e] show ?thesis by simp
qed simp

lemma dotdots_shorter:
  assumes "proper_name n"
  shows "length (join_with slash (replicate k ''..'')) < length (join_with slash (segments_of k (ns @ [n])))"
  unfolding segments_of_def
  using length_join_append [of slash "replicate k ''..''" ns] assms join_with_snoc [of "replicate k ''..'' @ ns" slash n]
  by (cases "replicate k ''..'' @ ns = []") (auto simp: proper_name_def)

text \<open>A \<open>..\<close> element either removes the last name or is kept behind the others.\<close>

lemma clean_loop_dotdot:
  assumes "at_end t" "\<forall>n \<in> set names. proper_name n"
  shows "clean_loop False (''..'' @ t) (join_with slash (segments_of k names)) (length (join_with slash (replicate k ''..'')))
    = (case resolve k names [''..''] of (k', ns) \<Rightarrow>
         clean_loop False t (join_with slash (segments_of k' ns)) (length (join_with slash (replicate k' ''..''))))"
proof (cases names rule: rev_cases)
  case Nil
  then show ?thesis
    using assms(1) push_segment [of "replicate k ''..''" "''..''", symmetric]
    by (subst clean_loop.simps) (simp add: at_end_def segments_of_def replicate_append_same)
next
  case (snoc ns n)
  then have n: "proper_name n" using assms(2) by simp
  show ?thesis
    using assms(1) snoc take_backtrack [OF n refl refl, of k ns] dotdots_shorter [OF n, of k ns]
    by (subst clean_loop.simps) (simp add: at_end_def)
qed

lemma clean_loop_resolve:
  assumes "\<forall>n \<in> set names. proper_name n"
  shows "clean_loop False r (join_with slash (segments_of k names)) (length (join_with slash (replicate k ''..'')))
    = (case resolve k names (split_on slash r) of (k', ns) \<Rightarrow> join_with slash (segments_of k' ns))"
  using assms
proof (induction "length r" arbitrary: r k names rule: less_induct)
  case less
  consider (nil) "r = []" | (sl) r' where "r = slash # r'" | (dot) t where "r = ''.'' @ t" "at_end t"
    | (dotdot) t where "r = ''..'' @ t" "at_end t"
    | (name) "r \<noteq> []" "hd r \<noteq> slash" "\<not> (hd r = CHR ''.'' \<and> at_end (tl r))" "\<not> (take 2 r = ''..'' \<and> at_end (drop 2 r))"
    by (metis append_Cons append_Nil append_take_drop_id list.collapse)
  then show ?case
  proof cases
    case nil
    then show ?thesis by (simp add: clean_loop.simps)
  next
    case sl
    then show ?thesis using less by (subst clean_loop.simps) simp
  next
    case dot
    then show ?thesis
      using less resolve_at_end [OF dot(2)] split_on_elem [of "''.''" t] by (subst clean_loop.simps) simp
  next
    case dotdot
    then have sp: "split_on slash r = ''..'' # tl (split_on slash t)" using split_on_elem [of "''..''" t] by simp
    show ?thesis
      using dotdot less.hyps [of t] less.hyps [of t "[]" "Suc k"] less.prems sp resolve_at_end [OF dotdot(2)] clean_loop_dotdot [OF dotdot(2) less.prems]
      by (cases names rule: rev_cases) simp_all
  next
    case name
    let ?e = "take_elem r" and ?t = "drop_elem r"
    have t: "at_end ?t" and e: "slash \<notin> set ?e" and en: "proper_name ?e"
      using take_elem_proper [OF name] by (simp_all add: at_end_drop_elem slash_take_elem)
    have sp: "split_on slash r = ?e # tl (split_on slash ?t)"
      using split_on_elem [OF e t] by (simp add: take_drop_elem)
    have ne: "\<forall>s \<in> set (segments_of k names). s \<noteq> []" using less.prems by (force simp: segments_of_def proper_name_def)
    have "clean_loop False r (join_with slash (segments_of k names)) (length (join_with slash (replicate k ''..'')))
      = clean_loop False ?t (join_with slash (segments_of k (names @ [?e]))) (length (join_with slash (replicate k ''..'')))"
      using clean_loop_name [OF name] push_segment [OF ne, of ?e] by (simp add: segments_of_def cong: if_cong split: if_splits)
    then show ?thesis
      using less.hyps [OF drop_elem_less [OF name(1,2)], of "names @ [?e]" k] less.prems en sp resolve_at_end [OF t]
      by (simp add: proper_name_def)
  qed
qed

lemma resolve_proper:
  assumes "\<forall>n \<in> set names. proper_name n" "\<forall>s \<in> set ss. slash \<notin> set s"
    "resolve k names ss = (k', ns)" "n \<in> set ns"
  shows "proper_name n"
  using assms
proof (induction k names ss rule: resolve.induct)
  case (1 k names)
  then show ?case by simp
next
  case (2 k names s ss)
  have "\<forall>n \<in> set (butlast names). proper_name n"
    using "2.prems"(1) in_set_butlastD by metis
  with 2 show ?case
    by (auto simp: proper_name_def split: if_splits)
qed

lemma resolved_segments:
  assumes "s \<in> set (resolved p)"
  shows "s = ''..'' \<or> proper_name s"
proof -
  obtain k ns where r: "resolve 0 [] (split_on slash p) = (k, ns)"
    by (cases "resolve 0 [] (split_on slash p)")
  have "\<forall>s \<in> set (split_on slash p). slash \<notin> set s"
    using split_on_segments by blast
  with assms r show ?thesis
    using resolve_proper [OF _ _ r] by (auto simp: resolved_def segments_of_def)
qed

lemma resolved_ne: "s \<in> set (resolved p) \<Longrightarrow> s \<noteq> [] \<and> slash \<notin> set s"
  by (drule resolved_segments) (auto simp: proper_name_def)

lemma Clean_relative [path_simps]:
  assumes "p \<noteq> []" "hd p \<noteq> slash"
  shows "Clean p = (if resolved p = [] then ''.'' else join_with slash (resolved p))"
proof -
  have "clean_loop False p [] 0 = join_with slash (resolved p)"
    using clean_loop_resolve [of "[]" p 0]
    by (simp add: resolved_def segments_of_def split: prod.split)
  moreover have "join_with slash (resolved p) = [] \<longleftrightarrow> resolved p = []"
    using resolved_ne by (intro join_eq_Nil_iff) blast
  ultimately show ?thesis using assms by (simp add: Clean_def)
qed

text \<open>The leading \<open>..\<close> elements come first: a resolved path escapes only at its start.\<close>

lemma resolved_no_dotdot:
  assumes "resolved p \<noteq> []" "hd (resolved p) \<noteq> ''..''" "s \<in> set (resolved p)"
  shows "proper_name s"
proof -
  obtain k ns where r: "resolve 0 [] (split_on slash p) = (k, ns)"
    by (cases "resolve 0 [] (split_on slash p)")
  with assms have "k = 0"
    by (cases k) (auto simp: resolved_def segments_of_def)
  moreover have "\<forall>s \<in> set (split_on slash p). slash \<notin> set s"
    using split_on_segments by blast
  ultimately show ?thesis
    using assms r resolve_proper [OF _ _ r] by (auto simp: resolved_def segments_of_def)
qed

lemma resolve_proper_id:
  "\<forall>s \<in> set ss. proper_name s \<Longrightarrow> resolve k names ss = (k, names @ ss)"
  by (induction ss arbitrary: names) (auto simp: proper_name_def)

lemma resolved_join_proper:
  assumes "ss \<noteq> []" "\<forall>s \<in> set ss. proper_name s"
  shows "resolved (join_with slash ss) = ss"
  using assms split_join [of ss slash]
  by (simp add: resolved_def resolve_proper_id segments_of_def proper_name_def)

lemma resolve_subset:
  "resolve k names ss = (k', ns) \<Longrightarrow> set ns \<subseteq> set names \<union> set ss"
proof (induction k names ss rule: resolve.induct)
  case (1 k names)
  then show ?case by simp
next
  case (2 k names s ss)
  have "set (butlast names) \<subseteq> set names" by (auto dest: in_set_butlastD)
  with 2 show ?case by (auto split: if_splits)
qed

lemma resolved_bytes:
  assumes "s \<in> set (resolved p)"
  shows "set s \<subseteq> insert (CHR ''.'') (set p)"
proof -
  obtain k ns where r: "resolve 0 [] (split_on slash p) = (k, ns)"
    by (cases "resolve 0 [] (split_on slash p)")
  with assms resolve_subset [OF r] have "s = ''..'' \<or> s \<in> set (split_on slash p)"
    by (auto simp: resolved_def segments_of_def)
  then show ?thesis using set_split_on_subset by auto
qed

end
