(* ===== verification/GoSort.thy ===== *)
theory GoSort
  imports Prelude
begin

text \<open>
  Go's \<open>sort.Search\<close> (the binary search loop as the library writes it) and
  \<open>sort.SearchStrings\<close>. \<open>sort.Strings\<close> is HOL's \<^const>\<open>sort\<close> in the bytewise order: equal
  strings are identical, so the result does not depend on the sorting algorithm.
\<close>

function search_loop :: "(nat \<Rightarrow> bool) \<Rightarrow> nat \<Rightarrow> nat \<Rightarrow> nat" where
  "search_loop f i j =
     (if i < j then
        (let h = (i + j) div 2 in
         if \<not> f h then search_loop f (h + 1) j else search_loop f i h)
      else i)"
  by pat_completeness auto
termination
  by (relation "measure (\<lambda>(f, i, j). j - i)") (auto simp: Let_def)

declare search_loop.simps [simp del]

definition Search :: "nat \<Rightarrow> (nat \<Rightarrow> bool) \<Rightarrow> nat" where
  "Search n f = search_loop f 0 n"

definition SearchStrings :: "string list \<Rightarrow> string \<Rightarrow> nat" where
  "SearchStrings a x = Search (length a) (\<lambda>i. x \<le> a ! i)"

lemma search_loop_least:
  assumes "i \<le> j" "\<forall>k l. k \<le> l \<and> l < n \<and> f k \<longrightarrow> f l" "j \<le> n"
    "\<forall>k < i. \<not> f k" "\<forall>k. j \<le> k \<and> k < n \<longrightarrow> f k"
  shows "search_loop f i j \<le> j \<and> (\<forall>k < search_loop f i j. \<not> f k)
       \<and> (\<forall>k. search_loop f i j \<le> k \<and> k < n \<longrightarrow> f k)"
  using assms
proof (induction f i j rule: search_loop.induct)
  case (1 f i j)
  show ?case
  proof (cases "i < j")
    case False
    then show ?thesis using "1.prems" by (subst (1 2 3) search_loop.simps) auto
  next
    case True
    define h where "h = (i + j) div 2"
    have h: "i \<le> h" "h < j" using True by (auto simp: h_def)
    show ?thesis
    proof (cases "f h")
      case True
      then have "\<forall>k. h \<le> k \<and> k < n \<longrightarrow> f k"
        using "1.prems"(2) by blast
      then have up: "\<forall>k. h \<le> k \<and> k < n \<longrightarrow> f k" .
      have "search_loop f i h \<le> h \<and> (\<forall>k < search_loop f i h. \<not> f k)
          \<and> (\<forall>k. search_loop f i h \<le> k \<and> k < n \<longrightarrow> f k)"
        using True h "1.prems"(3)
        by (intro "1.IH"(2) [OF \<open>i < j\<close> h_def _ h(1) "1.prems"(2) _ "1.prems"(4) up]) simp_all
      moreover have "search_loop f i j = search_loop f i h"
        using \<open>i < j\<close> True by (subst search_loop.simps) (simp add: h_def Let_def)
      ultimately show ?thesis using h by auto
    next
      case False
      have "\<not> f k" if "k < h + 1" for k
      proof
        assume "f k"
        moreover have "k \<le> h" "h < n" using that h "1.prems"(3) by auto
        ultimately show False using "1.prems"(2) False by blast
      qed
      then have low: "\<forall>k < h + 1. \<not> f k" by blast
      have "search_loop f (h + 1) j \<le> j \<and> (\<forall>k < search_loop f (h + 1) j. \<not> f k)
          \<and> (\<forall>k. search_loop f (h + 1) j \<le> k \<and> k < n \<longrightarrow> f k)"
        using False h
        by (intro "1.IH"(1) [OF \<open>i < j\<close> h_def _ _ "1.prems"(2,3) low "1.prems"(5)]) simp_all
      moreover have "search_loop f i j = search_loop f (h + 1) j"
        using \<open>i < j\<close> False by (subst search_loop.simps) (simp add: h_def Let_def)
      ultimately show ?thesis by simp
    qed
  qed
qed

lemma SearchStrings_sorted:
  assumes "sorted a"
  shows "SearchStrings a x \<le> length a"
    and "k < SearchStrings a x \<Longrightarrow> a ! k < x"
    and "SearchStrings a x \<le> k \<Longrightarrow> k < length a \<Longrightarrow> x \<le> a ! k"
proof -
  have mono: "\<forall>k l. k \<le> l \<and> l < length a \<and> x \<le> a ! k \<longrightarrow> x \<le> a ! l"
    using assms by (meson order_trans sorted_nth_mono)
  have r: "SearchStrings a x \<le> length a \<and> (\<forall>k < SearchStrings a x. \<not> x \<le> a ! k)
      \<and> (\<forall>k. SearchStrings a x \<le> k \<and> k < length a \<longrightarrow> x \<le> a ! k)"
    unfolding SearchStrings_def Search_def
    by (rule search_loop_least [OF _ mono]) auto
  from r show "SearchStrings a x \<le> length a" by blast
  from r show "k < SearchStrings a x \<Longrightarrow> a ! k < x" by (meson not_le)
  from r show "SearchStrings a x \<le> k \<Longrightarrow> k < length a \<Longrightarrow> x \<le> a ! k" by blast
qed

text \<open>
  Prefix search: in a sorted array the first string that is not below \<open>t\<close> starts with \<open>t\<close>
  iff any string of the array does.
\<close>

lemma SearchStrings_prefix:
  assumes "sorted a"
  shows "SearchStrings a t < length a \<and> prefix t (a ! SearchStrings a t)
     \<longleftrightarrow> (\<exists>s \<in> set a. prefix t s)"
proof
  assume "\<exists>s \<in> set a. prefix t s"
  then obtain i where i: "i < length a" "prefix t (a ! i)"
    by (auto simp: in_set_conv_nth)
  let ?r = "SearchStrings a t"
  have "?r \<le> i"
  proof (rule ccontr)
    assume "\<not> ?r \<le> i"
    then have "a ! i < t" using SearchStrings_sorted(2) [OF assms, of i t] by simp
    with prefix_imp_le [OF i(2)] show False by simp
  qed
  moreover obtain u where "a ! i = t @ u" using i(2) by (auto simp: prefix_def)
  ultimately have "a ! ?r \<le> t @ u" "t \<le> a ! ?r" "?r < length a"
    using assms i SearchStrings_sorted(3) [OF assms, of t ?r] sorted_nth_le [of a ?r i] by auto
  then show "?r < length a \<and> prefix t (a ! ?r)"
    using between_prefix by blast
qed (metis nth_mem)

end
