(* ===== verification/DomainModel.thy ===== *)
theory DomainModel
  imports Prelude
begin

text \<open>
  The domain types of \<open>internal/model/archive.go\<close>. Struct fields keep their Go names behind a
  short prefix, since HOL's record selectors share one name space. \<open>ExportType\<close> stays a
  string, because it arrives from the request unchecked; \<open>JobStatus\<close> is only ever assigned
  its five constants.
\<close>

type_synonym ExportType = string

definition ExportTypeZip :: ExportType where
  "ExportTypeZip = ''zip''"

definition ExportTypeTar :: ExportType where
  "ExportTypeTar = ''tar''"

definition Extension :: "ExportType \<Rightarrow> string" where
  "Extension t = (if t = ExportTypeTar then ''tar'' else ''zip'')"

definition ContentType :: "ExportType \<Rightarrow> string" where
  "ContentType t = (if t = ExportTypeTar then ''application/x-tar'' else ''application/zip'')"

record ArchiveRequest =
  req_RootFolderID :: string
  req_ArchiveName :: string
  req_ExportType :: ExportType

record StorageServer =
  ss_HostAddress :: string
  ss_APIKey :: string

record ArchiveFile =
  af_FileID :: string
  af_FileName :: string
  af_ArchivePath :: string
  af_FileVersion :: int
  af_HostedAt :: string
  af_FileLocation :: string
  af_FileSize :: int
  af_FileHash :: string

record ArchiveFolder =
  fd_FolderID :: string
  fd_ParentFolderID :: "string option"
  fd_FolderName :: string
  fd_ArchivePath :: string

record ArchiveManifest =
  mf_RootFolderID :: string
  mf_ArchiveName :: string
  mf_ExportType :: ExportType
  mf_Files :: "ArchiveFile list"
  mf_EmptyFolders :: "ArchiveFolder list"
  mf_TotalFiles :: int
  mf_TotalBytes :: int

datatype JobStatus =
    JobStatusQueued
  | JobStatusProcessing
  | JobStatusCompleted
  | JobStatusFailed
  | JobStatusExpired

fun status_text :: "JobStatus \<Rightarrow> string" where
  "status_text JobStatusQueued = ''queued''"
| "status_text JobStatusProcessing = ''processing''"
| "status_text JobStatusCompleted = ''completed''"
| "status_text JobStatusFailed = ''failed''"
| "status_text JobStatusExpired = ''expired''"

text \<open>The statuses in the order in which a job goes through them.\<close>

fun status_rank :: "JobStatus \<Rightarrow> nat" where
  "status_rank JobStatusQueued = 0"
| "status_rank JobStatusProcessing = 1"
| "status_rank JobStatusCompleted = 2"
| "status_rank JobStatusFailed = 3"
| "status_rank JobStatusExpired = 4"

lemma status_rank_inject [simp]: "status_rank a = status_rank b \<longleftrightarrow> a = b"
  by (cases a; cases b) simp_all

instantiation JobStatus :: linorder
begin

definition less_eq_JobStatus :: "JobStatus \<Rightarrow> JobStatus \<Rightarrow> bool" where
  "less_eq_JobStatus a b \<longleftrightarrow> status_rank a \<le> status_rank b"

definition less_JobStatus :: "JobStatus \<Rightarrow> JobStatus \<Rightarrow> bool" where
  "less_JobStatus a b \<longleftrightarrow> status_rank a < status_rank b"

instance
  by standard (auto simp: less_eq_JobStatus_def less_JobStatus_def)

end

record Job =
  j_ID :: string
  j_RootFolderID :: string
  j_ArchiveName :: string
  j_ExportType :: ExportType
  j_Status :: JobStatus
  j_TotalFiles :: int
  j_ProcessedFiles :: int
  j_TotalBytes :: int
  j_ProcessedBytes :: int
  j_ArchivePath :: string
  j_ErrorMessage :: string
  j_DownloadToken :: string
  j_CreatedAt :: time
  j_UpdatedAt :: time
  j_StartedAt :: time
  j_CompletedAt :: "time option"
  j_ExpiresAt :: time

record ProgressEvent =
  pe_ProcessedFiles :: int
  pe_TotalFiles :: int
  pe_ProcessedBytes :: int
  pe_TotalBytes :: int

record CompletedEvent =
  ce_JobID :: string
  ce_DownloadURL :: string
  ce_DownloadToken :: string
  ce_ExpiresInSecs :: int

record ErrorEvent =
  ee_Message :: string

text \<open>
  \<open>Job.Clone\<close> copies the struct and the time behind \<open>CompletedAt\<close>. Records are values
  here, so the copy of a job is the job; nil is \<^term>\<open>None\<close>.
\<close>

definition Clone :: "Job option \<Rightarrow> Job option" where
  "Clone j = (case j of None \<Rightarrow> None
     | Some j \<Rightarrow> Some (j\<lparr>j_CompletedAt := (case j_CompletedAt j of None \<Rightarrow> None | Some t \<Rightarrow> Some t)\<rparr>))"

lemma Clone_id [simp]: "Clone j = j"
  by (cases j) (auto simp: Clone_def split: option.split)

definition terminal :: "JobStatus \<Rightarrow> bool" where
  "terminal s \<longleftrightarrow> s \<in> {JobStatusCompleted, JobStatusFailed, JobStatusExpired}"

end
