(* ===== verification/Repository.thy ===== *)
theory Repository
  imports DomainModel "HOL-Library.Product_Lexorder"
begin

text \<open>
  \<open>internal/repository\<close>: what the Go methods do with the outcome of their queries, the
  keyset paging loop of \<open>GetFilesForFolderTree\<close>, and the meaning of the SQL texts over the
  tables \<open>folders\<close>, \<open>files\<close> and \<open>file_versions\<close>. The pool of pgx is a parameter: a record of
  the outcomes of the queries. The collation of the database is a parameter too, given by a
  sort key \<open>ckey\<close> for texts, since \<open>ORDER BY\<close> and the row comparison use the same one.
\<close>

section \<open>The Go side\<close>

datatype repo_error =
    CheckFolderExists string
  | QueryFolderTree string
  | ScanFolderRow string
  | IterateFolderRows string
  | QueryFiles string
  | ScanFileRow string
  | IterateFileRows string
  | QueryStorageServers string
  | ScanStorageServerRow string
  | IterateStorageServerRows string

text \<open>An open result set: what scanning each row gives, and what \<open>rows.Err\<close> reports at the end.\<close>

type_synonym 'r rows = "(string, 'r) result list \<times> string option"

record pgxpool =
  q_folderExists :: "string \<Rightarrow> (string, bool) result"
  q_folderTree :: "string \<Rightarrow> (string, ArchiveFolder rows) result"
  q_filesPage :: "string \<Rightarrow> string option \<Rightarrow> string option \<Rightarrow> nat \<Rightarrow> (string, ArchiveFile rows) result"
  q_servers :: "(string, StorageServer rows) result"

fun scan_rows ::
  "(string \<Rightarrow> repo_error) \<Rightarrow> (string \<Rightarrow> repo_error) \<Rightarrow> 'r list \<Rightarrow> (string, 'r) result list
     \<Rightarrow> string option \<Rightarrow> (repo_error, 'r list) result" where
  "scan_rows scanErr iterErr acc [] None = Ok acc"
| "scan_rows scanErr iterErr acc [] (Some e) = Err (iterErr e)"
| "scan_rows scanErr iterErr acc (Inl e # rs) end = Err (scanErr e)"
| "scan_rows scanErr iterErr acc (Inr r # rs) end = scan_rows scanErr iterErr (acc @ [r]) rs end"

definition FolderExists :: "pgxpool \<Rightarrow> string \<Rightarrow> (repo_error, bool) result" where
  "FolderExists pool folderID =
     (case q_folderExists pool folderID of Inl e \<Rightarrow> Err (CheckFolderExists e) | Inr b \<Rightarrow> Ok b)"

definition GetFolderTree :: "pgxpool \<Rightarrow> string \<Rightarrow> (repo_error, ArchiveFolder list) result" where
  "GetFolderTree pool rootFolderID =
     (case q_folderTree pool rootFolderID of
        Inl e \<Rightarrow> Err (QueryFolderTree e)
      | Inr (rs, end) \<Rightarrow> scan_rows ScanFolderRow IterateFolderRows [] rs end)"

definition filesPageSize :: nat where
  "filesPageSize = 5000"

definition getFilesPage ::
  "pgxpool \<Rightarrow> string \<Rightarrow> string option \<Rightarrow> string option \<Rightarrow> (repo_error, ArchiveFile list) result" where
  "getFilesPage pool rootFolderID cursorFileID cursorPath =
     (case q_filesPage pool rootFolderID cursorFileID cursorPath filesPageSize of
        Inl e \<Rightarrow> Err (QueryFiles e)
      | Inr (rs, end) \<Rightarrow> scan_rows ScanFileRow IterateFileRows [] rs end)"

text \<open>
  The \<open>for\<close> loop of \<open>GetFilesForFolderTree\<close> over any page function. It stops at the first page
  that is not full; whether it stops at all depends on the pages, so it is a partial function.
\<close>

partial_function (option) files_loop ::
  "nat \<Rightarrow> (string option \<Rightarrow> string option \<Rightarrow> (repo_error, ArchiveFile list) result)
     \<Rightarrow> string option \<Rightarrow> string option \<Rightarrow> ArchiveFile list
     \<Rightarrow> (repo_error, ArchiveFile list) result option" where
  "files_loop psize page cursorFileID cursorPath files =
     (case page cursorFileID cursorPath of
        Inl e \<Rightarrow> Some (Err e)
      | Inr pg \<Rightarrow>
          let files' = files @ pg in
          if length pg < psize then Some (Ok files')
          else files_loop psize page (Some (af_FileID (last pg))) (Some (af_ArchivePath (last pg))) files')"

definition GetFilesForFolderTree ::
  "pgxpool \<Rightarrow> string \<Rightarrow> (repo_error, ArchiveFile list) result option" where
  "GetFilesForFolderTree pool rootFolderID =
     files_loop filesPageSize (getFilesPage pool rootFolderID) None None []"

definition ListServers :: "pgxpool \<Rightarrow> (repo_error, StorageServer list) result" where
  "ListServers pool =
     (case q_servers pool of
        Inl e \<Rightarrow> Err (QueryStorageServers e)
      | Inr (rs, end) \<Rightarrow> scan_rows ScanStorageServerRow IterateStorageServerRows [] rs end)"

section \<open>The SQL side\<close>

record folder_row =
  fr_folder_id :: string
  fr_parent_folder_id :: "string option"
  fr_user_id :: string
  fr_folder_name :: string
  fr_deleted :: bool

record file_row =
  fl_file_id :: string
  fl_folder_id :: string
  fl_user_id :: string
  fl_file_name :: string
  fl_deleted :: bool

record version_row =
  fv_file_id :: string
  fv_file_version :: int
  fv_hosted_at :: string
  fv_file_location :: string
  fv_file_size :: int
  fv_file_hash :: string

record database =
  tb_folders :: "folder_row list"
  tb_files :: "file_row list"
  tb_versions :: "version_row list"

text \<open>\<open>folderExistsQuery\<close>.\<close>

definition sql_folder_exists :: "database \<Rightarrow> string \<Rightarrow> bool" where
  "sql_folder_exists db root \<longleftrightarrow>
     (\<exists>f \<in> set (tb_folders db). fr_folder_id f = root \<and> \<not> fr_deleted f)"

text \<open>
  The recursive CTE \<open>folder_tree\<close>: the non-recursive term, the recursive term applied to the
  working table, and their iteration (\<open>UNION ALL\<close>) until the working table is empty. A cycle
  of parents through the root makes the iteration endless.
\<close>

type_synonym tree_row = "folder_row \<times> string"

definition tree_base :: "database \<Rightarrow> string \<Rightarrow> tree_row list" where
  "tree_base db root =
     [(f, fr_folder_name f). f \<leftarrow> tb_folders db, fr_folder_id f = root \<and> \<not> fr_deleted f]"

definition tree_step :: "database \<Rightarrow> tree_row list \<Rightarrow> tree_row list" where
  "tree_step db work =
     [(child, path @ ''/'' @ fr_folder_name child).
        child \<leftarrow> tb_folders db, (parent, path) \<leftarrow> work,
        fr_parent_folder_id child = Some (fr_folder_id parent) \<and> \<not> fr_deleted child]"

partial_function (option) tree_iter ::
  "database \<Rightarrow> tree_row list \<Rightarrow> tree_row list \<Rightarrow> tree_row list option" where
  "tree_iter db work acc =
     (if work = [] then Some acc
      else let new = tree_step db work in tree_iter db new (acc @ new))"

definition folder_tree :: "database \<Rightarrow> string \<Rightarrow> tree_row list option" where
  "folder_tree db root = tree_iter db (tree_base db root) (tree_base db root)"

definition to_folder :: "tree_row \<Rightarrow> ArchiveFolder" where
  "to_folder r = \<lparr>fd_FolderID = fr_folder_id (fst r), fd_ParentFolderID = fr_parent_folder_id (fst r),
     fd_FolderName = fr_folder_name (fst r), fd_ArchivePath = snd r\<rparr>"

text \<open>\<open>folderTreeQuery\<close>: the CTE, projected and ordered by \<open>archive_path\<close>.\<close>

definition sql_folder_tree :: "(string \<Rightarrow> string) \<Rightarrow> database \<Rightarrow> string \<Rightarrow> ArchiveFolder list option" where
  "sql_folder_tree ckey db root =
     map_option (\<lambda>rows. sort_key (\<lambda>d. ckey (fd_ArchivePath d)) (map to_folder rows)) (folder_tree db root)"

text \<open>The lateral subquery: the row with the highest version of a file, if it has any.\<close>

definition latest_version :: "database \<Rightarrow> string \<Rightarrow> version_row option" where
  "latest_version db fid =
     (case sort_key (\<lambda>v. - fv_file_version v) [v \<leftarrow> tb_versions db. fv_file_id v = fid] of
        [] \<Rightarrow> None | v # _ \<Rightarrow> Some v)"

definition to_file :: "file_row \<Rightarrow> string \<Rightarrow> version_row \<Rightarrow> ArchiveFile" where
  "to_file f path v = \<lparr>af_FileID = fl_file_id f, af_FileName = fl_file_name f,
     af_ArchivePath = path @ ''/'' @ fl_file_name f, af_FileVersion = fv_file_version v,
     af_HostedAt = fv_hosted_at v, af_FileLocation = fv_file_location v,
     af_FileSize = fv_file_size v, af_FileHash = fv_file_hash v\<rparr>"

text \<open>The CTE \<open>resolved\<close>: the files of the folders of the tree, at their latest version.\<close>

definition resolved_files :: "database \<Rightarrow> tree_row list \<Rightarrow> ArchiveFile list" where
  "resolved_files db tree =
     [to_file f path v.
        (folder, path) \<leftarrow> tree, f \<leftarrow> tb_files db,
        v \<leftarrow> (case latest_version db (fl_file_id f) of None \<Rightarrow> [] | Some v \<Rightarrow> [v]),
        fl_folder_id f = fr_folder_id folder \<and> fl_user_id f = fr_user_id folder \<and> \<not> fl_deleted f]"

definition file_key :: "(string \<Rightarrow> string) \<Rightarrow> ArchiveFile \<Rightarrow> string \<times> string" where
  "file_key ckey f = (ckey (af_ArchivePath f), af_FileID f)"

definition after_cursor ::
  "(string \<Rightarrow> string) \<Rightarrow> string option \<Rightarrow> string option \<Rightarrow> ArchiveFile \<Rightarrow> bool" where
  "after_cursor ckey cursorFileID cursorPath f =
     (case cursorFileID of None \<Rightarrow> True
      | Some i \<Rightarrow> (case cursorPath of None \<Rightarrow> False | Some p \<Rightarrow> (ckey p, i) < file_key ckey f))"

text \<open>\<open>filesForFolderTreePageQuery\<close> over the rows of \<open>resolved\<close>: keyset predicate, order, limit.\<close>

definition sql_files_page ::
  "(string \<Rightarrow> string) \<Rightarrow> ArchiveFile list \<Rightarrow> string option \<Rightarrow> string option \<Rightarrow> nat \<Rightarrow> ArchiveFile list" where
  "sql_files_page ckey rows cursorFileID cursorPath lim =
     take lim (sort_key (file_key ckey) (filter (after_cursor ckey cursorFileID cursorPath) rows))"

text \<open>\<open>listStorageServersQuery\<close>: the rows of \<open>servers\<close>, ordered by address.\<close>

definition sql_servers :: "(string \<Rightarrow> string) \<Rightarrow> StorageServer list \<Rightarrow> StorageServer list" where
  "sql_servers ckey rows = sort_key (\<lambda>s. ckey (ss_HostAddress s)) rows"

text \<open>A pool that answers every query of a root folder from one state of the database.\<close>

definition answers :: "(string \<Rightarrow> string) \<Rightarrow> database \<Rightarrow> pgxpool \<Rightarrow> string \<Rightarrow> bool" where
  "answers ckey db pool root \<longleftrightarrow>
     q_folderExists pool root = Ok (sql_folder_exists db root)
     \<and> (case folder_tree db root of
          None \<Rightarrow> False
        | Some tree \<Rightarrow>
            q_folderTree pool root = Ok (map Ok (the (sql_folder_tree ckey db root)), None)
            \<and> q_filesPage pool root =
                (\<lambda>cid cpath lim. Ok (map Ok (sql_files_page ckey (resolved_files db tree) cid cpath lim), None)))"

section \<open>The paging loop\<close>

lemma scan_rows_Ok [simp]: "scan_rows se ie acc (map Ok rs) None = Ok (acc @ rs)"
  by (induction rs arbitrary: acc) auto

lemma ListServers_sql:
  "q_servers pool = Ok (map Ok (sql_servers ckey rows), None) \<Longrightarrow> ListServers pool = Ok (sql_servers ckey rows)"
  by (simp add: ListServers_def)

lemma scan_rows_prefix_error:
  "scan_rows se ie acc (map Ok rs @ Inl e # rest) end = Err (se e)"
  "scan_rows se ie acc (map Ok rs) (Some e) = Err (ie e)"
  by (induction rs arbitrary: acc) auto

text \<open>
  In a list that is strictly sorted by its keys, the elements above the key of the element
  before position \<open>m\<close> are the elements from \<open>m\<close> on.
\<close>

lemma filter_above_key:
  assumes "sorted (map k xs)" "distinct (map k xs)" "0 < m" "m \<le> length xs"
  shows "filter (\<lambda>x. k (xs ! (m - 1)) < k x) xs = drop m xs"
proof -
  have lt: "k (xs ! i) < k (xs ! j)" if "i < j" "j < length xs" for i j
  proof -
    have "map k xs ! i \<le> map k xs ! j"
      using that assms(1) by (intro sorted_nth_mono) auto
    moreover have "map k xs ! i \<noteq> map k xs ! j"
      using that assms(2) by (subst nth_eq_iff_index_eq) auto
    ultimately show ?thesis using that by simp
  qed
  have "filter (\<lambda>x. k (xs ! (m - 1)) < k x) (take m xs) = []"
  proof -
    have "\<not> k (xs ! (m - 1)) < k x" if "x \<in> set (take m xs)" for x
    proof -
      from that obtain i where i: "i < m" "i < length xs" "x = xs ! i"
        by (auto simp: in_set_conv_nth)
      show ?thesis
      proof (cases "i = m - 1")
        case True
        then show ?thesis using i by simp
      next
        case False
        then have "k (xs ! i) < k (xs ! (m - 1))"
          using i assms(3,4) by (intro lt) auto
        then show ?thesis using i by simp
      qed
    qed
    then show ?thesis by (simp add: filter_empty_conv)
  qed
  moreover have "filter (\<lambda>x. k (xs ! (m - 1)) < k x) (drop m xs) = drop m xs"
  proof (rule filter_True, rule ballI)
    fix x assume "x \<in> set (drop m xs)"
    then obtain i where "i < length xs - m" "x = xs ! (m + i)"
      by (auto simp: in_set_conv_nth)
    then show "k (xs ! (m - 1)) < k x"
      using assms(3) by (auto intro: lt)
  qed
  ultimately show ?thesis
    by (metis append_Nil append_take_drop_id filter_append)
qed

lemma sql_files_page_first:
  "sql_files_page ckey rows None cpath n = take n (sort_key (file_key ckey) rows)"
  by (simp add: sql_files_page_def after_cursor_def)

lemma sql_files_page_next:
  assumes "distinct (map (file_key ckey) rows)" "0 < m" "m \<le> length rows"
    and x: "x = sort_key (file_key ckey) rows ! (m - 1)"
  shows "sql_files_page ckey rows (Some (af_FileID x)) (Some (af_ArchivePath x)) n
       = take n (drop m (sort_key (file_key ckey) rows))"
proof -
  let ?S = "sort_key (file_key ckey) rows"
  have d: "distinct (map (file_key ckey) ?S)"
    by (metis assms(1) distinct_map distinct_sort set_sort)
  have "filter (after_cursor ckey (Some (af_FileID x)) (Some (af_ArchivePath x))) ?S
      = filter (\<lambda>f. file_key ckey (?S ! (m - 1)) < file_key ckey f) ?S"
    unfolding x by (rule filter_cong) (auto simp: after_cursor_def file_key_def)
  also have "\<dots> = drop m ?S"
    using d assms by (intro filter_above_key) auto
  finally show ?thesis
    by (simp add: sql_files_page_def filter_sort [symmetric])
qed

lemma files_loop_pages:
  assumes d: "distinct (map (file_key ckey) rows)" and n: "0 < n"
    and m: "m \<le> length rows" and S: "S = sort_key (file_key ckey) rows"
    and pg: "page cid cpath = Ok (take n (drop m S))"
    and nxt: "\<And>i. 0 < i \<Longrightarrow> i \<le> length rows \<Longrightarrow>
       page (Some (af_FileID (S ! (i - 1)))) (Some (af_ArchivePath (S ! (i - 1)))) = Ok (take n (drop i S))"
  shows "files_loop n page cid cpath (take m S) = Some (Ok S)"
  using m pg
proof (induction "length rows - m" arbitrary: m cid cpath rule: less_induct)
  case less
  have len: "length S = length rows" by (simp add: S)
  show ?case
  proof (cases "length rows - m < n")
    case True
    then have "take n (drop m S) = drop m S" by (simp add: len)
    then show ?thesis
      using True less.prems(2) by (subst files_loop.simps) (simp add: len)
  next
    case False
    let ?pg = "take n (drop m S)"
    have mn: "m + n \<le> length rows" using False less.prems(1) n by linarith
    have lst: "last ?pg = S ! (m + n - 1)"
      using mn n len by (simp add: last_conv_nth)
    have "files_loop n page (Some (af_FileID (last ?pg))) (Some (af_ArchivePath (last ?pg)))
        (take (m + n) S) = Some (Ok S)"
      unfolding lst using n mn by (intro less.hyps nxt) auto
    moreover have "take (m + n) S = take m S @ ?pg" by (simp add: take_add)
    ultimately show ?thesis
      using less.prems(2) False by (subst files_loop.simps) (simp add: len)
  qed
qed

lemma files_loop_sql:
  assumes "distinct (map (file_key ckey) rows)" "0 < n"
  shows "files_loop n (\<lambda>cid cpath. Ok (sql_files_page ckey rows cid cpath n)) None None []
       = Some (Ok (sort_key (file_key ckey) rows))"
  using files_loop_pages [of ckey rows n 0, OF assms _ refl]
    sql_files_page_first sql_files_page_next [OF assms(1)]
  by auto

section \<open>The folder tree\<close>

text \<open>What the CTE should hold: the undeleted folders below the root, each with its path.\<close>

inductive live_tree :: "database \<Rightarrow> string \<Rightarrow> folder_row \<Rightarrow> string \<Rightarrow> bool" for db root where
  live_root: "f \<in> set (tb_folders db) \<Longrightarrow> fr_folder_id f = root \<Longrightarrow> \<not> fr_deleted f
     \<Longrightarrow> live_tree db root f (fr_folder_name f)"
| live_child: "live_tree db root p path \<Longrightarrow> c \<in> set (tb_folders db)
     \<Longrightarrow> fr_parent_folder_id c = Some (fr_folder_id p) \<Longrightarrow> \<not> fr_deleted c
     \<Longrightarrow> live_tree db root c (path @ ''/'' @ fr_folder_name c)"

lemma set_tree_base:
  "set (tree_base db root)
     = {(f, fr_folder_name f) |f. f \<in> set (tb_folders db) \<and> fr_folder_id f = root \<and> \<not> fr_deleted f}"
  by (auto simp: tree_base_def)

lemma set_tree_step:
  "set (tree_step db work)
     = {(c, path @ ''/'' @ fr_folder_name c) |c p path. c \<in> set (tb_folders db) \<and> (p, path) \<in> set work
          \<and> fr_parent_folder_id c = Some (fr_folder_id p) \<and> \<not> fr_deleted c}"
  by (auto simp: tree_step_def)

definition tree_closed :: "database \<Rightarrow> tree_row set \<Rightarrow> tree_row set \<Rightarrow> bool" where
  "tree_closed db A B \<longleftrightarrow> (\<forall>x \<in> A. set (tree_step db [x]) \<subseteq> B)"

lemma tree_step_UN: "set (tree_step db work) = (\<Union>x \<in> set work. set (tree_step db [x]))"
  by (auto simp: set_tree_step)

lemma tree_iter_closed:
  assumes "tree_iter db work acc = Some r"
  shows "set work \<subseteq> set acc \<and> tree_closed db (set acc - set work) (set acc)
    \<longrightarrow> set acc \<subseteq> set r \<and> tree_closed db (set r) (set r)"
proof (rule tree_iter.raw_induct [where P = "\<lambda>db work acc r.
      set work \<subseteq> set acc \<and> tree_closed db (set acc - set work) (set acc)
      \<longrightarrow> set acc \<subseteq> set r \<and> tree_closed db (set r) (set r)", OF _ assms], goal_cases)
  case (1 iter db work acc r)
  note IH = 1(1) and eq = 1(2)
  show ?case
  proof (intro impI)
    assume a: "set work \<subseteq> set acc \<and> tree_closed db (set acc - set work) (set acc)"
    show "set acc \<subseteq> set r \<and> tree_closed db (set r) (set r)"
    proof (cases "work = []")
      case True
      with eq a show ?thesis by simp
    next
      case False
      let ?new = "tree_step db work"
      from False eq have "iter db ?new (acc @ ?new) = Some r" by (simp add: Let_def)
      from IH [OF this] have ih: "set ?new \<subseteq> set (acc @ ?new)
          \<and> tree_closed db (set (acc @ ?new) - set ?new) (set (acc @ ?new))
          \<longrightarrow> set (acc @ ?new) \<subseteq> set r \<and> tree_closed db (set r) (set r)" .
      have "tree_closed db (set (acc @ ?new) - set ?new) (set (acc @ ?new))"
        using a tree_step_UN [of db work] unfolding tree_closed_def by auto
      with ih show ?thesis by auto
    qed
  qed
qed

lemma tree_iter_sound:
  assumes "tree_iter db work acc = Some r"
  shows "(\<forall>(f, path) \<in> set work \<union> set acc. live_tree db root f path)
    \<longrightarrow> (\<forall>(f, path) \<in> set r. live_tree db root f path)"
proof (rule tree_iter.raw_induct [where P = "\<lambda>db work acc r.
      (\<forall>(f, path) \<in> set work \<union> set acc. live_tree db root f path)
      \<longrightarrow> (\<forall>(f, path) \<in> set r. live_tree db root f path)", OF _ assms], goal_cases)
  case (1 iter db work acc r)
  note IH = 1(1) and eq = 1(2)
  show ?case
  proof (intro impI)
    assume a: "\<forall>(f, path) \<in> set work \<union> set acc. live_tree db root f path"
    show "\<forall>(f, path) \<in> set r. live_tree db root f path"
    proof (cases "work = []")
      case True
      with eq a show ?thesis by simp
    next
      case False
      let ?new = "tree_step db work"
      from False eq have "iter db ?new (acc @ ?new) = Some r" by (simp add: Let_def)
      moreover have "\<forall>(f, path) \<in> set ?new. live_tree db root f path"
        using a unfolding set_tree_step by (fastforce intro: live_child)
      ultimately show ?thesis using IH a by fastforce
    qed
  qed
qed

lemma folder_tree_iff:
  assumes "folder_tree db root = Some rows"
  shows "(f, path) \<in> set rows \<longleftrightarrow> live_tree db root f path"
proof
  let ?base = "tree_base db root"
  have it: "tree_iter db ?base ?base = Some rows"
    using assms by (simp add: folder_tree_def)
  have "\<forall>(f, path) \<in> set ?base \<union> set ?base. live_tree db root f path"
    by (auto simp: set_tree_base intro: live_root)
  with tree_iter_sound [OF it, of root] show "(f, path) \<in> set rows \<Longrightarrow> live_tree db root f path"
    by auto
  have c: "set ?base \<subseteq> set rows" "tree_closed db (set rows) (set rows)"
    using tree_iter_closed [OF it] by (auto simp: tree_closed_def)
  show "live_tree db root f path \<Longrightarrow> (f, path) \<in> set rows"
  proof (induction rule: live_tree.induct)
    case (live_root f)
    then show ?case using c(1) by (auto simp: set_tree_base)
  next
    case (live_child p path ch)
    then have "(ch, path @ ''/'' @ fr_folder_name ch) \<in> set (tree_step db [(p, path)])"
      by (auto simp: set_tree_step)
    with c(2) live_child.IH show ?case by (auto simp: tree_closed_def)
  qed
qed

text \<open>
  The iteration ends when parents have a smaller depth than their children, for some depth
  measure: that is, when the undeleted folders hold no cycle.
\<close>

definition acyclic_by :: "(string \<Rightarrow> nat) \<Rightarrow> database \<Rightarrow> bool" where
  "acyclic_by depth db \<longleftrightarrow>
     (\<forall>c \<in> set (tb_folders db). \<not> fr_deleted c \<longrightarrow>
        (case fr_parent_folder_id c of None \<Rightarrow> True | Some p \<Rightarrow> depth p < depth (fr_folder_id c)))"

lemma tree_iter_terminates:
  assumes "acyclic_by depth db" "\<forall>f \<in> set (tb_folders db). depth (fr_folder_id f) < D"
    "\<forall>(f, path) \<in> set work. f \<in> set (tb_folders db) \<and> n \<le> depth (fr_folder_id f)"
  shows "\<exists>r. tree_iter db work acc = Some r"
  using assms(3)
proof (induction "D - n" arbitrary: n work acc rule: less_induct)
  case less
  show ?case
  proof (cases "work = []")
    case True
    then show ?thesis by (simp add: tree_iter.simps)
  next
    case False
    then obtain f path where "(f, path) \<in> set work" by (cases work) auto
    with less.prems assms(2) have "n < D" by fastforce
    have "\<forall>(f, path) \<in> set (tree_step db work). f \<in> set (tb_folders db) \<and> Suc n \<le> depth (fr_folder_id f)"
      using assms(1) less.prems unfolding acyclic_by_def set_tree_step by fastforce
    with less.hyps [of "Suc n" "tree_step db work"] \<open>n < D\<close>
    have "\<exists>r. tree_iter db (tree_step db work) (acc @ tree_step db work) = Some r"
      by simp
    with False show ?thesis by (subst tree_iter.simps) (simp add: Let_def)
  qed
qed

lemma folder_tree_terminates:
  assumes "acyclic_by depth db"
  shows "\<exists>rows. folder_tree db root = Some rows"
proof -
  define D where "D = Suc (Max (insert 0 (depth ` fr_folder_id ` set (tb_folders db))))"
  have "\<forall>f \<in> set (tb_folders db). depth (fr_folder_id f) < D"
    by (auto simp: D_def less_Suc_eq_le intro!: Max_ge)
  moreover have "\<forall>(f, path) \<in> set (tree_base db root). f \<in> set (tb_folders db) \<and> 0 \<le> depth (fr_folder_id f)"
    by (auto simp: set_tree_base)
  ultimately show ?thesis
    unfolding folder_tree_def by (rule tree_iter_terminates [OF assms])
qed

lemma latest_version_max:
  assumes "latest_version db fid = Some v"
  shows "v \<in> set (tb_versions db)" "fv_file_id v = fid"
    and "w \<in> set (tb_versions db) \<Longrightarrow> fv_file_id w = fid \<Longrightarrow> fv_file_version w \<le> fv_file_version v"
proof -
  let ?vs = "[v \<leftarrow> tb_versions db. fv_file_id v = fid]"
  let ?s = "sort_key (\<lambda>v. - fv_file_version v) ?vs"
  obtain t where t: "?s = v # t"
    using assms by (auto simp: latest_version_def split: list.splits)
  then have "set ?vs = insert v (set t)" by (metis list.simps(15) set_sort)
  then show "v \<in> set (tb_versions db)" "fv_file_id v = fid" by auto
  have "sorted (map (\<lambda>v. - fv_file_version v) (v # t))"
    using sorted_sort_key [of "\<lambda>v. - fv_file_version v" ?vs] t by simp
  then show "fv_file_version w \<le> fv_file_version v"
    if "w \<in> set (tb_versions db)" "fv_file_id w = fid"
    using that \<open>set ?vs = insert v (set t)\<close> by auto
qed

lemma tree_iter_endless:
  assumes cyc: "\<forall>p \<in> C. \<exists>c \<in> C. c \<in> set (tb_folders db)
      \<and> fr_parent_folder_id c = Some (fr_folder_id p) \<and> \<not> fr_deleted c"
    and w: "\<exists>f \<in> C. \<exists>path. (f, path) \<in> set work"
  shows "tree_iter db work acc = None"
proof (rule ccontr)
  assume "tree_iter db work acc \<noteq> None"
  then obtain r where r: "tree_iter db work acc = Some r" by auto
  have "db' = db \<longrightarrow> (\<exists>f \<in> C. \<exists>path. (f, path) \<in> set work) \<longrightarrow> False"
    if "tree_iter db' work acc = Some r" for db' work acc r
  proof (rule tree_iter.raw_induct [where P = "\<lambda>db' work acc r.
        db' = db \<longrightarrow> (\<exists>f \<in> C. \<exists>path. (f, path) \<in> set work) \<longrightarrow> False", OF _ that], goal_cases)
    case (1 iter db' work acc r)
    show ?case
    proof (intro impI)
      assume db: "db' = db" and "\<exists>f \<in> C. \<exists>path. (f, path) \<in> set work"
      then obtain f path where f: "f \<in> C" "(f, path) \<in> set work" by blast
      from cyc f(1) obtain c where c: "c \<in> C" "c \<in> set (tb_folders db)"
          "fr_parent_folder_id c = Some (fr_folder_id f)" "\<not> fr_deleted c" by blast
      then have "(c, path @ ''/'' @ fr_folder_name c) \<in> set (tree_step db work)"
        unfolding set_tree_step using f(2) by blast
      with c(1) have "\<exists>c \<in> C. \<exists>path. (c, path) \<in> set (tree_step db work)" by blast
      moreover have "iter db' (tree_step db' work) (acc @ tree_step db' work) = Some r"
        using 1(2) f(2) by (auto simp: Let_def split: if_splits)
      ultimately show False using 1(1) db by blast
    qed
  qed
  with r w show False by blast
qed

section \<open>Claims\<close>

text \<open>The files an archive of a root folder consists of.\<close>

definition live_file :: "database \<Rightarrow> string \<Rightarrow> ArchiveFile \<Rightarrow> bool" where
  "live_file db root x \<longleftrightarrow>
     (\<exists>folder path f v. live_tree db root folder path \<and> f \<in> set (tb_files db)
        \<and> fl_folder_id f = fr_folder_id folder \<and> fl_user_id f = fr_user_id folder \<and> \<not> fl_deleted f
        \<and> latest_version db (fl_file_id f) = Some v \<and> x = to_file f path v)"

lemma set_option_list: "set (case z of None \<Rightarrow> [] | Some v \<Rightarrow> [v]) = set_option z"
  by (cases z) auto

lemma mem_resolved_files:
  "x \<in> set (resolved_files db tree) \<longleftrightarrow>
     (\<exists>folder path f v. (folder, path) \<in> set tree \<and> f \<in> set (tb_files db)
        \<and> fl_folder_id f = fr_folder_id folder \<and> fl_user_id f = fr_user_id folder \<and> \<not> fl_deleted f
        \<and> latest_version db (fl_file_id f) = Some v \<and> x = to_file f path v)"
  (is "?L \<longleftrightarrow> ?R")
proof
  assume ?L
  then show ?R
    unfolding resolved_files_def by (auto simp: set_option_list split: if_splits)
next
  assume ?R
  then obtain folder path f v where r: "(folder, path) \<in> set tree" "f \<in> set (tb_files db)"
      "fl_folder_id f = fr_folder_id folder \<and> fl_user_id f = fr_user_id folder \<and> \<not> fl_deleted f"
      "latest_version db (fl_file_id f) = Some v" "x = to_file f path v" by blast
  show ?L
    unfolding resolved_files_def set_concat set_map UN_iff image_image
    by (rule bexI [OF _ r(1)]) (auto simp: r(3,4,5) intro!: bexI [OF _ r(2)])
qed

lemma set_resolved_files:
  assumes "folder_tree db root = Some tree"
  shows "x \<in> set (resolved_files db tree) \<longleftrightarrow> live_file db root x"
  by (simp add: mem_resolved_files live_file_def folder_tree_iff [OF assms])

lemma distinct_file_key: "distinct (map af_FileID rows) \<Longrightarrow> distinct (map (file_key ckey) rows)"
  by (auto simp: distinct_map inj_on_def file_key_def)

lemma GetFiles_paged:
  assumes "answers ckey db pool root" "folder_tree db root = Some tree"
    "distinct (map af_FileID (resolved_files db tree))"
  shows "GetFilesForFolderTree pool root = Some (Ok (sort_key (file_key ckey) (resolved_files db tree)))"
proof -
  have "getFilesPage pool root = (\<lambda>cid cpath. Ok (sql_files_page ckey (resolved_files db tree) cid cpath filesPageSize))"
    using assms(1,2) by (auto simp: answers_def getFilesPage_def fun_eq_iff)
  moreover have "0 < filesPageSize" by (simp add: filesPageSize_def)
  ultimately show ?thesis
    unfolding GetFilesForFolderTree_def
    using files_loop_sql [OF distinct_file_key [OF assms(3)]] by simp
qed

text \<open>
  C10. Keyset paging loses and repeats nothing. Against a database that does not change during
  the loop, whose file rows have distinct ids, \<open>GetFilesForFolderTree\<close> returns, whatever the
  collation and the number of pages, exactly the undeleted files of the undeleted folders
  below the root, each at its latest version, each once, ordered by path and id.
\<close>

theorem GetFilesForFolderTree_complete:
  assumes "answers ckey db pool root" "folder_tree db root = Some tree"
    "distinct (map af_FileID (resolved_files db tree))"
  shows "\<exists>files. GetFilesForFolderTree pool root = Some (Ok files)
     \<and> distinct files \<and> sorted (map (file_key ckey) files)
     \<and> (\<forall>x. x \<in> set files \<longleftrightarrow> live_file db root x)"
proof (intro exI conjI allI)
  show "GetFilesForFolderTree pool root = Some (Ok (sort_key (file_key ckey) (resolved_files db tree)))"
    by (rule GetFiles_paged [OF assms])
  show "distinct (sort_key (file_key ckey) (resolved_files db tree))"
    using assms(3) by (simp add: distinct_map)
qed (simp_all add: set_resolved_files [OF assms(2)])

definition wit_db :: database where
  "wit_db = \<lparr>tb_folders = [\<lparr>fr_folder_id = ''r'', fr_parent_folder_id = None, fr_user_id = ''u'',
       fr_folder_name = ''Docs'', fr_deleted = False\<rparr>],
     tb_files = [\<lparr>fl_file_id = ''f'', fl_folder_id = ''r'', fl_user_id = ''u'', fl_file_name = ''a'',
       fl_deleted = False\<rparr>],
     tb_versions = [\<lparr>fv_file_id = ''f'', fv_file_version = 1, fv_hosted_at = ''h'',
       fv_file_location = ''l'', fv_file_size = 3, fv_file_hash = ''x''\<rparr>]\<rparr>"

definition wit_tree :: "tree_row list" where
  "wit_tree = tree_base wit_db ''r''"

definition wit_pool :: pgxpool where
  "wit_pool = \<lparr>q_folderExists = (\<lambda>r. Ok (sql_folder_exists wit_db r)),
     q_folderTree = (\<lambda>r. Ok (map Ok (sort_key fd_ArchivePath (map to_folder wit_tree)), None)),
     q_filesPage = (\<lambda>r cid cpath lim. Ok (map Ok (sql_files_page id (resolved_files wit_db wit_tree) cid cpath lim), None)),
     q_servers = Ok ([], None)\<rparr>"

lemma wit_folder_tree: "folder_tree wit_db ''r'' = Some wit_tree"
  by (simp add: folder_tree_def wit_tree_def tree_iter.simps tree_base_def tree_step_def wit_db_def)

lemma wit_answers: "answers id wit_db wit_pool ''r''"
  by (simp add: answers_def wit_folder_tree wit_pool_def sql_folder_tree_def)

lemma wit_distinct: "distinct (map af_FileID (resolved_files wit_db wit_tree))"
  by code_simp

theorem GetFilesForFolderTree_complete_witness:
  "\<exists>files. GetFilesForFolderTree wit_pool ''r'' = Some (Ok files)
     \<and> distinct files \<and> sorted (map (file_key id) files)
     \<and> (\<forall>x. x \<in> set files \<longleftrightarrow> live_file wit_db ''r'' x)"
  by (rule GetFilesForFolderTree_complete [OF wit_answers wit_folder_tree wit_distinct])

text \<open>
  The folder tree the repository returns holds exactly the undeleted folders below the
  root, each with the path of folder names that leads to it, ordered by that path.
\<close>

lemma GetFolderTree_exact:
  assumes "answers ckey db pool root" "folder_tree db root = Some tree"
  shows "\<exists>folders. GetFolderTree pool root = Ok folders
     \<and> (\<forall>d. d \<in> set folders \<longleftrightarrow> (\<exists>f path. live_tree db root f path \<and> d = to_folder (f, path)))
     \<and> sorted (map (\<lambda>d. ckey (fd_ArchivePath d)) folders)"
proof (intro exI conjI allI)
  let ?ds = "sort_key (\<lambda>d. ckey (fd_ArchivePath d)) (map to_folder tree)"
  show "GetFolderTree pool root = Ok ?ds"
    using assms by (simp add: answers_def GetFolderTree_def sql_folder_tree_def)
  show "d \<in> set ?ds \<longleftrightarrow> (\<exists>f path. live_tree db root f path \<and> d = to_folder (f, path))" for d
    using folder_tree_iff [OF assms(2)] by auto
qed simp

text \<open>
  C33. The recursive query ends whenever the undeleted folders have no parent cycle, and never
  ends when the root lies on one: \<open>UNION ALL\<close> keeps finding the same folders again.
\<close>

theorem folder_tree_termination:
  "(\<forall>depth. acyclic_by depth db \<longrightarrow> (\<exists>rows. folder_tree db root = Some rows))
   \<and> (\<forall>C. (\<forall>p \<in> C. \<exists>c \<in> C. c \<in> set (tb_folders db)
             \<and> fr_parent_folder_id c = Some (fr_folder_id p) \<and> \<not> fr_deleted c)
        \<and> (\<exists>f \<in> C. f \<in> set (tb_folders db) \<and> fr_folder_id f = root \<and> \<not> fr_deleted f)
        \<longrightarrow> folder_tree db root = None)"
proof (intro conjI allI impI)
  show "\<exists>rows. folder_tree db root = Some rows" if "acyclic_by depth db" for depth
    using that by (rule folder_tree_terminates)
next
  fix C
  assume c: "(\<forall>p \<in> C. \<exists>c \<in> C. c \<in> set (tb_folders db)
             \<and> fr_parent_folder_id c = Some (fr_folder_id p) \<and> \<not> fr_deleted c)
        \<and> (\<exists>f \<in> C. f \<in> set (tb_folders db) \<and> fr_folder_id f = root \<and> \<not> fr_deleted f)"
  then have "\<exists>f \<in> C. \<exists>path. (f, path) \<in> set (tree_base db root)"
    by (auto simp: set_tree_base)
  with c show "folder_tree db root = None"
    unfolding folder_tree_def by (intro tree_iter_endless) auto
qed

theorem folder_tree_termination_witness:
  "\<exists>rows. folder_tree wit_db ''r'' = Some rows"
proof -
  have "acyclic_by (\<lambda>_. 0) wit_db"
    by (simp add: acyclic_by_def wit_db_def)
  then show ?thesis using folder_tree_termination [of wit_db "''r''"] by blast
qed

end
