(* ===== verification/Manifest.thy ===== *)
theory Manifest
  imports GoPath GoSort Repository
begin

text \<open>
  The pure part of \<open>internal/service/archive.go\<close>: request validation, the name of the
  archive's top-level directory, the rebasing of paths onto it, the search for empty folders,
  and \<open>buildManifest\<close>, which puts them together. The UUID package and the Unicode case
  table above ASCII are parameters.
\<close>

section \<open>Validation\<close>

datatype service_error =
    ErrValidation string
  | ErrFolderNotFound
  | ErrQueueFull
  | ErrNotAccepting
  | VerifyRootFolder repo_error
  | CreateJobRecord string

text \<open>\<open>uuid.Parse\<close> followed by \<open>String\<close>: the canonical text of a UUID, \<^term>\<open>None\<close> for an error.\<close>

type_synonym uuid_canon = "string \<Rightarrow> string option"

definition validateRootFolderID :: "uuid_canon \<Rightarrow> string \<Rightarrow> (service_error, string) result" where
  "validateRootFolderID uuid_parse raw =
     (if raw = [] then Err (ErrValidation ''root_folder_id is required'')
      else (case uuid_parse raw of
          None \<Rightarrow> Err (ErrValidation ''root_folder_id is not a valid UUID'')
        | Some canon \<Rightarrow> Ok canon))"

text \<open>The regular expression \<open>^[^/\\x00]{1,255}$\<close> (with the backslash in the class too) counts runes.\<close>

definition archiveNamePattern :: "string \<Rightarrow> bool" where
  "archiveNamePattern s \<longleftrightarrow>
     1 \<le> length (runes s) \<and> length (runes s) \<le> 255
     \<and> (\<forall>(r, w) \<in> set (runes s). r \<noteq> byte slash \<and> r \<noteq> byte backslash \<and> r \<noteq> byte NUL)"

definition validateArchiveName :: "string \<Rightarrow> (service_error, string) result" where
  "validateArchiveName raw =
     (let name = TrimSpace raw in
      if name = [] then Err (ErrValidation ''archive_name is required'')
      else if \<not> archiveNamePattern name then
        Err (ErrValidation ''archive_name must be 1-255 characters and contain no path separators'')
      else if name = ''.'' \<or> name = ''..'' then Err (ErrValidation ''archive_name is invalid'')
      else Ok name)"

definition validateExportType :: "ExportType \<Rightarrow> (service_error, ExportType) result" where
  "validateExportType raw =
     (if raw = '''' then Ok ExportTypeZip
      else if raw = ExportTypeZip \<or> raw = ExportTypeTar then Ok raw
      else Err (ErrValidation (''export_type must be '' @ [CHR 0x22] @ ''zip'' @ [CHR 0x22]
                  @ '' or '' @ [CHR 0x22] @ ''tar'' @ [CHR 0x22])))"

section \<open>Paths\<close>

text \<open>
  \<open>archiveRootDir\<close>: the loop over the two extensions stops at the first that matches. The
  slice \<open>name[:len(name)-len(ext)]\<close> would panic if the extension were longer than the name;
  \<open>archiveRootDir_slice\<close> below shows that it never is.
\<close>

fun strip_extension :: "(nat \<Rightarrow> nat) \<Rightarrow> string \<Rightarrow> string list \<Rightarrow> string" where
  "strip_extension ul name [] = name"
| "strip_extension ul name (ext # exts) =
     (if HasSuffix (ToLower ul name) ext then TrimSpace (take (length name - length ext) name)
      else strip_extension ul name exts)"

definition archiveRootDir :: "(nat \<Rightarrow> nat) \<Rightarrow> string \<Rightarrow> string" where
  "archiveRootDir ul archiveName =
     (let name = strip_extension ul (TrimSpace archiveName) [''.zip'', ''.tar''] in
      if name = ''.'' \<or> name = ''..'' then [] else name)"

definition rebaseArchivePath :: "string \<Rightarrow> string \<Rightarrow> string" where
  "rebaseArchivePath p root =
     (if root = [] then p
      else if slash \<in> set p then root @ dropWhile (\<lambda>c. c \<noteq> slash) p
      else root)"

section \<open>Empty folders\<close>

definition hasFileInSubtree :: "string list \<Rightarrow> string \<Rightarrow> bool" where
  "hasFileInSubtree paths prefix_path =
     (let target = prefix_path @ ''/''; idx = SearchStrings paths target
      in idx < length paths \<and> HasPrefix (paths ! idx) target)"

definition computeEmptyFolders :: "ArchiveFolder list \<Rightarrow> ArchiveFile list \<Rightarrow> ArchiveFolder list" where
  "computeEmptyFolders folders files =
     (if folders = [] then []
      else let paths = sort (map af_ArchivePath files)
           in filter (\<lambda>folder. \<not> hasFileInSubtree paths (fd_ArchivePath folder)) folders)"

section \<open>The manifest\<close>

datatype manifest_error = GetFolderTreeFailed repo_error | GetFilesFailed repo_error

fun sum_sizes :: "int \<Rightarrow> ArchiveFile list \<Rightarrow> int" where
  "sum_sizes totalBytes [] = totalBytes"
| "sum_sizes totalBytes (f # fs) = sum_sizes (wrap64 (totalBytes + af_FileSize f)) fs"

text \<open>
  The repository interface, as the service sees it. \<open>GetFilesForFolderTree\<close> is a paging loop:
  \<^term>\<open>None\<close> stands for a loop that does not end, and then \<open>buildManifest\<close> does not return.
\<close>

record ArchiveRepository =
  r_FolderExists :: "string \<Rightarrow> (repo_error, bool) result"
  r_GetFolderTree :: "string \<Rightarrow> (repo_error, ArchiveFolder list) result"
  r_GetFilesForFolderTree :: "string \<Rightarrow> (repo_error, ArchiveFile list) result option"

definition NewArchiveRepository :: "pgxpool \<Rightarrow> ArchiveRepository" where
  "NewArchiveRepository pool = \<lparr>r_FolderExists = FolderExists pool,
     r_GetFolderTree = GetFolderTree pool, r_GetFilesForFolderTree = GetFilesForFolderTree pool\<rparr>"

definition rebase_folder :: "string \<Rightarrow> ArchiveFolder \<Rightarrow> ArchiveFolder" where
  "rebase_folder root d = d\<lparr>fd_ArchivePath := rebaseArchivePath (fd_ArchivePath d) root\<rparr>"

definition rebase_file :: "string \<Rightarrow> ArchiveFile \<Rightarrow> ArchiveFile" where
  "rebase_file root f = f\<lparr>af_ArchivePath := rebaseArchivePath (af_ArchivePath f) root\<rparr>"

definition buildManifest ::
  "(nat \<Rightarrow> nat) \<Rightarrow> ArchiveRepository \<Rightarrow> Job \<Rightarrow> (manifest_error, ArchiveManifest) result option" where
  "buildManifest ul repo j =
     (case r_GetFolderTree repo (j_RootFolderID j) of
        Inl e \<Rightarrow> Some (Err (GetFolderTreeFailed e))
      | Inr folders \<Rightarrow>
          (case r_GetFilesForFolderTree repo (j_RootFolderID j) of
             None \<Rightarrow> None
           | Some (Inl e) \<Rightarrow> Some (Err (GetFilesFailed e))
           | Some (Inr files) \<Rightarrow>
               let root = archiveRootDir ul (j_ArchiveName j);
                   folders' = map (rebase_folder root) folders;
                   files' = map (rebase_file root) files
               in Some (Ok \<lparr>mf_RootFolderID = j_RootFolderID j, mf_ArchiveName = j_ArchiveName j,
                    mf_ExportType = j_ExportType j, mf_Files = files',
                    mf_EmptyFolders = computeEmptyFolders folders' files',
                    mf_TotalFiles = int (length files'), mf_TotalBytes = sum_sizes 0 files'\<rparr>)))"

section \<open>Properties of the helpers\<close>

lemma hasFileInSubtree_iff:
  "hasFileInSubtree (sort (map af_ArchivePath files)) d
     \<longleftrightarrow> (\<exists>f \<in> set files. prefix (d @ ''/'') (af_ArchivePath f))"
  using SearchStrings_prefix [of "sort (map af_ArchivePath files)" "d @ ''/''"]
  unfolding hasFileInSubtree_def Let_def HasPrefix_def by simp

lemma computeEmptyFolders_filter:
  "computeEmptyFolders folders files =
     filter (\<lambda>d. \<not> (\<exists>f \<in> set files. prefix (fd_ArchivePath d @ ''/'') (af_ArchivePath f))) folders"
  by (simp add: computeEmptyFolders_def Let_def hasFileInSubtree_iff)

lemma archiveNamePattern_bytes:
  assumes "archiveNamePattern s"
  shows "s \<noteq> []" "slash \<notin> set s" "backslash \<notin> set s" "NUL \<notin> set s"
proof -
  show "s \<noteq> []" using assms by (auto simp: archiveNamePattern_def)
  have a: "c \<notin> set s" if "byte c < 0x80" "byte c \<notin> fst ` set (runes s)" for c
    using that ascii_byte_iff_rune by blast
  have "byte slash \<notin> fst ` set (runes s)" "byte backslash \<notin> fst ` set (runes s)"
    "byte NUL \<notin> fst ` set (runes s)"
    using assms by (auto simp: archiveNamePattern_def)
  then show "slash \<notin> set s" "backslash \<notin> set s" "NUL \<notin> set s"
    by (intro a; simp add: byte_def)+
qed

lemma validateArchiveName_OkD:
  assumes "validateArchiveName raw = Ok name"
  shows "name = TrimSpace raw" "archiveNamePattern name" "proper_name name"
    "backslash \<notin> set name" "NUL \<notin> set name"
  using assms archiveNamePattern_bytes [of name]
  by (auto simp: validateArchiveName_def Let_def proper_name_def split: if_splits)

text \<open>
  Lowering a string maps each rune to one rune, and an ASCII byte only ever comes from a rune
  of its own: the lowered name holds at most as many ASCII bytes as the name has bytes.
\<close>

lemma ascii_in_encode: "length (filter (\<lambda>c. byte c < 0x80) (encode_rune r)) \<le> 1"
proof (cases "r < 0x80")
  case True
  then show ?thesis by simp
next
  case False
  then have "filter (\<lambda>c. byte c < 0x80) (encode_rune r) = []"
    using encode_rune_non_ascii [of r] by (force simp: filter_empty_conv)
  then show ?thesis by simp
qed

lemma ascii_in_Map:
  "length (filter (\<lambda>c. byte c < 0x80) (strings_Map f s)) \<le> length s"
proof -
  have "length (filter (\<lambda>c. byte c < 0x80) (concat (map (\<lambda>(r, _). encode_rune (f r)) rs))) \<le> length rs"
    for rs :: "(nat \<times> string) list"
    using ascii_in_encode by (induction rs) (auto intro: add_le_mono [of _ 1, simplified])
  then show ?thesis
    unfolding strings_Map_def using length_runes_le [of s] by (rule order_trans)
qed

lemma archiveRootDir_slice:
  assumes "HasSuffix (ToLower ul name) ext" "\<forall>c \<in> set ext. byte c < 0x80"
  shows "length ext \<le> length name"
proof -
  obtain l where "ToLower ul name = l @ ext"
    using assms(1) by (auto simp: HasSuffix_def suffix_def)
  then have "length ext \<le> length (filter (\<lambda>c. byte c < 0x80) (ToLower ul name))"
    using assms(2) by simp
  then show ?thesis
    unfolding ToLower_def using ascii_in_Map by (rule order_trans)
qed

lemma set_strip_extension: "set (strip_extension ul name exts) \<subseteq> set name"
proof (induction ul name exts rule: strip_extension.induct)
  case (2 ul name ext exts)
  then show ?case
    using set_TrimSpace [of "take (length name - length ext) name"]
    by (auto dest: in_set_takeD)
qed simp

lemma set_archiveRootDir: "set (archiveRootDir ul n) \<subseteq> set n"
proof -
  have "set (strip_extension ul (TrimSpace n) [''.zip'', ''.tar'']) \<subseteq> set n"
    using set_strip_extension set_TrimSpace by (rule subset_trans)
  then show ?thesis
    by (simp add: archiveRootDir_def Let_def del: strip_extension.simps)
qed

lemma archiveRootDir_proper:
  assumes "slash \<notin> set n"
  shows "archiveRootDir ul n = [] \<or> proper_name (archiveRootDir ul n)"
  using set_archiveRootDir [of ul n] assms
  by (auto simp: proper_name_def archiveRootDir_def Let_def simp del: strip_extension.simps
      split: if_splits)

lemma rebase_split:
  assumes "root \<noteq> []" "slash \<notin> set root"
  shows "split_on slash (rebaseArchivePath p root) = root # tl (split_on slash p)"
proof (cases "slash \<in> set p")
  case True
  then have p: "p = take_elem p @ drop_elem p" "at_end (drop_elem p)" "slash \<notin> set (take_elem p)"
    by (simp_all add: take_drop_elem at_end_drop_elem slash_take_elem)
  have "split_on slash (root @ drop_elem p) = root # tl (split_on slash (drop_elem p))"
    using assms(2) p(2) by (rule split_on_elem)
  moreover have "split_on slash p = take_elem p # tl (split_on slash (drop_elem p))"
    using split_on_elem [OF p(3,2)] p(1) by simp
  ultimately show ?thesis
    using True assms by (simp add: rebaseArchivePath_def drop_elem_def)
next
  case False
  then show ?thesis using assms by (simp add: rebaseArchivePath_def split_on_no_sep)
qed

lemma sum_sizes_wrap: "is_int64 a \<Longrightarrow> sum_sizes a fs = wrap64 (a + (\<Sum>f \<leftarrow> fs. af_FileSize f))"
proof (induction fs arbitrary: a)
  case Nil
  then show ?case by simp
next
  case (Cons f fs)
  have "wrap64 (wrap64 x + y) = wrap64 (x + y)" for x y
    by (simp add: wrap64_def mod_simps algebra_simps)
  with Cons show ?case by (simp add: add.assoc)
qed

lemma buildManifest_OkE:
  assumes "buildManifest ul repo j = Some (Ok m)"
  obtains folders files where
    "r_GetFolderTree repo (j_RootFolderID j) = Ok folders"
    "r_GetFilesForFolderTree repo (j_RootFolderID j) = Some (Ok files)"
    "mf_Files m = map (rebase_file (archiveRootDir ul (j_ArchiveName j))) files"
    "mf_EmptyFolders m = computeEmptyFolders
        (map (rebase_folder (archiveRootDir ul (j_ArchiveName j))) folders) (mf_Files m)"
    "mf_TotalFiles m = int (length files)" "mf_TotalBytes m = sum_sizes 0 (mf_Files m)"
    "mf_ExportType m = j_ExportType j"
  using assms
  by (auto simp: buildManifest_def Let_def split: sum.splits option.splits)

lemma sum_rebased: "(\<Sum>f \<leftarrow> map (rebase_file root) fs. af_FileSize f) = (\<Sum>f \<leftarrow> fs. af_FileSize f)"
  by (induction fs) (auto simp: rebase_file_def)

section \<open>Claims\<close>

text \<open>
  C30. \<open>computeEmptyFolders\<close>, with its sort and binary search, returns exactly the folders, in
  their order, below whose path there is no file: the folders that no file path would make an
  extractor create.
\<close>

theorem computeEmptyFolders_exact:
  "computeEmptyFolders folders files =
     filter (\<lambda>d. \<forall>f \<in> set files. \<not> HasPrefix (af_ArchivePath f) (fd_ArchivePath d @ ''/'')) folders"
  by (simp add: computeEmptyFolders_filter HasPrefix_def)

definition wit_folder :: "string \<Rightarrow> ArchiveFolder" where
  "wit_folder p = \<lparr>fd_FolderID = p, fd_ParentFolderID = None, fd_FolderName = p, fd_ArchivePath = p\<rparr>"

definition wit_file :: "string \<Rightarrow> int \<Rightarrow> ArchiveFile" where
  "wit_file p n = \<lparr>af_FileID = p, af_FileName = p, af_ArchivePath = p, af_FileVersion = 1,
     af_HostedAt = ''h'', af_FileLocation = p, af_FileSize = n, af_FileHash = ''x''\<rparr>"

theorem computeEmptyFolders_exact_witness:
  "computeEmptyFolders [wit_folder ''a'', wit_folder ''a/b''] [wit_file ''a/b.txt'' 1]
     = [wit_folder ''a/b'']"
  by (simp add: computeEmptyFolders_exact HasPrefix_def wit_folder_def wit_file_def)

text \<open>
  An accepted archive name is the trimmed input, has 1 to 255 runes, is neither \<open>.\<close> nor
  \<open>..\<close>, and holds no slash, no backslash and no NUL byte, in whatever encoding.
\<close>

lemma validateArchiveName_safe:
  assumes "validateArchiveName raw = Ok name"
  shows "name = TrimSpace raw \<and> 1 \<le> length (runes name) \<and> length (runes name) \<le> 255
    \<and> name \<noteq> ''.'' \<and> name \<noteq> ''..'' \<and> slash \<notin> set name \<and> backslash \<notin> set name \<and> NUL \<notin> set name"
  using validateArchiveName_OkD [OF assms]
  by (auto simp: archiveNamePattern_def proper_name_def)

text \<open>
  The slice in \<open>archiveRootDir\<close> never goes out of range: whatever the Unicode case table
  does, a name whose lower-case form ends in \<open>.zip\<close> or \<open>.tar\<close> has at least four bytes.
\<close>

lemma archiveRootDir_no_panic:
  assumes "HasSuffix (ToLower ul name) ext" "ext \<in> {''.zip'', ''.tar''}"
  shows "length ext \<le> length name"
  using assms(1)
proof (rule archiveRootDir_slice)
  show "\<forall>c \<in> set ext. byte c < 0x80" using assms(2) by (auto simp: byte_def)
qed


definition wit_job :: Job where
  "wit_job = \<lparr>j_ID = ''job1'', j_RootFolderID = ''r'', j_ArchiveName = ''Backup.zip'', j_ExportType = ''zip'',
     j_Status = JobStatusQueued, j_TotalFiles = 0, j_ProcessedFiles = 0, j_TotalBytes = 0,
     j_ProcessedBytes = 0, j_ArchivePath = [], j_ErrorMessage = [], j_DownloadToken = [],
     j_CreatedAt = 1, j_UpdatedAt = 1, j_StartedAt = 0, j_CompletedAt = None, j_ExpiresAt = 0\<rparr>"

definition wit_repo :: ArchiveRepository where
  "wit_repo = \<lparr>r_FolderExists = (\<lambda>_. Ok True), r_GetFolderTree = (\<lambda>_. Ok [wit_folder ''Docs'', wit_folder ''Docs/e'']),
     r_GetFilesForFolderTree = (\<lambda>_. Some (Ok [wit_file ''Docs/a.txt'' 3]))\<rparr>"

definition wit_manifest :: ArchiveManifest where
  "wit_manifest = \<lparr>mf_RootFolderID = ''r'', mf_ArchiveName = ''Backup.zip'', mf_ExportType = ''zip'',
     mf_Files = [(wit_file ''Docs/a.txt'' 3)\<lparr>af_ArchivePath := ''Backup/a.txt''\<rparr>],
     mf_EmptyFolders = [(wit_folder ''Docs/e'')\<lparr>fd_ArchivePath := ''Backup/e''\<rparr>],
     mf_TotalFiles = 1, mf_TotalBytes = 3\<rparr>"

lemma wit_root: "archiveRootDir ul ''Backup.zip'' = ''Backup''"
proof -
  have "TrimSpace ''Backup.zip'' = ''Backup.zip''" "TrimSpace ''Backup'' = ''Backup''"
    by (simp_all add: TrimSpace_def IsSpace_def byte_def)
  moreover have "HasSuffix (ToLower ul ''Backup.zip'') ''.zip''"
    by (simp add: HasSuffix_def ToLower_def strings_Map_def unicode_ToLower_def byte_def suffix_def
        char_of_eq_iff take_bit_eq_mod)
  ultimately show ?thesis by (simp add: archiveRootDir_def Let_def)
qed

lemma wit_buildManifest: "buildManifest ul wit_repo wit_job = Some (Ok wit_manifest)"
  by (simp add: buildManifest_def wit_repo_def wit_job_def wit_root wit_manifest_def Let_def
      rebase_folder_def rebase_file_def rebaseArchivePath_def computeEmptyFolders_filter
      wit_folder_def wit_file_def wrap64_def)


end
