(* ===== verification/JobStore.thy ===== *)
theory JobStore
  imports DomainModel "HOL-Library.AList"
begin

text \<open>
  \<open>internal/job\<close>: the \<open>Store\<close> interface as a locale, with the lemmas its clients rely on, and
  \<open>MemoryStore\<close> as its interpretation. A Go map is an association list with distinct keys;
  its order is the order in which one \<open>range\<close> loop happens to visit it. Each operation holds
  the store's mutex from start to end, so it is one atomic step; an operation that fails
  leaves the store as it was and returns only the error.
\<close>

section \<open>The in-memory store\<close>

datatype store_error = ErrNotFound | JobAlreadyExists string

type_synonym MemoryStore = "(string \<times> Job) list"

definition NewMemoryStore :: MemoryStore where
  "NewMemoryStore = []"

definition store_Create :: "MemoryStore \<Rightarrow> Job \<Rightarrow> (store_error, MemoryStore) result" where
  "store_Create jobs j =
     (case map_of jobs (j_ID j) of
        Some _ \<Rightarrow> Err (JobAlreadyExists (j_ID j))
      | None \<Rightarrow> Ok (AList.update (j_ID j) (the (Clone (Some j))) jobs))"

definition store_Get :: "MemoryStore \<Rightarrow> string \<Rightarrow> (store_error, Job) result" where
  "store_Get jobs jobID =
     (case map_of jobs jobID of None \<Rightarrow> Err ErrNotFound | Some j \<Rightarrow> Ok (the (Clone (Some j))))"

definition store_Update :: "MemoryStore \<Rightarrow> Job \<Rightarrow> (store_error, MemoryStore) result" where
  "store_Update jobs j =
     (case map_of jobs (j_ID j) of
        None \<Rightarrow> Err ErrNotFound
      | Some _ \<Rightarrow> Ok (AList.update (j_ID j) (the (Clone (Some j))) jobs))"

definition store_Delete :: "MemoryStore \<Rightarrow> string \<Rightarrow> MemoryStore" where
  "store_Delete jobs jobID = AList.delete jobID jobs"

definition store_List :: "MemoryStore \<Rightarrow> Job list" where
  "store_List jobs = map (\<lambda>(k, j). the (Clone (Some j))) jobs"

definition store_wf :: "MemoryStore \<Rightarrow> bool" where
  "store_wf jobs \<longleftrightarrow> distinct (map fst jobs) \<and> (\<forall>(k, j) \<in> set jobs. j_ID j = k)"

text \<open>An update whose failure the caller only logs.\<close>

definition persist_with :: "('s \<Rightarrow> Job \<Rightarrow> (store_error, 's) result) \<Rightarrow> Job \<Rightarrow> 's \<Rightarrow> 's" where
  "persist_with update j s = (case update s j of Inl _ \<Rightarrow> s | Inr s' \<Rightarrow> s')"

section \<open>The interface\<close>

text \<open>
  What every caller of \<open>job.Store\<close> relies on. \<open>wf\<close> is the provider's invariant; a stored job
  is found under its own id.
\<close>

locale job_store =
  fixes create :: "'s \<Rightarrow> Job \<Rightarrow> (store_error, 's) result"
    and get :: "'s \<Rightarrow> string \<Rightarrow> (store_error, Job) result"
    and update :: "'s \<Rightarrow> Job \<Rightarrow> (store_error, 's) result"
    and remove :: "'s \<Rightarrow> string \<Rightarrow> 's"
    and jobs_of :: "'s \<Rightarrow> Job list"
    and wf :: "'s \<Rightarrow> bool"
  assumes get_cases: "get s i = Err ErrNotFound \<or> (\<exists>j. get s i = Ok j)"
    and get_id: "wf s \<Longrightarrow> get s i = Ok j \<Longrightarrow> j_ID j = i"
    and create_iff: "(\<exists>s'. create s j = Ok s') \<longleftrightarrow> get s (j_ID j) = Err ErrNotFound"
    and get_create: "create s j = Ok s' \<Longrightarrow> get s' i = (if i = j_ID j then Ok j else get s i)"
    and update_iff: "(\<exists>s'. update s j = Ok s') \<longleftrightarrow> (\<exists>j'. get s (j_ID j) = Ok j')"
    and update_err: "get s (j_ID j) = Err ErrNotFound \<Longrightarrow> update s j = Err ErrNotFound"
    and get_update: "update s j = Ok s' \<Longrightarrow> get s' i = (if i = j_ID j then Ok j else get s i)"
    and get_remove: "wf s \<Longrightarrow> get (remove s i) k = (if k = i then Err ErrNotFound else get s k)"
    and jobs_of_iff: "wf s \<Longrightarrow> j \<in> set (jobs_of s) \<longleftrightarrow> get s (j_ID j) = Ok j"
    and distinct_jobs: "wf s \<Longrightarrow> distinct (map j_ID (jobs_of s))"
    and wf_create: "wf s \<Longrightarrow> create s j = Ok s' \<Longrightarrow> wf s'"
    and wf_update: "wf s \<Longrightarrow> update s j = Ok s' \<Longrightarrow> wf s'"
    and wf_remove: "wf s \<Longrightarrow> wf (remove s i)"
begin

lemma wf_persist: "wf s \<Longrightarrow> wf (persist_with update j s)"
  using wf_update by (auto simp: persist_with_def split: sum.split)

lemma get_persist:
  "get (persist_with update j s) i
     = (if i = j_ID j \<and> (\<exists>j'. get s i = Ok j') then Ok j else get s i)"
proof (cases "update s j")
  case (Inl e)
  then have "\<not> (\<exists>j'. get s (j_ID j) = Ok j')" using update_iff by force
  then show ?thesis using Inl by (auto simp: persist_with_def)
next
  case (Inr s')
  then show ?thesis using get_update [OF Inr] update_iff by (auto simp: persist_with_def)
qed

lemma get_persist_list:
  "\<forall>j \<in> set js. j_ID j = i \<Longrightarrow> get s i = Ok j0 \<Longrightarrow>
     get (fold (persist_with update) js s) i = Ok (last (j0 # js))"
  by (induction js arbitrary: s j0) (auto simp: get_persist)

lemma get_persist_other: "\<forall>j \<in> set js. j_ID j \<noteq> i \<Longrightarrow> get (fold (persist_with update) js s) i = get s i"
  by (induction js arbitrary: s) (auto simp: get_persist)

lemma persist_absent:
  "get s i = Err ErrNotFound \<Longrightarrow> get (fold (persist_with update) js s) i = Err ErrNotFound"
  by (induction js arbitrary: s) (auto simp: get_persist)

text \<open>Updates never bring a removed job back.\<close>

lemma removed_stays_removed:
  "wf s \<Longrightarrow> get (fold (persist_with update) js (remove s i)) i = Err ErrNotFound"
  by (simp add: persist_absent get_remove)

text \<open>A create that is rolled back leaves every lookup as it was.\<close>

lemma create_rollback:
  assumes "wf s" "create s j = Ok s'"
  shows "get (remove s' (j_ID j)) i = get s i"
  using assms wf_create [OF assms] create_iff [of s j] get_create [OF assms(2)]
  by (auto simp: get_remove)

end

section \<open>The memory store provides it\<close>

lemma map_of_wf: "store_wf jobs \<Longrightarrow> map_of jobs i = Some j \<Longrightarrow> j_ID j = i"
  by (auto simp: store_wf_def dest!: map_of_SomeD)

lemma set_AList_update: "x \<in> set (AList.update k v al) \<Longrightarrow> x = (k, v) \<or> x \<in> set al"
  by (induction al) (auto split: if_splits)

lemma store_wf_update: "store_wf jobs \<Longrightarrow> store_wf (AList.update (j_ID j) j jobs)"
  using set_AList_update by (fastforce simp: store_wf_def distinct_update)

lemma store_wf_delete: "store_wf jobs \<Longrightarrow> store_wf (AList.delete i jobs)"
  using distinct_delete [of jobs i] by (auto simp: store_wf_def AList.delete_eq)

lemmas store_defs = store_Create_def store_Get_def store_Update_def store_Delete_def store_List_def

interpretation mem: job_store store_Create store_Get store_Update store_Delete store_List store_wf
proof (unfold_locales, goal_cases)
  case (9 s j)
  then have d: "distinct (map fst s)" and k: "\<forall>(k, j) \<in> set s. j_ID j = k"
    by (auto simp: store_wf_def)
  have "j \<in> set (store_List s) \<longleftrightarrow> (j_ID j, j) \<in> set s"
    using k by (force simp: store_List_def)
  also have "\<dots> \<longleftrightarrow> map_of s (j_ID j) = Some j"
    using d by (simp add: map_of_eq_Some_iff)
  finally show ?case by (auto simp: store_Get_def split: option.splits)
next
  case (10 s)
  then have "map j_ID (store_List s) = map fst s"
    by (auto simp: store_wf_def store_List_def)
  then show ?case using 10 by (simp add: store_wf_def)
qed (auto simp: store_defs update_conv delete_conv map_of_wf store_wf_update store_wf_delete
       split: option.splits if_splits)

end
