(* ===== verification/GoEncoding.thy ===== *)
theory GoEncoding
  imports GoStrings
begin

text \<open>
  Go's \<open>base64.RawURLEncoding\<close>, which writes download tokens, and the percent encodings of
  \<open>net/url\<close>, which write the \<open>Content-Disposition\<close> header and the query of a storage request.
\<close>

section \<open>Unpadded base64url\<close>

definition b64_alphabet :: string where
  "b64_alphabet = ''ABCDEFGHIJKLMNOPQRSTUVWXYZabcdefghijklmnopqrstuvwxyz0123456789-_''"

definition b64_char :: "nat \<Rightarrow> char" where
  "b64_char n = b64_alphabet ! n"

fun b64_encode :: "bytes \<Rightarrow> string" where
  "b64_encode [] = []"
| "b64_encode [a] = (let v = byte a * 16 in [b64_char (v div 64), b64_char (v mod 64)])"
| "b64_encode [a, b] = (let v = byte a * 1024 + byte b * 4 in
     [b64_char (v div 4096), b64_char (v div 64 mod 64), b64_char (v mod 64)])"
| "b64_encode (a # b # c # r) = (let v = byte a * 65536 + byte b * 256 + byte c in
     b64_char (v div 262144) # b64_char (v div 4096 mod 64) # b64_char (v div 64 mod 64)
     # b64_char (v mod 64) # b64_encode r)"

lemma distinct_b64: "distinct b64_alphabet" and length_b64: "length b64_alphabet = 64"
  by (simp_all add: b64_alphabet_def)

lemma b64_char_inject: "m < 64 \<Longrightarrow> n < 64 \<Longrightarrow> b64_char m = b64_char n \<longleftrightarrow> m = n"
  unfolding b64_char_def using distinct_b64 length_b64 by (simp add: nth_eq_iff_index_eq)

lemma b64_char_in: "n < 64 \<Longrightarrow> b64_char n \<in> set b64_alphabet"
  by (simp add: b64_char_def length_b64)

lemma length_b64_encode: "length (b64_encode xs) = (length xs * 8 + 5) div 6"
  by (induction xs rule: b64_encode.induct) (auto simp: Let_def)

lemma set_b64_encode: "set (b64_encode xs) \<subseteq> set b64_alphabet"
proof (induction xs rule: b64_encode.induct)
  case (2 a)
  have "byte a * 16 div 64 < 64" using byte_lt_256 [of a] by linarith
  then show ?case by (simp add: Let_def b64_char_in)
next
  case (3 a b)
  have "(byte a * 1024 + byte b * 4) div 4096 < 64"
    using byte_lt_256 [of a] byte_lt_256 [of b] by linarith
  then show ?case by (simp add: Let_def b64_char_in)
next
  case (4 a b c r)
  have "(byte a * 65536 + byte b * 256 + byte c) div 262144 < 64"
    using byte_lt_256 [of a] byte_lt_256 [of b] byte_lt_256 [of c] by linarith
  with 4 show ?case by (simp add: Let_def b64_char_in)
qed simp

text \<open>Four base64 digits determine a 24-bit value, and the value its three bytes.\<close>

lemma div_mod_inject:
  fixes v w :: nat
  assumes "v div n = w div n" "v mod n = w mod n"
  shows "v = w"
  using assms by (metis div_mult_mod_eq)

lemma digits3_inject:
  fixes v w :: nat
  assumes "v div 4096 = w div 4096" "v div 64 mod 64 = w div 64 mod 64" "v mod 64 = w mod 64"
  shows "v = w"
proof -
  have "v div 64 div 64 = w div 64 div 64"
    using assms(1) by (simp add: div_mult2_eq [symmetric])
  then have "v div 64 = w div 64" using assms(2) by (rule div_mod_inject)
  then show ?thesis using assms(3) by (rule div_mod_inject)
qed

lemma digits4_inject:
  fixes v w :: nat
  assumes "v div 262144 = w div 262144" "v div 4096 mod 64 = w div 4096 mod 64"
    "v div 64 mod 64 = w div 64 mod 64" "v mod 64 = w mod 64"
  shows "v = w"
proof -
  have "v div 4096 div 64 = w div 4096 div 64"
    using assms(1) by (simp add: div_mult2_eq [symmetric])
  then have "v div 4096 = w div 4096" using assms(2) by (rule div_mod_inject)
  then show ?thesis using assms(3,4) by (rule digits3_inject)
qed

lemma byte_digit_inject:
  assumes "m * 256 + byte c = n * 256 + byte c'"
  shows "m = n \<and> c = c'"
proof -
  from assms have "(m * 256 + byte c) div 256 = (n * 256 + byte c') div 256"
    "(m * 256 + byte c) mod 256 = (n * 256 + byte c') mod 256" by simp_all
  then show ?thesis by simp
qed

lemma bytes3_inject:
  assumes "byte a * 65536 + byte b * 256 + byte c = byte a' * 65536 + byte b' * 256 + byte c'"
  shows "a = a' \<and> b = b' \<and> c = c'"
proof -
  have "(byte a * 256 + byte b) * 256 + byte c = (byte a' * 256 + byte b') * 256 + byte c'"
    using assms by simp
  then have "byte a * 256 + byte b = byte a' * 256 + byte b'" "c = c'"
    using byte_digit_inject by blast+
  then show ?thesis using byte_digit_inject [of "byte a" b "byte a'" b'] by simp
qed

lemma b64_encode_inject:
  assumes "length xs = length ys" "b64_encode xs = b64_encode ys"
  shows "xs = ys"
  using assms
proof (induction xs arbitrary: ys rule: b64_encode.induct)
  case 1
  then show ?case by simp
next
  case (2 a)
  then obtain a' where y: "ys = [a']" by (cases ys) auto
  have l: "byte a * 16 div 64 < 64" "byte a' * 16 div 64 < 64"
    using byte_lt_256 [of a] byte_lt_256 [of a'] by linarith+
  from 2 y l have "byte a * 16 div 64 = byte a' * 16 div 64" "byte a * 16 mod 64 = byte a' * 16 mod 64"
    by (auto simp: Let_def b64_char_inject)
  then have "byte a * 16 = byte a' * 16" by (metis div_mult_mod_eq)
  then show ?case using y by simp
next
  case (3 a b)
  then obtain a' b' where y: "ys = [a', b']" by (cases ys; cases "tl ys") auto
  let ?v = "byte a * 1024 + byte b * 4" and ?w = "byte a' * 1024 + byte b' * 4"
  have l: "?v div 4096 < 64" "?w div 4096 < 64"
    using byte_lt_256 [of a] byte_lt_256 [of a'] byte_lt_256 [of b] byte_lt_256 [of b'] by linarith+
  from 3 y l have e: "?v div 4096 = ?w div 4096" "?v div 64 mod 64 = ?w div 64 mod 64" "?v mod 64 = ?w mod 64"
    by (auto simp: Let_def b64_char_inject)
  have "byte a * 256 + byte b = byte a' * 256 + byte b'"
    using digits3_inject [OF e] by simp
  then show ?case using y byte_digit_inject [of "byte a" b "byte a'" b'] by simp
next
  case (4 a b c r)
  then obtain a' b' c' r' where y: "ys = a' # b' # c' # r'"
    by (cases ys; cases "tl ys"; cases "tl (tl ys)") auto
  let ?v = "byte a * 65536 + byte b * 256 + byte c" and ?w = "byte a' * 65536 + byte b' * 256 + byte c'"
  have l: "?v div 262144 < 64" "?w div 262144 < 64"
    using byte_lt_256 [of a] byte_lt_256 [of b] byte_lt_256 [of c]
      byte_lt_256 [of a'] byte_lt_256 [of b'] byte_lt_256 [of c'] by linarith+
  from 4(3) y l have e: "?v div 262144 = ?w div 262144" "?v div 4096 mod 64 = ?w div 4096 mod 64"
    "?v div 64 mod 64 = ?w div 64 mod 64" "?v mod 64 = ?w mod 64"
    by (simp_all add: Let_def b64_char_inject)
  from 4(3) y have "b64_encode r = b64_encode r'" by (simp add: Let_def)
  with 4(1,2) y have "r = r'" by simp
  with y bytes3_inject [OF digits4_inject [OF e]] show ?case by simp
qed

section \<open>Percent encoding\<close>

definition hex_digit :: "nat \<Rightarrow> char" where
  "hex_digit n = ''0123456789ABCDEF'' ! n"

definition unreserved :: "char \<Rightarrow> bool" where
  "unreserved c \<longleftrightarrow>
     0x41 \<le> byte c \<and> byte c \<le> 0x5A \<or> 0x61 \<le> byte c \<and> byte c \<le> 0x7A
     \<or> 0x30 \<le> byte c \<and> byte c \<le> 0x39 \<or> c \<in> set ''-_.~''"

definition percent :: "char \<Rightarrow> string" where
  "percent c = [CHR ''%'', hex_digit (byte c div 16), hex_digit (byte c mod 16)]"

definition PathEscape :: "string \<Rightarrow> string" where
  "PathEscape s = concat (map (\<lambda>c. if unreserved c \<or> c \<in> set ''$&+:=@'' then [c] else percent c) s)"

definition QueryEscape :: "string \<Rightarrow> string" where
  "QueryEscape s =
     concat (map (\<lambda>c. if unreserved c then [c] else if c = CHR '' '' then ''+'' else percent c) s)"

text \<open>The receiving side: \<open>url.QueryUnescape\<close>.\<close>

definition unhex :: "char \<Rightarrow> nat option" where
  "unhex c =
     (if 0x30 \<le> byte c \<and> byte c \<le> 0x39 then Some (byte c - 0x30)
      else if 0x41 \<le> byte c \<and> byte c \<le> 0x46 then Some (byte c - 0x41 + 10)
      else if 0x61 \<le> byte c \<and> byte c \<le> 0x66 then Some (byte c - 0x61 + 10)
      else None)"

fun QueryUnescape :: "string \<Rightarrow> string option" where
  "QueryUnescape [] = Some []"
| "QueryUnescape (c # r) =
     (if c = CHR ''%'' then
        (case r of
           a # b # r' \<Rightarrow>
             (case (unhex a, unhex b) of
                (Some x, Some y) \<Rightarrow> map_option (Cons (char_of (x * 16 + y))) (QueryUnescape r')
              | _ \<Rightarrow> None)
         | _ \<Rightarrow> None)
      else map_option (Cons (if c = CHR ''+'' then CHR '' '' else c)) (QueryUnescape r))"

lemma unhex_hex_digit: "n < 16 \<Longrightarrow> unhex (hex_digit n) = Some n"
proof -
  have "\<forall>n < 16. unhex (hex_digit n) = Some n"
    by (simp add: hex_digit_def unhex_def byte_def numeral_eq_Suc All_less_Suc2)
  then show "n < 16 \<Longrightarrow> ?thesis" by blast
qed

lemma unescape_percent: "QueryUnescape (percent c @ r) = map_option (Cons c) (QueryUnescape r)"
proof -
  have "byte c div 16 < 16" using byte_lt_256 [of c] by linarith
  then show ?thesis by (simp add: percent_def unhex_hex_digit)
qed

lemma QueryUnescape_QueryEscape: "QueryUnescape (QueryEscape s) = Some s"
proof (induction s)
  case Nil
  then show ?case by (simp add: QueryEscape_def)
next
  case (Cons c s)
  have "QueryUnescape (QueryEscape (c # s)) = map_option (Cons c) (QueryUnescape (QueryEscape s))"
  proof (cases "unreserved c")
    case True
    then have "c \<noteq> CHR ''%''" "c \<noteq> CHR ''+''" by (auto simp: unreserved_def byte_def)
    then show ?thesis using True by (simp add: QueryEscape_def)
  next
    case False
    then show ?thesis by (simp add: QueryEscape_def unescape_percent)
  qed
  then show ?case using Cons by simp
qed

text \<open>Percent decoding, \<open>url.PathUnescape\<close>.\<close>

fun PathUnescape :: "string \<Rightarrow> string option" where
  "PathUnescape [] = Some []"
| "PathUnescape (c # r) =
     (if c = CHR ''%'' then
        (case r of
           a # b # r' \<Rightarrow>
             (case (unhex a, unhex b) of
                (Some x, Some y) \<Rightarrow> map_option (Cons (char_of (x * 16 + y))) (PathUnescape r')
              | _ \<Rightarrow> None)
         | _ \<Rightarrow> None)
      else map_option (Cons c) (PathUnescape r))"

lemma PathUnescape_percent: "PathUnescape (percent c @ r) = map_option (Cons c) (PathUnescape r)"
proof -
  have "byte c div 16 < 16" using byte_lt_256 [of c] by linarith
  then show ?thesis by (simp add: percent_def unhex_hex_digit)
qed

lemma PathUnescape_PathEscape: "PathUnescape (PathEscape s) = Some s"
proof (induction s)
  case Nil
  then show ?case by (simp add: PathEscape_def)
next
  case (Cons c s)
  have "PathUnescape (PathEscape (c # s)) = map_option (Cons c) (PathUnescape (PathEscape s))"
  proof (cases "unreserved c \<or> c \<in> set ''$&+:=@''")
    case True
    then have "c \<noteq> CHR ''%''" by (auto simp: unreserved_def byte_def)
    then show ?thesis using True by (simp add: PathEscape_def)
  next
    case False
    then show ?thesis by (simp add: PathEscape_def PathUnescape_percent)
  qed
  then show ?case using Cons by simp
qed

text \<open>The characters that percent encoding produces.\<close>

definition path_char :: "char \<Rightarrow> bool" where
  "path_char c \<longleftrightarrow> unreserved c \<or> c \<in> set ''$&+:=@%''"

lemma hex_digit_unreserved: "n < 16 \<Longrightarrow> unreserved (hex_digit n)"
proof -
  have "\<forall>n < 16. unreserved (hex_digit n)"
    by (simp add: hex_digit_def unreserved_def byte_def numeral_eq_Suc All_less_Suc2)
  then show "n < 16 \<Longrightarrow> ?thesis" by blast
qed

lemma percent_chars: "c \<in> set (percent d) \<Longrightarrow> path_char c"
proof -
  have "byte d div 16 < 16" "byte d mod 16 < 16" using byte_lt_256 [of d] by linarith+
  then have "unreserved (hex_digit (byte d div 16))" "unreserved (hex_digit (byte d mod 16))"
    by (simp_all only: hex_digit_unreserved)
  then show "c \<in> set (percent d) \<Longrightarrow> ?thesis" by (auto simp: percent_def path_char_def)
qed

lemma PathEscape_chars: "c \<in> set (PathEscape s) \<Longrightarrow> path_char c"
  using percent_chars by (auto simp: PathEscape_def path_char_def split: if_splits)

end
