(* ===== verification/Tokens.thy ===== *)
theory Tokens
  imports GoEncoding
begin

text \<open>
  \<open>internal/token\<close>: the download token service. The random bytes and the clock reading that an
  operation uses are its arguments. Each operation holds the mutex while it touches the map,
  so it is one atomic step.
\<close>

section \<open>The in-memory service\<close>

datatype token_error = ErrInvalidToken | ErrTokenExpired | GenerateToken string

record token_entry =
  te_jobID :: string
  te_expiresAt :: time

type_synonym InMemoryService = "string \<rightharpoonup> token_entry"

definition NewInMemoryService :: InMemoryService where
  "NewInMemoryService = Map.empty"

definition tokenBytes :: nat where
  "tokenBytes = 32"

definition token_Issue ::
  "InMemoryService \<Rightarrow> (string, bytes) result \<Rightarrow> time \<Rightarrow> string \<Rightarrow> duration
     \<Rightarrow> (token_error, string \<times> InMemoryService) result" where
  "token_Issue tokens rnd now jobID ttl =
     (case rnd of
        Inl e \<Rightarrow> Err (GenerateToken e)
      | Inr raw \<Rightarrow>
          let tok = b64_encode raw
          in Ok (tok, tokens(tok \<mapsto> \<lparr>te_jobID = jobID, te_expiresAt = now + ttl\<rparr>)))"

definition token_Validate ::
  "InMemoryService \<Rightarrow> time \<Rightarrow> string \<Rightarrow> string \<Rightarrow> (token_error, unit) result" where
  "token_Validate tokens now jobID tok =
     (case tokens tok of
        None \<Rightarrow> Err ErrInvalidToken
      | Some e \<Rightarrow>
          if te_jobID e \<noteq> jobID then Err ErrInvalidToken
          else if te_expiresAt e < now then Err ErrTokenExpired
          else Ok ())"

definition token_Revoke :: "InMemoryService \<Rightarrow> string \<Rightarrow> InMemoryService" where
  "token_Revoke tokens jobID =
     (\<lambda>tok. case tokens tok of None \<Rightarrow> None
        | Some e \<Rightarrow> if te_jobID e = jobID then None else Some e)"

section \<open>The interface\<close>

locale token_service =
  fixes issue :: "'s \<Rightarrow> (string, bytes) result \<Rightarrow> time \<Rightarrow> string \<Rightarrow> duration \<Rightarrow> (token_error, string \<times> 's) result"
    and validate :: "'s \<Rightarrow> time \<Rightarrow> string \<Rightarrow> string \<Rightarrow> (token_error, unit) result"
    and revoke :: "'s \<Rightarrow> string \<Rightarrow> 's"
  assumes issue_new: "issue s rnd now i ttl = Ok (tok, s') \<Longrightarrow>
      validate s' t k tok = (if k \<noteq> i then Err ErrInvalidToken
        else if now + ttl < t then Err ErrTokenExpired else Ok ())"
    and issue_old: "issue s rnd now i ttl = Ok (tok, s') \<Longrightarrow> tok' \<noteq> tok
      \<Longrightarrow> validate s' t k tok' = validate s t k tok'"
    and revoke_same: "validate (revoke s i) t i tok = Err ErrInvalidToken"
    and revoke_other: "k \<noteq> i \<Longrightarrow> validate (revoke s i) t k tok = validate s t k tok"
begin

text \<open>A token opens its own job only, and only until it expires.\<close>

lemma issued_valid_iff:
  assumes "issue s rnd now i ttl = Ok (tok, s')"
  shows "validate s' t k tok = Ok () \<longleftrightarrow> k = i \<and> t \<le> now + ttl"
  using issue_new [OF assms, of t k] by auto

text \<open>A service step: an issue for some job, or the revocation of some job.\<close>

fun token_step :: "(string \<times> ((string, bytes) result \<times> time \<times> duration) option) \<Rightarrow> 's \<Rightarrow> 's" where
  "token_step (i, None) s = revoke s i"
| "token_step (i, Some (rnd, now, ttl)) s = (case issue s rnd now i ttl of Inl _ \<Rightarrow> s | Inr (_, s') \<Rightarrow> s')"

text \<open>
  Steps for other jobs leave the verdict on a token of job \<open>k\<close> alone, as long as no issue
  draws the same token again.
\<close>

lemma validate_other_step:
  assumes "i \<noteq> k" "\<And>rnd now ttl s'. c = Some (rnd, now, ttl) \<Longrightarrow> issue s rnd now i ttl \<noteq> Ok (tok, s')"
  shows "validate (token_step (i, c) s) t k tok = validate s t k tok"
proof (cases c)
  case None
  with assms show ?thesis by (simp add: revoke_other)
next
  case (Some a)
  obtain rnd now ttl where a: "a = (rnd, now, ttl)" by (cases a)
  show ?thesis
  proof (cases "issue s rnd now i ttl")
    case (Inl e)
    then show ?thesis using Some a by simp
  next
    case (Inr p)
    obtain tok' s' where p: "p = (tok', s')" by (cases p)
    with Inr assms(2) [OF Some [unfolded a]] have "tok \<noteq> tok'" by auto
    with issue_old [OF Inr [unfolded p], of tok t k] Inr p Some a show ?thesis by simp
  qed
qed

end

interpretation tok: token_service token_Issue token_Validate token_Revoke
proof (unfold_locales, goal_cases)
  case (1 s rnd now i ttl tok s' t k)
  then show ?case
    by (auto simp: token_Issue_def token_Validate_def Let_def split: sum.splits)
next
  case (2 s rnd now i ttl tok s' tok' t k)
  then show ?case
    by (auto simp: token_Issue_def token_Validate_def Let_def split: sum.splits)
qed (auto simp: token_Validate_def token_Revoke_def split: option.splits)

lemma token_Validate_Ok_iff:
  "token_Validate tokens now jobID tok = Ok () \<longleftrightarrow>
     (\<exists>e. tokens tok = Some e \<and> te_jobID e = jobID \<and> now \<le> te_expiresAt e)"
  by (auto simp: token_Validate_def split: option.splits)

section \<open>Revoked and new tokens\<close>

definition wit_raw :: bytes where
  "wit_raw = replicate 32 (CHR ''x'')"

text \<open>
  Revoking a job invalidates every token for it at once and changes the verdict for no
  other job; a token issued later for another job does not bring a revoked one back.
\<close>

lemma revoke_exact:
  "token_Validate (token_Revoke tokens jobID) t k tok =
     (if k = jobID then Err ErrInvalidToken else token_Validate tokens t k tok)"
  using tok.revoke_same tok.revoke_other by simp

text \<open>
  A token is 43 characters of the URL-safe base64 alphabet, and two draws of 32 random
  bytes give the same token only if they are the same bytes: nothing of the 256 bits is lost.
\<close>

lemma token_encoding:
  assumes "length raw = tokenBytes" "length raw' = tokenBytes"
    "token_Issue tokens (Ok raw) now i ttl = Ok (tok, s)"
    "token_Issue tokens' (Ok raw') now' i' ttl' = Ok (tok', s')"
  shows "length tok = 43 \<and> set tok \<subseteq> set b64_alphabet \<and> (tok = tok' \<longleftrightarrow> raw = raw')"
proof -
  have t: "tok = b64_encode raw" "tok' = b64_encode raw'"
    using assms(3,4) by (simp_all add: token_Issue_def Let_def)
  have "tok = tok' \<longleftrightarrow> raw = raw'"
  proof
    assume e: "tok = tok'"
    show "raw = raw'"
      by (rule b64_encode_inject) (use e t assms(1,2) in simp_all)
  qed (simp add: t)
  moreover have "length tok = 43"
    by (simp only: t(1) length_b64_encode assms(1) tokenBytes_def)
  ultimately show ?thesis using set_b64_encode [of raw] by (simp only: t(1))
qed

end
