(* ===== verification/GoFilepath.thy ===== *)
theory GoFilepath
  imports GoPath
begin

text \<open>
  Go's \<open>filepath.Join\<close> of a directory and a name (on Unix, where \<open>filepath.Clean\<close> is
  \<open>path.Clean\<close>): joining a proper name appends it to the directory's cleaned prefix, so
  different names give different paths and a directory listing gives the names back.
\<close>

section \<open>Joining a directory and a name\<close>

definition filepath_Join :: "string \<Rightarrow> string \<Rightarrow> string" where
  "filepath_Join dir name =
     (if dir = [] then (if name = [] then [] else Clean name)
      else if name = [] then Clean dir else Clean (dir @ [slash] @ name))"

definition put_elem :: "bool \<Rightarrow> string \<Rightarrow> string \<Rightarrow> string" where
  "put_elem rooted out n =
     (if rooted \<and> length out \<noteq> 1 \<or> \<not> rooted \<and> length out \<noteq> 0 then out @ [slash] else out) @ n"

text \<open>What stands before the name of an entry of the directory.\<close>

definition dir_prefix :: "string \<Rightarrow> string" where
  "dir_prefix dir =
     (let c = Clean dir in if c = ''.'' then [] else if c = [slash] then c else c @ [slash])"

definition child_name :: "string \<Rightarrow> string \<Rightarrow> string option" where
  "child_name dir p =
     (let n = drop (length (dir_prefix dir)) p
      in if HasPrefix p (dir_prefix dir) \<and> n \<noteq> [] \<and> slash \<notin> set n then Some n else None)"

lemma at_end_append_slash: "at_end (r @ slash # n) = at_end r"
  by (cases r) (auto simp: at_end_def)

lemma elem_append_slash:
  "take_elem (r @ slash # n) = take_elem r" "drop_elem (r @ slash # n) = drop_elem r @ slash # n"
  by (induction r) (auto simp: take_elem_def drop_elem_def)

lemma elem_proper:
  "slash \<notin> set n \<Longrightarrow> take_elem n = n" "slash \<notin> set n \<Longrightarrow> drop_elem n = []"
  by (auto simp: take_elem_def drop_elem_def takeWhile_eq_all_conv dropWhile_eq_Nil_conv)

text \<open>The loop of \<open>Clean\<close>, one equation per branch.\<close>

definition dot_next :: "string \<Rightarrow> bool" where
  "dot_next r \<longleftrightarrow> hd r = CHR ''.'' \<and> at_end (tl r)"

definition dotdot_next :: "string \<Rightarrow> bool" where
  "dotdot_next r \<longleftrightarrow> take 2 r = ''..'' \<and> at_end (drop 2 r)"

lemma clean_loop_branches:
  "clean_loop rooted [] out dd = out"
  "r \<noteq> [] \<Longrightarrow> hd r = slash \<Longrightarrow> clean_loop rooted r out dd = clean_loop rooted (tl r) out dd"
  "r \<noteq> [] \<Longrightarrow> hd r \<noteq> slash \<Longrightarrow> dot_next r \<Longrightarrow> clean_loop rooted r out dd = clean_loop rooted (tl r) out dd"
  "r \<noteq> [] \<Longrightarrow> hd r \<noteq> slash \<Longrightarrow> \<not> dot_next r \<Longrightarrow> dotdot_next r \<Longrightarrow> dd < length out \<Longrightarrow>
     clean_loop rooted r out dd
       = clean_loop rooted (drop 2 r) (take (backtrack out dd (length out - 1)) out) dd"
  "r \<noteq> [] \<Longrightarrow> hd r \<noteq> slash \<Longrightarrow> \<not> dot_next r \<Longrightarrow> dotdot_next r \<Longrightarrow> \<not> dd < length out \<Longrightarrow>
     clean_loop True r out dd = clean_loop True (drop 2 r) out dd"
  "r \<noteq> [] \<Longrightarrow> hd r \<noteq> slash \<Longrightarrow> \<not> dot_next r \<Longrightarrow> dotdot_next r \<Longrightarrow> \<not> dd < length out \<Longrightarrow>
     out' = (if 0 < length out then out @ [slash] else out) @ ''..'' \<Longrightarrow>
     clean_loop False r out dd = clean_loop False (drop 2 r) out' (length out')"
  "r \<noteq> [] \<Longrightarrow> hd r \<noteq> slash \<Longrightarrow> \<not> dot_next r \<Longrightarrow> \<not> dotdot_next r \<Longrightarrow>
     clean_loop rooted r out dd = clean_loop rooted (drop_elem r) (put_elem rooted out (take_elem r)) dd"
proof -
  show "clean_loop rooted [] out dd = out" by (simp add: clean_loop.simps)
  show "clean_loop rooted r out dd = clean_loop rooted (tl r) out dd" if "r \<noteq> []" "hd r = slash"
    unfolding clean_loop.simps [of rooted r] using that by (simp only: if_True if_False simp_thms)
  show "clean_loop rooted r out dd = clean_loop rooted (tl r) out dd"
    if "r \<noteq> []" "hd r \<noteq> slash" "dot_next r"
    unfolding clean_loop.simps [of rooted r] using that
    by (simp only: if_True if_False simp_thms dot_next_def)
  note step = clean_loop.simps [of _ r, folded dot_next_def dotdot_next_def put_elem_def]
  show "clean_loop rooted r out dd
      = clean_loop rooted (drop 2 r) (take (backtrack out dd (length out - 1)) out) dd"
    if "r \<noteq> []" "hd r \<noteq> slash" "\<not> dot_next r" "dotdot_next r" "dd < length out"
    unfolding step using that by (simp only: if_True if_False simp_thms)
  show "clean_loop True r out dd = clean_loop True (drop 2 r) out dd"
    if "r \<noteq> []" "hd r \<noteq> slash" "\<not> dot_next r" "dotdot_next r" "\<not> dd < length out"
    unfolding step using that by (simp only: if_True if_False simp_thms)
  show "clean_loop False r out dd = clean_loop False (drop 2 r) out' (length out')"
    if "r \<noteq> []" "hd r \<noteq> slash" "\<not> dot_next r" "dotdot_next r" "\<not> dd < length out"
      "out' = (if 0 < length out then out @ [slash] else out) @ ''..''"
    unfolding step that(6) using that(1-5) by (simp only: if_True if_False simp_thms Let_def)
  show "clean_loop rooted r out dd = clean_loop rooted (drop_elem r) (put_elem rooted out (take_elem r)) dd"
    if "r \<noteq> []" "hd r \<noteq> slash" "\<not> dot_next r" "\<not> dotdot_next r"
    unfolding step using that by (simp only: if_True if_False simp_thms)
qed

lemma dot_next_append: "r \<noteq> [] \<Longrightarrow> dot_next (r @ slash # n) = dot_next r"
  by (simp add: dot_next_def at_end_append_slash)

lemma dotdot_next_append: "r \<noteq> [] \<Longrightarrow> dotdot_next (r @ slash # n) = dotdot_next r"
proof (cases "2 \<le> length r")
  case True
  then show ?thesis by (simp add: dotdot_next_def at_end_append_slash)
next
  case False
  moreover assume "r \<noteq> []"
  ultimately obtain c where "r = [c]" by (cases r) (auto simp: not_less_eq_eq)
  then show ?thesis by (simp add: dotdot_next_def)
qed

lemma dotdot_next_length: "dotdot_next r \<Longrightarrow> drop 2 (r @ slash # n) = drop 2 r @ slash # n"
  by (cases "2 \<le> length r") (auto simp: dotdot_next_def dest: arg_cong [where f = length])

lemmas next_append_slash = dot_next_append dotdot_next_append dotdot_next_length

lemma proper_not_dots:
  assumes "proper_name n"
  shows "n \<noteq> []" "hd n \<noteq> slash" "\<not> dot_next n" "\<not> dotdot_next n"
proof -
  show n: "n \<noteq> []" "hd n \<noteq> slash" using assms by (cases n; auto simp: proper_name_def)+
  show "\<not> dot_next n"
    using assms by (cases n; cases "tl n") (auto simp: proper_name_def dot_next_def at_end_def)
  show "\<not> dotdot_next n"
  proof
    assume h: "dotdot_next n"
    then have "n = ''..'' @ drop 2 n" by (metis append_take_drop_id dotdot_next_def)
    moreover have "drop 2 n = []"
      using h assms by (metis at_end_def dotdot_next_def in_set_dropD list.set_sel(1) proper_name_def)
    ultimately show False using assms by (simp add: proper_name_def)
  qed
qed

lemma clean_loop_single:
  assumes "proper_name n"
  shows "clean_loop rooted n out dd = put_elem rooted out n"
  using proper_not_dots [OF assms] assms
  by (simp add: clean_loop_branches(1,7) elem_proper proper_name_def)

lemma clean_loop_snoc:
  assumes n: "proper_name n"
  shows "clean_loop rooted (r @ slash # n) out dd = put_elem rooted (clean_loop rooted r out dd) n"
proof (induction "length r" arbitrary: r out dd rule: less_induct)
  case less
  consider (nil) "r = []" | (sl) "r \<noteq> []" "hd r = slash" | (dot) "r \<noteq> []" "hd r \<noteq> slash" "dot_next r"
    | (up) "r \<noteq> []" "hd r \<noteq> slash" "\<not> dot_next r" "dotdot_next r" "dd < length out"
    | (top) "r \<noteq> []" "hd r \<noteq> slash" "\<not> dot_next r" "dotdot_next r" "\<not> dd < length out"
    | (name) "r \<noteq> []" "hd r \<noteq> slash" "\<not> dot_next r" "\<not> dotdot_next r"
    by blast
  then show ?case
  proof cases
    case nil
    then show ?thesis using clean_loop_single [OF n] by (simp add: clean_loop_branches(1,2))
  next
    case sl
    then show ?thesis using less [of "tl r"] by (simp add: clean_loop_branches(2))
  next
    case dot
    then show ?thesis using less [of "tl r"] by (simp add: clean_loop_branches(3) next_append_slash)
  next
    case up
    then show ?thesis using less [of "drop 2 r"]
      by (simp add: clean_loop_branches(4) next_append_slash del: drop_append)
  next
    case top
    then show ?thesis
      using less [of "drop 2 r"] clean_loop_branches(6) [OF _ _ _ _ _ refl, of _ dd out]
      by (cases rooted) (simp_all add: clean_loop_branches(5) next_append_slash del: length_append drop_append)
  next
    case name
    then show ?thesis using less [of "drop_elem r"] drop_elem_less
      by (simp add: clean_loop_branches(7) next_append_slash elem_append_slash)
  qed
qed

text \<open>A rooted result keeps its leading slash, and a relative one is never a lone dot.\<close>

lemma backtrack_ge: "dd \<le> w \<Longrightarrow> dd \<le> backtrack out dd w"
  by (induction out dd w rule: backtrack.induct) (subst backtrack.simps, auto)

lemma clean_loop_rooted:
  assumes "out \<noteq> []" "hd out = slash" "1 \<le> dd"
  shows "clean_loop True r out dd \<noteq> [] \<and> hd (clean_loop True r out dd) = slash"
  using assms
proof (induction "length r" arbitrary: r out rule: less_induct)
  case less
  consider (nil) "r = []" | (sl) "r \<noteq> []" "hd r = slash" | (dot) "r \<noteq> []" "hd r \<noteq> slash" "dot_next r"
    | (up) "r \<noteq> []" "hd r \<noteq> slash" "\<not> dot_next r" "dotdot_next r" "dd < length out"
    | (top) "r \<noteq> []" "hd r \<noteq> slash" "\<not> dot_next r" "dotdot_next r" "\<not> dd < length out"
    | (name) "r \<noteq> []" "hd r \<noteq> slash" "\<not> dot_next r" "\<not> dotdot_next r"
    by blast
  then show ?case
  proof cases
    case nil
    then show ?thesis using less by (simp add: clean_loop_branches(1))
  next
    case sl
    then show ?thesis using less by (simp add: clean_loop_branches(2))
  next
    case dot
    then show ?thesis using less by (simp add: clean_loop_branches(3))
  next
    case up
    have "1 \<le> backtrack out dd (length out - 1)"
      using backtrack_ge [of dd "length out - 1" out] up(5) less.prems by linarith
    then have "take (backtrack out dd (length out - 1)) out \<noteq> []
        \<and> hd (take (backtrack out dd (length out - 1)) out) = slash"
      using less.prems by (simp add: hd_take)
    then show ?thesis using less.hyps [of "drop 2 r"] less.prems up by (simp add: clean_loop_branches(4))
  next
    case top
    then show ?thesis using less by (simp add: clean_loop_branches(5))
  next
    case name
    have "put_elem True out (take_elem r) \<noteq> [] \<and> hd (put_elem True out (take_elem r)) = slash"
      using less.prems by (simp add: put_elem_def)
    then show ?thesis
      using less.hyps [OF drop_elem_less [OF name(1,2)]] less.prems name by (simp add: clean_loop_branches(7))
  qed
qed

lemma join_not_dot: "\<forall>s \<in> set ss. s = ''..'' \<or> proper_name s \<Longrightarrow> join_with slash ss \<noteq> ''.''"
proof (cases ss)
  case (Cons a l)
  moreover assume "\<forall>s \<in> set ss. s = ''..'' \<or> proper_name s"
  ultimately have "a \<noteq> []" "a \<noteq> ''.''" by (auto simp: proper_name_def)
  then show ?thesis using Cons by (cases l) (auto simp: Cons_eq_append_conv append_eq_Cons_conv)
qed simp

lemma filepath_Join_prefix:
  assumes "dir \<noteq> []" "proper_name n"
  shows "filepath_Join dir n = dir_prefix dir @ n"
proof -
  have n: "n \<noteq> []" using assms by (simp add: proper_name_def)
  show ?thesis
  proof (cases "hd dir = slash")
    case True
    let ?o = "clean_loop True (tl dir) [slash] 1"
    have o: "?o \<noteq> []" "hd ?o = slash" using clean_loop_rooted [of "[slash]" 1 "tl dir"] by simp_all
    then have c: "Clean dir = ?o" using True assms(1) by (simp add: Clean_def)
    have one: "length ?o = 1 \<longleftrightarrow> ?o = [slash]" using o by (cases ?o) auto
    have "filepath_Join dir n = put_elem True ?o n"
      using True assms n clean_loop_snoc [OF assms(2), of True "tl dir" "[slash]" 1]
      by (simp add: filepath_Join_def Clean_def Let_def put_elem_def)
    moreover have "?o \<noteq> ''.''" using o by auto
    ultimately show ?thesis using one c by (simp add: dir_prefix_def put_elem_def Let_def)
  next
    case False
    let ?o = "clean_loop False dir [] 0"
    have c: "Clean dir = (if ?o = [] then ''.'' else ?o)" using False assms(1) by (simp add: Clean_def)
    have "?o = join_with slash (resolved dir)"
      using clean_loop_resolve [of "[]" dir 0]
      by (simp add: resolved_def segments_of_def split: prod.split)
    moreover have "join_with slash (resolved dir) \<noteq> ''.''"
      using resolved_segments by (intro join_not_dot) blast
    moreover have "join_with slash (resolved dir) = [] \<longleftrightarrow> resolved dir = []"
      using resolved_ne by (intro join_eq_Nil_iff) blast
    moreover have "hd (join_with slash (resolved dir)) \<noteq> slash" if "resolved dir \<noteq> []"
      using that resolved_ne [of "hd (resolved dir)" dir]
      by (cases "resolved dir"; cases "tl (resolved dir)") (auto simp: hd_append dest: hd_in_set)
    ultimately have o: "?o \<noteq> ''.''" "?o \<noteq> [slash]"
      by (metis, metis list.sel(1) list.distinct(1))
    have "filepath_Join dir n = put_elem False ?o n"
      using False assms n clean_loop_snoc [OF assms(2), of False dir "[]" 0]
      by (simp add: filepath_Join_def Clean_def Let_def put_elem_def)
    then show ?thesis using o c by (simp add: dir_prefix_def put_elem_def Let_def)
  qed
qed

lemma child_name_Join:
  assumes "dir \<noteq> []" "proper_name n"
  shows "child_name dir (filepath_Join dir n) = Some n"
  using assms by (simp add: filepath_Join_prefix child_name_def HasPrefix_def Let_def proper_name_def)

lemma child_name_SomeD:
  "child_name dir p = Some n \<Longrightarrow> p = dir_prefix dir @ n \<and> n \<noteq> [] \<and> slash \<notin> set n"
  by (auto simp: child_name_def HasPrefix_def Let_def prefix_def split: if_splits)

end
