(* ===== verification/LocalStorage.thy ===== *)
theory LocalStorage
  imports GoFilepath "HOL-Library.AList"
begin

text \<open>
  \<open>internal/storage\<close>: the archive files on disk. The file system is an association list from
  cleaned paths to nodes; a file's content is the list of what was written to it. What the
  operating system may refuse on its own account (permissions, a full disk, a missing parent)
  is the \<open>fault\<close> argument of each call. The \<open>ArchiveStorage\<close> interface is a locale, and
  \<open>LocalArchiveStorage\<close> is its interpretation.
\<close>

section \<open>The operating system's calls\<close>

datatype os_error = ENOENT | EISDIR | ENOTDIR | ENOTEMPTY | Errno string

datatype 'c node = DirNode | FileNode "'c list"

type_synonym 'c filesystem = "(string \<times> 'c node) list"

definition IsNotExist :: "os_error \<Rightarrow> bool" where
  "IsNotExist e \<longleftrightarrow> e = ENOENT"

text \<open>\<open>OpenFile\<close> with \<open>O_CREATE|O_WRONLY|O_TRUNC\<close>.\<close>

definition os_OpenTrunc :: "'c filesystem \<Rightarrow> os_error option \<Rightarrow> string \<Rightarrow> (os_error, 'c filesystem) result" where
  "os_OpenTrunc fs fault p =
     (case fault of Some e \<Rightarrow> Err e
      | None \<Rightarrow> if map_of fs p = Some DirNode then Err EISDIR else Ok (AList.update p (FileNode []) fs))"

definition os_Open :: "'c filesystem \<Rightarrow> os_error option \<Rightarrow> string \<Rightarrow> (os_error, 'c node) result" where
  "os_Open fs fault p =
     (case fault of Some e \<Rightarrow> Err e
      | None \<Rightarrow> case map_of fs p of None \<Rightarrow> Err ENOENT | Some n \<Rightarrow> Ok n)"

text \<open>A write through a handle; once the name is unlinked it reaches no name any more.\<close>

definition os_Write :: "'c filesystem \<Rightarrow> string \<Rightarrow> 'c \<Rightarrow> 'c filesystem" where
  "os_Write fs p c =
     (case map_of fs p of Some (FileNode cs) \<Rightarrow> AList.update p (FileNode (cs @ [c])) fs | _ \<Rightarrow> fs)"

definition os_Remove :: "'c filesystem \<Rightarrow> os_error option \<Rightarrow> string \<Rightarrow> (os_error, 'c filesystem) result" where
  "os_Remove fs fault p =
     (case fault of Some e \<Rightarrow> Err e
      | None \<Rightarrow>
          case map_of fs p of
            None \<Rightarrow> Err ENOENT
          | Some (FileNode _) \<Rightarrow> Ok (AList.delete p fs)
          | Some DirNode \<Rightarrow>
              if list_ex (\<lambda>(q, _). HasPrefix q (p @ [slash])) fs then Err ENOTEMPTY
              else Ok (AList.delete p fs))"

text \<open>Renaming a directory moves what is under it.\<close>

definition os_Rename :: "'c filesystem \<Rightarrow> os_error option \<Rightarrow> string \<Rightarrow> string \<Rightarrow> (os_error, 'c filesystem) result" where
  "os_Rename fs fault p q =
     (case fault of Some e \<Rightarrow> Err e
      | None \<Rightarrow>
          case map_of fs p of
            None \<Rightarrow> Err ENOENT
          | Some (FileNode cs) \<Rightarrow>
              if map_of fs q = Some DirNode then Err EISDIR
              else if p = q then Ok fs
              else Ok (AList.update q (FileNode cs) (AList.delete p fs))
          | Some DirNode \<Rightarrow>
              if map_of fs q \<noteq> None then Err ENOTDIR
              else Ok (map (\<lambda>(k, n). if k = p \<or> HasPrefix k (p @ [slash]) then (q @ drop (length p) k, n) else (k, n)) fs))"

definition os_ReadDir :: "'c filesystem \<Rightarrow> os_error option \<Rightarrow> string \<Rightarrow> (os_error, (string \<times> bool) list) result" where
  "os_ReadDir fs fault dir =
     (case fault of Some e \<Rightarrow> Err e
      | None \<Rightarrow>
          Ok (sort_key fst (List.map_filter
                (\<lambda>(p, n). case child_name dir p of None \<Rightarrow> None | Some c \<Rightarrow> Some (c, n = DirNode)) fs)))"

section \<open>LocalArchiveStorage\<close>

datatype storage_error =
    CreateTempDir os_error
  | CreateTempArchive os_error
  | OpenArchiveErr os_error
  | DeleteErr string os_error
  | FinalizeArchive os_error
  | StatArchive os_error
  | ReadArchiveDir os_error

definition tempSuffix :: string where
  "tempSuffix = ''.zip.tmp''"

definition finalSuffix :: string where
  "finalSuffix = ''.zip''"

definition tempPath :: "string \<Rightarrow> string \<Rightarrow> string" where
  "tempPath dir jobID = filepath_Join dir (jobID @ tempSuffix)"

definition finalPath :: "string \<Rightarrow> string \<Rightarrow> string" where
  "finalPath dir jobID = filepath_Join dir (jobID @ finalSuffix)"

definition local_Create ::
  "string \<Rightarrow> os_error option \<Rightarrow> 'c filesystem \<Rightarrow> string \<Rightarrow> (storage_error, 'c filesystem) result" where
  "local_Create dir fault fs jobID =
     (case os_OpenTrunc fs fault (tempPath dir jobID) of
        Inl e \<Rightarrow> Err (CreateTempArchive e) | Inr fs' \<Rightarrow> Ok fs')"

definition local_Write :: "string \<Rightarrow> 'c filesystem \<Rightarrow> string \<Rightarrow> 'c \<Rightarrow> 'c filesystem" where
  "local_Write dir fs jobID c = os_Write fs (tempPath dir jobID) c"

definition local_Open ::
  "string \<Rightarrow> os_error option \<Rightarrow> 'c filesystem \<Rightarrow> string \<Rightarrow> (storage_error, 'c node) result" where
  "local_Open dir fault fs jobID =
     (case os_Open fs fault (finalPath dir jobID) of Inl e \<Rightarrow> Err (OpenArchiveErr e) | Inr n \<Rightarrow> Ok n)"

text \<open>
  \<open>Delete\<close> removes the temporary file first and then the final one; a missing file is skipped
  and any other error ends the loop, with what was removed before it gone.
\<close>

fun remove_paths ::
  "(string \<times> os_error option) list \<Rightarrow> 'c filesystem \<Rightarrow> storage_error option \<times> 'c filesystem" where
  "remove_paths [] fs = (None, fs)"
| "remove_paths ((p, fault) # ps) fs =
     (case os_Remove fs fault p of
        Inl e \<Rightarrow> if \<not> IsNotExist e then (Some (DeleteErr p e), fs) else remove_paths ps fs
      | Inr fs' \<Rightarrow> remove_paths ps fs')"

definition local_Delete ::
  "string \<Rightarrow> os_error option \<times> os_error option \<Rightarrow> 'c filesystem \<Rightarrow> string \<Rightarrow> storage_error option \<times> 'c filesystem" where
  "local_Delete dir faults fs jobID =
     remove_paths [(tempPath dir jobID, fst faults), (finalPath dir jobID, snd faults)] fs"

definition local_RenameTemp ::
  "string \<Rightarrow> os_error option \<Rightarrow> 'c filesystem \<Rightarrow> string \<Rightarrow> (storage_error, 'c filesystem) result" where
  "local_RenameTemp dir fault fs jobID =
     (case os_Rename fs fault (tempPath dir jobID) (finalPath dir jobID) of
        Inl e \<Rightarrow> Err (FinalizeArchive e) | Inr fs' \<Rightarrow> Ok fs')"

definition local_Size ::
  "('c \<Rightarrow> int) \<Rightarrow> int \<Rightarrow> string \<Rightarrow> os_error option \<Rightarrow> 'c filesystem \<Rightarrow> string \<Rightarrow> (storage_error, int) result" where
  "local_Size bytes_of dir_size dir fault fs jobID =
     (case os_Open fs fault (finalPath dir jobID) of
        Inl e \<Rightarrow> Err (StatArchive e)
      | Inr DirNode \<Rightarrow> Ok dir_size
      | Inr (FileNode cs) \<Rightarrow> Ok (sum_list (map bytes_of cs)))"

fun collect_ids :: "(string \<times> bool) list \<Rightarrow> string list \<Rightarrow> string list" where
  "collect_ids [] ids = ids"
| "collect_ids ((name, isDir) # es) ids =
     (if isDir then collect_ids es ids
      else if HasSuffix name tempSuffix then
        (let i = TrimSuffix name tempSuffix
         in if i \<in> set ids then collect_ids es ids else collect_ids es (ids @ [i]))
      else if HasSuffix name finalSuffix then
        (let i = TrimSuffix name finalSuffix
         in if i \<in> set ids then collect_ids es ids else collect_ids es (ids @ [i]))
      else collect_ids es ids)"

definition local_ListJobIDs ::
  "string \<Rightarrow> os_error option \<Rightarrow> 'c filesystem \<Rightarrow> (storage_error, string list) result" where
  "local_ListJobIDs dir fault fs =
     (case os_ReadDir fs fault dir of
        Inl e \<Rightarrow> Err (ReadArchiveDir e) | Inr es \<Rightarrow> Ok (collect_ids es []))"

text \<open>
  \<open>NewLocalArchiveStorage\<close> makes the directory and every missing ancestor of it.
\<close>

fun ancestors :: "string \<Rightarrow> string \<Rightarrow> string list" where
  "ancestors seen [] = (if seen = [] then [] else [seen])"
| "ancestors seen (c # cs) =
     (if c = slash \<and> seen \<noteq> [] then seen # ancestors (seen @ [c]) cs else ancestors (seen @ [c]) cs)"

definition os_MkdirAll :: "'c filesystem \<Rightarrow> os_error option \<Rightarrow> string \<Rightarrow> (os_error, 'c filesystem) result" where
  "os_MkdirAll fs fault dir =
     (case fault of Some e \<Rightarrow> Err e
      | None \<Rightarrow>
          let ps = ancestors [] (Clean dir)
          in if dir = [] then Err ENOENT
             else if list_ex (\<lambda>p. case map_of fs p of Some (FileNode _) \<Rightarrow> True | _ \<Rightarrow> False) ps then Err ENOTDIR
             else Ok (fold (\<lambda>p fs. if map_of fs p = None then AList.update p DirNode fs else fs) ps fs))"

definition NewLocalArchiveStorage ::
  "string \<Rightarrow> os_error option \<Rightarrow> 'c filesystem \<Rightarrow> (storage_error, string \<times> 'c filesystem) result" where
  "NewLocalArchiveStorage dir fault fs =
     (case os_MkdirAll fs fault dir of Inl e \<Rightarrow> Err (CreateTempDir e) | Inr fs' \<Rightarrow> Ok (dir, fs'))"

section \<open>The interface\<close>

text \<open>
  What the service, the download handler and the cleanup worker rely on. \<open>temp\<close> and \<open>final\<close>
  are the contents of a job's unpublished and published archive; \<open>valid\<close> holds of the ids
  that name one file each; a fault \<open>None\<close> means that the system does not interfere.
\<close>

locale archive_storage =
  fixes create :: "os_error option \<Rightarrow> 's \<Rightarrow> string \<Rightarrow> (storage_error, 's) result"
    and wr :: "'s \<Rightarrow> string \<Rightarrow> 'c \<Rightarrow> 's"
    and open_final :: "os_error option \<Rightarrow> 's \<Rightarrow> string \<Rightarrow> (storage_error, 'c node) result"
    and remove :: "os_error option \<times> os_error option \<Rightarrow> 's \<Rightarrow> string \<Rightarrow> storage_error option \<times> 's"
    and rename :: "os_error option \<Rightarrow> 's \<Rightarrow> string \<Rightarrow> (storage_error, 's) result"
    and list_ids :: "os_error option \<Rightarrow> 's \<Rightarrow> (storage_error, string list) result"
    and temp :: "'s \<Rightarrow> string \<Rightarrow> 'c list option"
    and final :: "'s \<Rightarrow> string \<Rightarrow> 'c list option"
    and wf :: "'s \<Rightarrow> bool"
    and valid :: "string \<Rightarrow> bool"
  assumes create_none: "wf s \<Longrightarrow> valid i \<Longrightarrow> \<exists>s'. create None s i = Ok s'"
    and create_views: "wf s \<Longrightarrow> valid i \<Longrightarrow> valid k \<Longrightarrow> create f s i = Ok s' \<Longrightarrow>
      temp s' k = (if k = i then Some [] else temp s k) \<and> final s' k = final s k"
    and write_views: "wf s \<Longrightarrow> valid i \<Longrightarrow> valid k \<Longrightarrow>
      temp (wr s i c) k = (if k = i then map_option (\<lambda>cs. cs @ [c]) (temp s k) else temp s k)
      \<and> final (wr s i c) k = final s k"
    and open_none: "wf s \<Longrightarrow> valid i \<Longrightarrow> open_final None s i =
      (case final s i of None \<Rightarrow> Err (OpenArchiveErr ENOENT) | Some cs \<Rightarrow> Ok (FileNode cs))"
    and remove_none: "wf s \<Longrightarrow> valid i \<Longrightarrow> fst (remove (None, None) s i) = None"
    and remove_self: "wf s \<Longrightarrow> valid i \<Longrightarrow> remove ff s i = (None, s') \<Longrightarrow>
      fst ff \<noteq> Some ENOENT \<Longrightarrow> snd ff \<noteq> Some ENOENT \<Longrightarrow> temp s' i = None \<and> final s' i = None"
    and remove_other: "wf s \<Longrightarrow> valid i \<Longrightarrow> valid k \<Longrightarrow> k \<noteq> i \<Longrightarrow>
      temp (snd (remove ff s i)) k = temp s k \<and> final (snd (remove ff s i)) k = final s k"
    and rename_none: "wf s \<Longrightarrow> valid i \<Longrightarrow> temp s i \<noteq> None \<Longrightarrow> \<exists>s'. rename None s i = Ok s'"
    and rename_views: "wf s \<Longrightarrow> valid i \<Longrightarrow> valid k \<Longrightarrow> rename f s i = Ok s' \<Longrightarrow>
      temp s i \<noteq> None \<and> final s' k = (if k = i then temp s k else final s k)
      \<and> temp s' k = (if k = i then None else temp s k)"
    and list_none: "wf s \<Longrightarrow> \<exists>ids. list_ids None s = Ok ids"
    and list_views: "wf s \<Longrightarrow> list_ids f s = Ok ids \<Longrightarrow>
      distinct ids \<and> (i \<in> set ids \<longleftrightarrow> valid i \<and> (temp s i \<noteq> None \<or> final s i \<noteq> None))"
    and wf_create: "wf s \<Longrightarrow> valid i \<Longrightarrow> create f s i = Ok s' \<Longrightarrow> wf s'"
    and wf_write: "wf s \<Longrightarrow> valid i \<Longrightarrow> wf (wr s i c)"
    and wf_remove: "wf s \<Longrightarrow> valid i \<Longrightarrow> wf (snd (remove ff s i))"
    and wf_rename: "wf s \<Longrightarrow> valid i \<Longrightarrow> rename f s i = Ok s' \<Longrightarrow> wf s'"
begin

text \<open>Writing never shows in the published archive, and publishing shows exactly what was written.\<close>

lemma publish:
  assumes "wf s" "valid i" "create f s i = Ok s1" "rename g (wr s1 i c) i = Ok s2"
  shows "open_final None s2 i = Ok (FileNode [c])"
    and "valid k \<Longrightarrow> k \<noteq> i \<Longrightarrow> final s2 k = final s k \<and> temp s2 k = temp s k"
    and "valid k \<Longrightarrow> final (wr s1 i c) k = final s k"
    and "wf s2"
proof -
  have 1: "wf s1" using wf_create assms by blast
  have 2: "wf (wr s1 i c)" using wf_write 1 assms by blast
  show 3: "wf s2" using wf_rename 2 assms by blast
  have t: "temp (wr s1 i c) i = Some [c]"
    using write_views [OF 1, of i i c] create_views [OF assms(1,2,2,3)] assms(2) by simp
  show "open_final None s2 i = Ok (FileNode [c])"
    using open_none [OF 3 assms(2)] rename_views [OF 2 assms(2,2,4)] t by simp
  show "final (wr s1 i c) k = final s k" if "valid k"
    using that write_views [OF 1 assms(2) that] create_views [OF assms(1,2) that assms(3)] by simp
  show "final s2 k = final s k \<and> temp s2 k = temp s k" if "valid k" "k \<noteq> i"
    using that write_views [OF 1 assms(2) that(1)] create_views [OF assms(1,2) that(1) assms(3)]
      rename_views [OF 2 assms(2) that(1) assms(4)] by simp
qed

text \<open>The publication goes through when the system does not interfere.\<close>

lemma publish_none:
  assumes "wf s" "valid i"
  shows "\<exists>s1 s2. create None s i = Ok s1 \<and> rename None (wr s1 i c) i = Ok s2"
proof -
  obtain s1 where c: "create None s i = Ok s1" using create_none [OF assms] by blast
  have 1: "wf s1" using wf_create assms c by blast
  have "temp (wr s1 i c) i \<noteq> None"
    using write_views [OF 1 assms(2,2)] create_views [OF assms(1,2,2) c] by simp
  with rename_none [OF wf_write [OF 1 assms(2)] assms(2)] c show ?thesis by blast
qed

text \<open>After a successful removal the id is gone from the listing, and every other id stays.\<close>

lemma remove_listed:
  assumes "wf s" "valid i" "remove (None, None) s i = (e, s')" "list_ids f s = Ok ids" "list_ids g s' = Ok ids'"
  shows "e = None \<and> set ids' = set ids - {i}"
proof -
  have e: "e = None" using remove_none [OF assms(1,2)] assms(3) by simp
  have wf': "wf s'" using wf_remove [OF assms(1,2), of "(None, None)"] assms(3) by simp
  have "k \<in> set ids' \<longleftrightarrow> k \<in> set ids - {i}" for k
    using list_views [OF assms(1,4), of k] list_views [OF wf' assms(5), of k]
      remove_self [OF assms(1,2), of "(None, None)" s'] remove_other [OF assms(1,2), of k "(None, None)"]
      assms(3) e by (cases "k = i") auto
  with e show ?thesis by blast
qed

end

section \<open>The local storage provides it\<close>

definition file_at :: "'c filesystem \<Rightarrow> string \<Rightarrow> 'c list option" where
  "file_at fs p = (case map_of fs p of Some (FileNode cs) \<Rightarrow> Some cs | _ \<Rightarrow> None)"

abbreviation temp_of :: "string \<Rightarrow> 'c filesystem \<Rightarrow> string \<Rightarrow> 'c list option" where
  "temp_of dir fs i \<equiv> file_at fs (tempPath dir i)"

abbreviation final_of :: "string \<Rightarrow> 'c filesystem \<Rightarrow> string \<Rightarrow> 'c list option" where
  "final_of dir fs i \<equiv> file_at fs (finalPath dir i)"

definition valid_id :: "string \<Rightarrow> bool" where
  "valid_id i \<longleftrightarrow> slash \<notin> set i"

definition archive_name :: "string \<Rightarrow> bool" where
  "archive_name n \<longleftrightarrow> HasSuffix n tempSuffix \<or> HasSuffix n finalSuffix"

text \<open>The invariant: no directory stands where an archive would.\<close>

definition storage_wf :: "string \<Rightarrow> 'c filesystem \<Rightarrow> bool" where
  "storage_wf dir fs \<longleftrightarrow> dir \<noteq> [] \<and> distinct (map fst fs) \<and>
     list_all (\<lambda>(p, n). n \<noteq> DirNode \<or>
       (case child_name dir p of None \<Rightarrow> True | Some c \<Rightarrow> \<not> archive_name c)) fs"

lemma HasSuffix_append [simp]: "HasSuffix (i @ s) s"
  by (simp add: HasSuffix_def suffix_def)

lemma archive_name_suffix [simp]: "archive_name (i @ tempSuffix)" "archive_name (i @ finalSuffix)"
  by (simp_all add: archive_name_def)

lemma storage_wf_iff:
  "storage_wf dir fs \<longleftrightarrow> dir \<noteq> [] \<and> distinct (map fst fs) \<and>
     (\<forall>p c. (p, DirNode) \<in> set fs \<longrightarrow> child_name dir p = Some c \<longrightarrow> \<not> archive_name c)"
  by (force simp: storage_wf_def list_all_iff split: option.splits)

lemma proper_archive:
  "valid_id i \<Longrightarrow> proper_name (i @ tempSuffix)" "valid_id i \<Longrightarrow> proper_name (i @ finalSuffix)"
  by (cases i; auto simp: valid_id_def proper_name_def tempSuffix_def finalSuffix_def)+

lemma suffixes_differ: "i @ tempSuffix \<noteq> k @ finalSuffix"
proof
  assume "i @ tempSuffix = k @ finalSuffix"
  then have "rev (i @ tempSuffix) = rev (k @ finalSuffix)" by simp
  then show False by (simp add: tempSuffix_def finalSuffix_def)
qed

lemma path_prefix:
  assumes "dir \<noteq> []" "valid_id i"
  shows "tempPath dir i = dir_prefix dir @ i @ tempSuffix" "finalPath dir i = dir_prefix dir @ i @ finalSuffix"
  using filepath_Join_prefix [OF assms(1)] proper_archive [OF assms(2)]
  by (simp_all add: tempPath_def finalPath_def)

lemma path_inject [store_simps]:
  assumes "dir \<noteq> []" "valid_id i" "valid_id k"
  shows "tempPath dir i = tempPath dir k \<longleftrightarrow> i = k" "finalPath dir i = finalPath dir k \<longleftrightarrow> i = k"
    "tempPath dir i \<noteq> finalPath dir k" "finalPath dir i \<noteq> tempPath dir k"
  using assms suffixes_differ by (simp_all add: path_prefix) metis

lemma path_not_dir:
  assumes "storage_wf dir fs" "valid_id i" "p = tempPath dir i \<or> p = finalPath dir i"
  shows "map_of fs p \<noteq> Some DirNode"
proof
  assume "map_of fs p = Some DirNode"
  then have "(p, DirNode) \<in> set fs" by (rule map_of_SomeD)
  moreover have "dir \<noteq> []" using assms(1) by (simp add: storage_wf_def)
  then have "child_name dir p = Some (i @ tempSuffix) \<or> child_name dir p = Some (i @ finalSuffix)"
    using assms(2,3) child_name_Join proper_archive by (auto simp: tempPath_def finalPath_def)
  ultimately show False
    using assms(1) by (auto simp: storage_wf_iff)
qed

lemma storage_wf_update: "storage_wf dir fs \<Longrightarrow> storage_wf dir (AList.update p (FileNode cs) fs)"
proof -
  have "x \<in> set (AList.update p (FileNode cs) fs) \<Longrightarrow> x = (p, FileNode cs) \<or> x \<in> set fs" for x
    by (induction fs) (auto split: if_splits)
  then show "storage_wf dir fs \<Longrightarrow> ?thesis"
    unfolding storage_wf_iff by (fastforce simp: distinct_update)
qed

lemma storage_wf_delete: "storage_wf dir fs \<Longrightarrow> storage_wf dir (AList.delete p fs)"
  using distinct_delete [of fs p] by (auto simp: storage_wf_iff AList.delete_eq)

lemma file_at_update [store_simps]:
  "file_at (AList.update p (FileNode cs) fs) q = (if q = p then Some cs else file_at fs q)"
  "file_at (AList.delete p fs) q = (if q = p then None else file_at fs q)"
  by (simp_all add: file_at_def update_conv' delete_conv')

lemma dir_ne: "storage_wf dir fs \<Longrightarrow> dir \<noteq> []"
  by (simp add: storage_wf_def)

lemmas local_defs = local_Create_def local_Write_def local_Open_def local_RenameTemp_def
  os_OpenTrunc_def os_Open_def os_Write_def os_Rename_def

lemma local_Create_eq:
  assumes "storage_wf dir fs" "valid_id i" "local_Create dir f fs i = Ok fs'"
  shows "fs' = AList.update (tempPath dir i) (FileNode []) fs"
  using assms(3) by (auto simp: local_defs split: option.splits if_splits)

lemma local_Create_None:
  "storage_wf dir fs \<Longrightarrow> valid_id i \<Longrightarrow> local_Create dir None fs i = Ok (AList.update (tempPath dir i) (FileNode []) fs)"
  using path_not_dir [of dir fs i "tempPath dir i"] by (simp add: local_defs)

lemma local_Write_eq:
  "local_Write dir fs i c = (case temp_of dir fs i of None \<Rightarrow> fs
     | Some cs \<Rightarrow> AList.update (tempPath dir i) (FileNode (cs @ [c])) fs)"
  by (auto simp: local_defs file_at_def split: option.splits node.splits)

lemma local_Rename_eq:
  assumes "storage_wf dir fs" "valid_id i"
  shows "local_RenameTemp dir f fs i = (case f of Some e \<Rightarrow> Err (FinalizeArchive e)
     | None \<Rightarrow> case temp_of dir fs i of None \<Rightarrow> Err (FinalizeArchive ENOENT)
       | Some cs \<Rightarrow> Ok (AList.update (finalPath dir i) (FileNode cs) (AList.delete (tempPath dir i) fs)))"
  using path_not_dir [OF assms] path_inject(3) [OF dir_ne [OF assms(1)] assms(2,2)]
  by (auto simp: local_defs file_at_def split: option.splits node.splits)

lemma os_Remove_file:
  assumes "map_of fs p \<noteq> Some DirNode"
  shows "os_Remove fs f p = (case f of Some e \<Rightarrow> Err e
     | None \<Rightarrow> if file_at fs p = None then Err ENOENT else Ok (AList.delete p fs))"
  using assms by (auto simp: os_Remove_def file_at_def split: option.splits node.splits)

text \<open>What \<open>Delete\<close> does to the file system: each of the two paths is dropped or kept.\<close>

lemma local_Delete_cases:
  assumes "storage_wf dir fs" "valid_id i" "local_Delete dir ff fs i = (e, fs')"
  obtains ps where "fs' = fold AList.delete ps fs" "set ps \<subseteq> {tempPath dir i, finalPath dir i}"
    "e = None \<Longrightarrow> fst ff \<noteq> Some ENOENT \<Longrightarrow> snd ff \<noteq> Some ENOENT \<Longrightarrow>
       file_at fs' (tempPath dir i) = None \<and> file_at fs' (finalPath dir i) = None"
    "ff = (None, None) \<Longrightarrow> e = None"
proof -
  let ?t = "tempPath dir i" and ?f = "finalPath dir i"
  note ne = path_inject(3) [OF dir_ne [OF assms(1)] assms(2,2)]
  have t: "map_of fs ?t \<noteq> Some DirNode" and f: "map_of fs ?f \<noteq> Some DirNode"
    using path_not_dir [OF assms(1,2)] by auto
  have f': "map_of (AList.delete ?t fs) ?f \<noteq> Some DirNode" using f ne by (simp add: delete_conv')
  note rm = os_Remove_file [OF t] os_Remove_file [OF f] os_Remove_file [OF f']
  let ?keep = "\<lambda>p g. g \<noteq> None \<or> file_at fs p = None"
  let ?ps = "(if ?keep ?t (fst ff) then [] else [?t]) @
    (if ?keep ?f (snd ff) \<or> (\<exists>x. fst ff = Some x \<and> x \<noteq> ENOENT) then [] else [?f])"
  show thesis
  proof (rule that [of ?ps])
    show "fs' = fold AList.delete ?ps fs"
      using assms(3) ne by (cases ff) (auto simp: local_Delete_def rm IsNotExist_def store_simps split: option.splits if_splits)
    show "set ?ps \<subseteq> {?t, ?f}" by auto
    show "file_at fs' ?t = None \<and> file_at fs' ?f = None"
      if "e = None" "fst ff \<noteq> Some ENOENT" "snd ff \<noteq> Some ENOENT"
      using that assms(3) ne by (cases ff) (auto simp: local_Delete_def rm IsNotExist_def store_simps split: option.splits if_splits)
    show "e = None" if "ff = (None, None)"
      using that assms(3) ne by (auto simp: local_Delete_def rm IsNotExist_def store_simps split: option.splits if_splits)
  qed
qed

lemma file_at_fold_delete:
  "file_at (fold AList.delete ps fs) q = (if q \<in> set ps then None else file_at fs q)"
  by (induction ps arbitrary: fs) (auto simp: store_simps)

lemma storage_wf_fold_delete: "storage_wf dir fs \<Longrightarrow> storage_wf dir (fold AList.delete ps fs)"
  by (induction ps arbitrary: fs) (auto simp: storage_wf_delete)

lemma TrimSuffix_append [simp]: "TrimSuffix (i @ s) s = i"
  by (simp add: TrimSuffix_def)

lemma collect_ids_set:
  "set (collect_ids es ids) = set ids \<union> {i. (i @ tempSuffix, False) \<in> set es \<or> (i @ finalSuffix, False) \<in> set es}"
proof (induction es ids rule: collect_ids.induct)
  case (2 name isDir es ids)
  consider (dir) isDir | (temp) i where "\<not> isDir" "name = i @ tempSuffix"
    | (final) i where "\<not> isDir" "name = i @ finalSuffix"
    | (other) "\<not> isDir" "\<not> HasSuffix name tempSuffix" "\<not> HasSuffix name finalSuffix"
    by (auto simp: HasSuffix_def suffix_def)
  then show ?case
  proof cases
    case (temp i)
    then have "HasSuffix name tempSuffix" by simp
    with 2 temp suffixes_differ [symmetric] show ?thesis by (auto simp: Let_def)
  next
    case (final i)
    then have "HasSuffix name finalSuffix" "\<not> HasSuffix name tempSuffix"
      using suffixes_differ by (simp, metis HasSuffix_def suffix_def)
    with 2 final suffixes_differ [of _ i] show ?thesis by (auto simp: Let_def)
  next
    case dir
    then show ?thesis using 2 by simp
  next
    case other
    then have "\<And>k. k @ tempSuffix \<noteq> name" "\<And>k. k @ finalSuffix \<noteq> name"
      by (metis HasSuffix_append)+
    with 2 other show ?thesis by simp
  qed
qed simp

lemma distinct_collect_ids: "distinct ids \<Longrightarrow> distinct (collect_ids es ids)"
  by (induction es ids rule: collect_ids.induct) (auto simp: Let_def)

lemma os_ReadDir_files:
  assumes "storage_wf dir fs" "os_ReadDir fs f dir = Ok es"
  shows "(c, False) \<in> set es \<longleftrightarrow> c \<noteq> [] \<and> slash \<notin> set c \<and> file_at fs (dir_prefix dir @ c) \<noteq> None"
proof -
  have es: "set es = {(c, n = DirNode) | p n c. (p, n) \<in> set fs \<and> child_name dir p = Some c}"
    using assms(2) by (force simp: os_ReadDir_def List.map_filter_def split: option.splits)
  have child: "child_name dir (dir_prefix dir @ c) = Some c" if "c \<noteq> []" "slash \<notin> set c"
    using that by (simp add: child_name_def HasPrefix_def Let_def)
  have d: "distinct (map fst fs)" using assms(1) by (simp add: storage_wf_def)
  show ?thesis
  proof
    assume "(c, False) \<in> set es"
    then obtain p n where pn: "(p, n) \<in> set fs" "child_name dir p = Some c" "n \<noteq> DirNode"
      using es by auto
    with child_name_SomeD [OF pn(2)] d show "c \<noteq> [] \<and> slash \<notin> set c \<and> file_at fs (dir_prefix dir @ c) \<noteq> None"
      by (cases n) (auto simp: file_at_def)
  next
    assume c: "c \<noteq> [] \<and> slash \<notin> set c \<and> file_at fs (dir_prefix dir @ c) \<noteq> None"
    then obtain cs where "map_of fs (dir_prefix dir @ c) = Some (FileNode cs)"
      by (auto simp: file_at_def split: option.splits node.splits)
    then have "(dir_prefix dir @ c, FileNode cs) \<in> set fs" by (rule map_of_SomeD)
    with child c es show "(c, False) \<in> set es" by blast
  qed
qed

lemma local_ListJobIDs_set:
  assumes "storage_wf dir fs" "local_ListJobIDs dir f fs = Ok ids"
  shows "distinct ids \<and> (i \<in> set ids \<longleftrightarrow> valid_id i \<and> (temp_of dir fs i \<noteq> None \<or> final_of dir fs i \<noteq> None))"
proof -
  obtain es where es: "os_ReadDir fs f dir = Ok es" "ids = collect_ids es []"
    using assms(2) by (auto simp: local_ListJobIDs_def split: sum.splits)
  have ns: "slash \<notin> set (i @ tempSuffix) \<longleftrightarrow> valid_id i" "slash \<notin> set (i @ finalSuffix) \<longleftrightarrow> valid_id i"
    by (auto simp: valid_id_def tempSuffix_def finalSuffix_def)
  have "i @ tempSuffix \<noteq> []" "i @ finalSuffix \<noteq> []" by (simp_all add: tempSuffix_def finalSuffix_def)
  with os_ReadDir_files [OF assms(1) es(1)] es(2) ns path_prefix [OF dir_ne [OF assms(1)], of i]
  show ?thesis by (auto simp: collect_ids_set distinct_collect_ids)
qed

interpretation loc: archive_storage "local_Create dir" "local_Write dir" "local_Open dir" "local_Delete dir"
  "local_RenameTemp dir" "local_ListJobIDs dir" "temp_of dir" "final_of dir" "storage_wf dir" valid_id
  for dir
proof (unfold_locales, goal_cases)
  case (1 s i)
  then show ?case by (simp add: local_Create_None)
next
  case (2 s i k f s')
  with local_Create_eq [of dir s i f s'] path_inject [OF dir_ne [OF 2(1)]] show ?case by (simp add: store_simps)
next
  case (3 s i k c)
  with path_inject [OF dir_ne [OF 3(1)]] show ?case by (simp add: local_Write_eq store_simps split: option.split)
next
  case (4 s i)
  with path_not_dir [of dir s i "finalPath dir i"] show ?case
    by (auto simp: local_Open_def os_Open_def file_at_def split: option.splits node.splits)
next
  case (5 s i)
  then show ?case using local_Delete_cases [of dir s i "(None, None)"] by (metis prod.collapse)
next
  case (6 s i ff s')
  then show ?case using local_Delete_cases [of dir s i ff None s'] by metis
next
  case (7 s i k ff)
  obtain e s' where e: "local_Delete dir ff s i = (e, s')" by force
  show ?case
    by (rule local_Delete_cases [OF 7(1,2) e])
      (use 7 e path_inject [OF dir_ne [OF 7(1)]] in \<open>auto simp: file_at_fold_delete\<close>)
next
  case (8 s i)
  then show ?case by (auto simp: local_Rename_eq)
next
  case (9 s i k f s')
  with path_inject [OF dir_ne [OF 9(1)]] show ?case
    by (auto simp: local_Rename_eq store_simps split: option.splits)
next
  case (10 s)
  then show ?case by (simp add: local_ListJobIDs_def os_ReadDir_def)
next
  case (11 s f ids i)
  then show ?case by (rule local_ListJobIDs_set)
next
  case (12 s i f s')
  then show ?case using local_Create_eq storage_wf_update by metis
next
  case (13 s i c)
  then show ?case by (simp add: local_Write_eq storage_wf_update split: option.split)
next
  case (14 s i ff)
  then show ?case using local_Delete_cases [of dir s i ff] storage_wf_fold_delete by (metis prod.collapse)
next
  case (15 s i f s')
  then show ?case by (auto simp: local_Rename_eq storage_wf_update storage_wf_delete split: option.splits)
qed

section \<open>Claims\<close>

text \<open>
  Publication is all or nothing: with a system that does not interfere, creating the
  temporary file, writing the archive and renaming it succeeds; the published archive of every
  job is what it was until the rename, and after it \<open>Open\<close> gives exactly what was written for
  this job while the files of every other job are as before.
\<close>

lemma publish_archive:
  assumes "storage_wf dir fs" "valid_id i"
  shows "\<exists>fs1 fs2. local_Create dir None fs i = Ok fs1
    \<and> local_RenameTemp dir None (local_Write dir fs1 i c) i = Ok fs2
    \<and> final_of dir (local_Write dir fs1 i c) i = final_of dir fs i
    \<and> local_Open dir None fs2 i = Ok (FileNode [c])
    \<and> (\<forall>k. valid_id k \<and> k \<noteq> i \<longrightarrow> final_of dir fs2 k = final_of dir fs k \<and> temp_of dir fs2 k = temp_of dir fs k)"
proof -
  obtain fs1 fs2 where h: "local_Create dir None fs i = Ok fs1"
    "local_RenameTemp dir None (local_Write dir fs1 i c) i = Ok fs2"
    using loc.publish_none [OF assms] by blast
  show ?thesis
    using h loc.publish(1-3) [OF assms h] assms(2) by blast
qed

definition wit_fs :: "nat filesystem" where
  "wit_fs = [(''/a'', DirNode), (''/a/k.zip'', FileNode [3])]"

lemma wit_fs_wf: "storage_wf ''/a'' wit_fs"
  by (simp add: storage_wf_def wit_fs_def child_name_def dir_prefix_def Clean_def
      clean_loop.simps at_end_def take_elem_def drop_elem_def HasPrefix_def Let_def
      archive_name_def HasSuffix_def suffix_def tempSuffix_def finalSuffix_def)

text \<open>
  C31. \<open>ListJobIDs\<close> gives every job that has a temporary or a final archive exactly once, and
  no other name; \<open>Delete\<close> reports no error for files that are absent, and afterwards the
  listing has lost that job and no other.
\<close>

theorem list_and_delete_exact:
  assumes "storage_wf dir fs" "valid_id i"
    "local_Delete dir (None, None) fs i = (e, fs')"
    "local_ListJobIDs dir None fs = Ok ids" "local_ListJobIDs dir None fs' = Ok ids'"
  shows "e = None \<and> distinct ids
    \<and> set ids = {k. valid_id k \<and> (temp_of dir fs k \<noteq> None \<or> final_of dir fs k \<noteq> None)}
    \<and> set ids' = set ids - {i}"
  using loc.remove_listed [OF assms] loc.list_views [OF assms(1,4)] by blast

theorem list_and_delete_exact_witness:
  "\<exists>fs' ids ids'. local_Delete ''/a'' (None, None) wit_fs ''k'' = (None, fs')
    \<and> local_ListJobIDs ''/a'' None wit_fs = Ok ids \<and> local_ListJobIDs ''/a'' None fs' = Ok ids'
    \<and> set ids' = set ids - {''k''}"
proof -
  have v: "valid_id ''k''" by (simp add: valid_id_def)
  obtain e fs' where d: "local_Delete ''/a'' (None, None) wit_fs ''k'' = (e, fs')" by force
  have "storage_wf ''/a'' fs'" using loc.wf_remove [OF wit_fs_wf v, of "(None, None)"] d by simp
  then obtain ids ids' where "local_ListJobIDs ''/a'' None wit_fs = Ok ids" "local_ListJobIDs ''/a'' None fs' = Ok ids'"
    using loc.list_none wit_fs_wf by metis
  with list_and_delete_exact [OF wit_fs_wf v d] d show ?thesis by blast
qed

end
