(* ===== verification/PathSanitizer.thy ===== *)
theory PathSanitizer
  imports GoPath
begin

text \<open>
  \<open>sanitizeArchivePath\<close> of \<open>internal/archive/zip.go\<close>, the check every archive entry path
  passes through. Its errors are values that carry what the Go error message shows.
\<close>

datatype sanitize_error =
    EmptyArchivePath
  | ContainsNull string
  | ContainsDriveLetter string
  | EscapesRoot string
  | InvalidSegment string string

definition has_drive_letter :: "string \<Rightarrow> bool" where
  "has_drive_letter s \<longleftrightarrow> 2 \<le> length s \<and> s ! 1 = CHR '':''"

definition bad_segment :: "string \<Rightarrow> bool" where
  "bad_segment s \<longleftrightarrow> s = [] \<or> s = ''.'' \<or> s = ''..''"

definition sanitizeArchivePath :: "string \<Rightarrow> (sanitize_error, string) result" where
  "sanitizeArchivePath p =
     (if p = [] then Err EmptyArchivePath
      else
        let normalized = ReplaceByte backslash slash p in
        if NUL \<in> set normalized then Err (ContainsNull p)
        else if has_drive_letter normalized then Err (ContainsDriveLetter p)
        else
          let cleaned = TrimPrefix (Clean normalized) ''/'' in
          if cleaned = ''.'' \<or> cleaned = ''..'' \<or> HasPrefix cleaned ''../'' \<or> HasPrefix normalized ''/''
          then Err (EscapesRoot p)
          else (case find bad_segment (split_on slash cleaned) of
              Some segment \<Rightarrow> Err (InvalidSegment p segment)
            | None \<Rightarrow> Ok cleaned))"

text \<open>A path an extractor may create below its target directory.\<close>

definition safe_entry_path :: "string \<Rightarrow> bool" where
  "safe_entry_path q \<longleftrightarrow>
     NUL \<notin> set q \<and> backslash \<notin> set q \<and> (\<forall>s \<in> set (split_on slash q). proper_name s)"

section \<open>Specification by segments\<close>

definition norm_path :: "string \<Rightarrow> string" where
  "norm_path p = ReplaceByte backslash slash p"

lemma norm_path_bytes:
  "backslash \<notin> set (norm_path p)" "NUL \<in> set (norm_path p) \<longleftrightarrow> NUL \<in> set p"
  "norm_path p = [] \<longleftrightarrow> p = []"
  by (auto simp: norm_path_def ReplaceByte_def split: if_splits)

lemma HasPrefix_slash: "HasPrefix s ''/'' \<longleftrightarrow> s \<noteq> [] \<and> hd s = slash"
  by (cases s) (auto simp: HasPrefix_def)

lemma hd_join: "ss \<noteq> [] \<Longrightarrow> hd ss \<noteq> [] \<Longrightarrow> hd (join_with c ss) = hd (hd ss)"
  by (cases ss; cases "tl ss") auto

lemma join_dotdot_iff:
  assumes "ss \<noteq> []" "\<And>s. s \<in> set ss \<Longrightarrow> s \<noteq> [] \<and> slash \<notin> set s"
  shows "join_with slash ss = ''..'' \<or> HasPrefix (join_with slash ss) ''../'' \<longleftrightarrow> hd ss = ''..''"
proof
  assume "join_with slash ss = ''..'' \<or> HasPrefix (join_with slash ss) ''../''"
  then obtain t where "join_with slash ss = ''..'' @ t" "at_end t"
    by (auto simp: HasPrefix_def prefix_def at_end_def)
  then have "split_on slash (join_with slash ss) = ''..'' # tl (split_on slash t)"
    using split_on_elem [of "''..''" t] by simp
  moreover have "split_on slash (join_with slash ss) = ss"
    using assms by (intro split_join) auto
  ultimately show "hd ss = ''..''" by simp
next
  assume "hd ss = ''..''"
  with assms(1) show "join_with slash ss = ''..'' \<or> HasPrefix (join_with slash ss) ''../''"
    by (cases ss; cases "tl ss") (auto simp: HasPrefix_def)
qed

lemma join_dot_iff:
  assumes "ss \<noteq> []" "\<And>s. s \<in> set ss \<Longrightarrow> s = ''..'' \<or> proper_name s"
  shows "join_with slash ss \<noteq> ''.''"
proof
  assume "join_with slash ss = ''.''"
  moreover have "split_on slash (join_with slash ss) = ss"
  proof (rule split_join [OF assms(1)])
    show "slash \<notin> set s" if "s \<in> set ss" for s
      using assms(2) [OF that] by (auto simp: proper_name_def)
  qed
  ultimately have "ss = [''.'']" by simp
  with assms(2) show False by (simp add: proper_name_def)
qed

lemma find_bad_segment_None: "(\<forall>s \<in> set ss. proper_name s) \<Longrightarrow> find bad_segment ss = None"
  by (auto simp: find_None_iff bad_segment_def proper_name_def)

text \<open>The cleaned form of a relative path has no slash to trim, so only the checks on it are left.\<close>

lemma Clean_trim:
  assumes "n \<noteq> []" "hd n \<noteq> slash"
  shows "TrimPrefix (Clean n) ''/'' = Clean n"
proof (cases "resolved n = []")
  case False
  then have "hd (join_with slash (resolved n)) = hd (hd (resolved n))" "hd (resolved n) \<noteq> []" "slash \<notin> set (hd (resolved n))"
    using resolved_ne [of "hd (resolved n)" n] by (auto intro: hd_join resolved_ne)
  then have "hd (join_with slash (resolved n)) \<noteq> slash" by (metis list.set_sel(1))
  then show ?thesis using Clean_relative [OF assms] False by (simp add: TrimPrefix_def HasPrefix_slash)
qed (use Clean_relative [OF assms] in \<open>simp add: TrimPrefix_def HasPrefix_slash\<close>)

lemma sanitize_checks:
  assumes "p \<noteq> []" "NUL \<notin> set p" "\<not> has_drive_letter (norm_path p)" "\<not> HasPrefix (norm_path p) ''/''"
  shows "sanitizeArchivePath p =
    (if Clean (norm_path p) = ''.'' \<or> Clean (norm_path p) = ''..'' \<or> HasPrefix (Clean (norm_path p)) ''../'' then Err (EscapesRoot p)
     else (case find bad_segment (split_on slash (Clean (norm_path p))) of
        Some segment \<Rightarrow> Err (InvalidSegment p segment) | None \<Rightarrow> Ok (Clean (norm_path p))))"
proof -
  have "TrimPrefix (Clean (norm_path p)) ''/'' = Clean (norm_path p)"
    using assms by (intro Clean_trim) (auto simp: norm_path_bytes HasPrefix_slash)
  then show ?thesis
    using assms norm_path_bytes(2) [of p] by (simp add: sanitizeArchivePath_def Let_def norm_path_def [symmetric])
qed

lemma sanitize_relative:
  assumes "p \<noteq> []" "NUL \<notin> set p" "\<not> has_drive_letter (norm_path p)" "\<not> HasPrefix (norm_path p) ''/''"
  shows "sanitizeArchivePath p =
    (if resolved (norm_path p) = [] \<or> hd (resolved (norm_path p)) = ''..'' then Err (EscapesRoot p)
     else Ok (join_with slash (resolved (norm_path p))))"
proof -
  let ?n = "norm_path p" and ?ss = "resolved (norm_path p)"
  have n: "?n \<noteq> []" "hd ?n \<noteq> slash" using assms by (auto simp: norm_path_bytes HasPrefix_slash)
  note pre = sanitize_checks [OF assms] and cl = Clean_relative [OF n]
  have seg: "s \<in> set ?ss \<Longrightarrow> s \<noteq> [] \<and> slash \<notin> set s" for s by (rule resolved_ne)
  consider (empty) "?ss = []" | (up) "?ss \<noteq> []" "hd ?ss = ''..''" | (inside) "?ss \<noteq> []" "hd ?ss \<noteq> ''..''" by blast
  then show ?thesis
  proof cases
    case empty
    then show ?thesis using pre cl by simp
  next
    case up
    then show ?thesis using pre cl join_dotdot_iff [OF up(1) seg] by auto
  next
    case inside
    have "find bad_segment (split_on slash (join_with slash ?ss)) = None"
      using resolved_no_dotdot [OF inside] split_join [OF inside(1), of slash] seg by (simp add: find_bad_segment_None)
    moreover have "join_with slash ?ss \<noteq> ''.''" using inside(1) resolved_segments by (intro join_dot_iff) auto
    ultimately show ?thesis using pre cl inside join_dotdot_iff [OF inside(1) seg] by auto
  qed
qed

section \<open>Properties\<close>

lemma safe_join:
  assumes "ss \<noteq> []" "\<forall>s \<in> set ss. proper_name s" "\<forall>s \<in> set ss. NUL \<notin> set s \<and> backslash \<notin> set s"
  shows "safe_entry_path (join_with slash ss)"
proof -
  have "split_on slash (join_with slash ss) = ss"
    using assms by (intro split_join) (auto simp: proper_name_def)
  then show ?thesis
    using assms set_join_subset [of slash ss] by (auto simp: safe_entry_path_def)
qed

lemma safe_entry_split: "safe_entry_path q \<Longrightarrow> resolved q = split_on slash q"
  using resolved_join_proper [of "split_on slash q"] by (simp add: safe_entry_path_def)

lemma safe_entry_ne: "safe_entry_path q \<Longrightarrow> q \<noteq> [] \<and> hd q \<noteq> slash \<and> last q \<noteq> slash"
proof -
  assume q: "safe_entry_path q"
  have hd: "hd q \<noteq> slash" and ne: "q \<noteq> []"
    using q by (cases q; force simp: safe_entry_path_def proper_name_def)+
  have "last q \<noteq> slash"
  proof
    assume "last q = slash"
    with ne obtain r where "q = r @ [slash]" by (metis append_butlast_last_id)
    moreover have "[] \<in> set (split_on slash (r @ [slash]))"
      by (simp add: split_on_snoc_sep)
    ultimately show False using q by (auto simp: safe_entry_path_def proper_name_def)
  qed
  with hd ne show ?thesis by simp
qed

lemma sanitize_OkD:
  assumes "sanitizeArchivePath p = Ok q"
  shows "p \<noteq> []" "NUL \<notin> set p" "\<not> has_drive_letter (norm_path p)" "\<not> HasPrefix (norm_path p) ''/''"
    and "resolved (norm_path p) \<noteq> []" "hd (resolved (norm_path p)) \<noteq> ''..''"
    and "q = join_with slash (resolved (norm_path p))"
proof -
  show c: "p \<noteq> []" "NUL \<notin> set p" "\<not> has_drive_letter (norm_path p)" "\<not> HasPrefix (norm_path p) ''/''"
    using assms norm_path_bytes(2) [of p]
    by (auto simp: sanitizeArchivePath_def Let_def norm_path_def [symmetric] split: if_splits)
  from assms sanitize_relative [OF c]
  show "resolved (norm_path p) \<noteq> []" "hd (resolved (norm_path p)) \<noteq> ''..''"
    "q = join_with slash (resolved (norm_path p))"
    by (auto split: if_splits)
qed

lemma sanitize_safe_entry:
  assumes "sanitizeArchivePath p = Ok q"
  shows "safe_entry_path q"
proof -
  note ok = sanitize_OkD [OF assms]
  have "NUL \<notin> set s \<and> backslash \<notin> set s" if "s \<in> set (resolved (norm_path p))" for s
    using resolved_bytes [OF that] ok(2) norm_path_bytes by auto
  then show ?thesis
    unfolding ok(7) using ok resolved_no_dotdot by (intro safe_join) blast+
qed

lemma norm_safe: "safe_entry_path q \<Longrightarrow> norm_path q = q"
  by (auto simp: safe_entry_path_def norm_path_def ReplaceByte_def intro: map_idI)

lemma sanitize_safe_id:
  assumes "safe_entry_path q"
  shows "sanitizeArchivePath q =
    (if has_drive_letter q then Err (ContainsDriveLetter q) else Ok q)"
proof (cases "has_drive_letter q")
  case True
  then show ?thesis
    using assms safe_entry_ne [OF assms] norm_safe [OF assms]
    by (simp add: sanitizeArchivePath_def Let_def norm_path_def [symmetric] safe_entry_path_def)
next
  case False
  have "\<forall>s \<in> set (split_on slash q). proper_name s"
    using assms by (simp add: safe_entry_path_def)
  then have "hd (split_on slash q) \<noteq> ''..''"
    by (metis hd_in_set proper_name_def split_on_not_Nil)
  then show ?thesis
    using False assms safe_entry_ne [OF assms] norm_safe [OF assms] safe_entry_split [OF assms]
    by (subst sanitize_relative) (auto simp: HasPrefix_slash safe_entry_path_def)
qed

section \<open>Claims\<close>

text \<open>
  C17. Whatever bytes an archive path holds, a path that the sanitiser accepts is safe to
  extract: it is not empty, not absolute, ends in no slash, holds no NUL byte and no
  backslash, and none of its segments is empty, \<open>.\<close> or \<open>..\<close>.
\<close>

theorem sanitize_safe:
  assumes "sanitizeArchivePath p = Ok q"
  shows "q \<noteq> [] \<and> hd q \<noteq> slash \<and> last q \<noteq> slash \<and> NUL \<notin> set q \<and> backslash \<notin> set q
    \<and> (\<forall>s \<in> set (split_on slash q). s \<noteq> [] \<and> s \<noteq> ''.'' \<and> s \<noteq> ''..'')"
  using sanitize_safe_entry [OF assms] safe_entry_ne [of q]
  by (auto simp: safe_entry_path_def proper_name_def)

theorem sanitize_safe_witness:
  "sanitizeArchivePath ''a/./b/../c'' = Ok ''a/c'' \<and> hd ''a/c'' \<noteq> slash"
proof -
  have h: "sanitizeArchivePath ''a/./b/../c'' = Ok ''a/c''"
    by code_simp
  show ?thesis using h sanitize_safe [OF h] by simp
qed

text \<open>
  C18. The sanitiser is exactly segment resolution: with backslashes read as slashes, a
  non-empty relative path without NUL and without a drive letter in its first two bytes is
  accepted iff resolving its \<open>.\<close> and \<open>..\<close> segments leaves something that does not start
  with \<open>..\<close>, and then the result is the join of those segments. In particular the final
  segment loop of the code never rejects what the earlier checks let through.
\<close>

theorem sanitize_resolves:
  assumes "p \<noteq> []" "NUL \<notin> set p" "\<not> has_drive_letter (ReplaceByte backslash slash p)"
    "hd (ReplaceByte backslash slash p) \<noteq> slash"
  shows "sanitizeArchivePath p =
    (let ss = resolved (ReplaceByte backslash slash p) in
     if ss = [] \<or> hd ss = ''..'' then Err (EscapesRoot p) else Ok (join_with slash ss))"
  using sanitize_relative [of p] assms
  by (simp add: Let_def norm_path_def HasPrefix_slash)

theorem sanitize_resolves_witness:
  "sanitizeArchivePath ''a/../../b'' = Err (EscapesRoot ''a/../../b'')"
proof -
  have r: "resolved (ReplaceByte backslash slash ''a/../../b'') = [''..'', ''b'']"
    by code_simp
  show ?thesis
    using sanitize_resolves [of "''a/../../b''"] r
    by (simp add: has_drive_letter_def ReplaceByte_def)
qed

text \<open>
  Sanitising an accepted path again changes nothing, unless the first pass uncovered a
  drive letter: then the second pass rejects what the first pass returned.
\<close>

lemma sanitize_idempotent:
  assumes "sanitizeArchivePath p = Ok q"
  shows "sanitizeArchivePath q =
    (if has_drive_letter q then Err (ContainsDriveLetter q) else Ok q)"
  by (rule sanitize_safe_id [OF sanitize_safe_entry [OF assms]])

text \<open>
  C37. The drive-letter check does not do what its comment says: it looks at the second byte
  of the path before cleaning. Any safe path \<open>q\<close>, also one that starts with a drive letter
  such as \<open>C:/x\<close>, is returned as it is for the input \<open>./q\<close>.
\<close>

theorem sanitize_dot_prefix_keeps_drive:
  assumes "safe_entry_path q"
  shows "sanitizeArchivePath (''./'' @ q) = Ok q"
proof -
  have n: "norm_path (''./'' @ q) = ''./'' @ q"
    using norm_safe [OF assms] by (simp add: norm_path_def ReplaceByte_def)
  have "resolved (''./'' @ q) = split_on slash q"
    using safe_entry_split [OF assms] by (simp add: resolved_def)
  moreover have "hd (split_on slash q) \<noteq> ''..''"
    using assms by (metis hd_in_set proper_name_def safe_entry_path_def split_on_not_Nil)
  ultimately show ?thesis
    using n assms
    by (subst sanitize_relative) (auto simp: has_drive_letter_def HasPrefix_slash safe_entry_path_def)
qed

theorem sanitize_dot_prefix_keeps_drive_witness:
  "sanitizeArchivePath ''./C:/x'' = Ok ''C:/x'' \<and> has_drive_letter ''C:/x''"
proof -
  have "safe_entry_path ''C:/x''"
    by (simp add: safe_entry_path_def proper_name_def)
  then show ?thesis
    using sanitize_dot_prefix_keeps_drive [of "''C:/x''"] by (simp add: has_drive_letter_def)
qed

end
