(* ===== verification/GoIO.thy ===== *)
theory GoIO
  imports Prelude
begin

text \<open>
  Go's \<open>io.Reader\<close>, \<open>io.LimitReader\<close> and \<open>io.CopyBuffer\<close>. A reader is the sequence of chunks
  that its \<open>Read\<close> calls are ready to hand out, and how it ends; a chunk larger than the
  caller's buffer is handed out in pieces, an empty chunk is a \<open>Read\<close> of \<open>0, nil\<close>, and an
  eager reader reports its end together with the last chunk. A writer is a function of its
  state, as the copying loop needs nothing else of it.
\<close>

section \<open>Readers\<close>

datatype read_end = EOF | ReadFailed string

record reader =
  rd_chunks :: "bytes list"
  rd_end :: read_end
  rd_eager :: bool

definition body_bytes :: "reader \<Rightarrow> bytes" where
  "body_bytes r = concat (rd_chunks r)"

definition Read :: "nat \<Rightarrow> reader \<Rightarrow> bytes \<times> read_end option \<times> reader" where
  "Read k r =
     (case rd_chunks r of
        [] \<Rightarrow> ([], Some (rd_end r), r)
      | c # cs \<Rightarrow>
          if length c \<le> k then
            (c, if cs = [] \<and> rd_eager r then Some (rd_end r) else None, r\<lparr>rd_chunks := cs\<rparr>)
          else (take k c, None, r\<lparr>rd_chunks := drop k c # cs\<rparr>))"

text \<open>\<open>LimitedReader\<close>: the number of bytes left and the reader underneath.\<close>

type_synonym LimitedReader = "int \<times> reader"

definition LimitedRead :: "nat \<Rightarrow> LimitedReader \<Rightarrow> bytes \<times> read_end option \<times> LimitedReader" where
  "LimitedRead k l =
     (case l of (N, r) \<Rightarrow>
        if N \<le> 0 then ([], Some EOF, l)
        else case Read (if N < int k then nat N else k) r of
          (d, e, r') \<Rightarrow> (d, e, (N - int (length d), r')))"

definition work_left :: "LimitedReader \<Rightarrow> nat" where
  "work_left l = length (rd_chunks (snd l)) + length (body_bytes (snd l))"

lemma LimitedRead_progress:
  assumes "LimitedRead k l = (d, None, l')" "0 < k"
  shows "work_left l' < work_left l"
  using assms
  by (auto simp: LimitedRead_def Read_def work_left_def body_bytes_def Let_def
      split: prod.splits list.splits if_splits)

section \<open>Copying\<close>

datatype 'e copy_error = WriteFailed 'e | InvalidWrite | ShortWrite | ReadError string | EmptyBuffer

type_synonym ('w, 'e) writer = "'w \<Rightarrow> bytes \<Rightarrow> 'w \<times> int \<times> 'e option"

text \<open>One \<open>Write\<close> of the loop, with the checks on what the writer returned.\<close>

definition copy_write :: "('w, 'e) writer \<Rightarrow> 'w \<Rightarrow> bytes \<Rightarrow> int \<Rightarrow> 'w \<times> int \<times> 'e copy_error option" where
  "copy_write wr w d written =
     (case wr w d of (w', nw, ew) \<Rightarrow>
        let bad = (nw < 0 \<or> int (length d) < nw);
            nw' = (if bad then 0 else nw);
            ew' = (case ew of Some e \<Rightarrow> Some (WriteFailed e) | None \<Rightarrow> if bad then Some InvalidWrite else None)
        in (w', written + nw',
            case ew' of Some e \<Rightarrow> Some e
            | None \<Rightarrow> if int (length d) \<noteq> nw' then Some ShortWrite else None))"

function copy_loop ::
  "('w, 'e) writer \<Rightarrow> nat \<Rightarrow> LimitedReader \<Rightarrow> 'w \<Rightarrow> int \<Rightarrow> 'w \<times> int \<times> 'e copy_error option" where
  "copy_loop wr k l w written =
     (if k = 0 then (w, written, Some EmptyBuffer)
      else case LimitedRead k l of (d, er, l') \<Rightarrow>
        case (if d = [] then (w, written, None) else copy_write wr w d written) of
          (w', written', Some e) \<Rightarrow> (w', written', Some e)
        | (w', written', None) \<Rightarrow>
            (case er of
               Some EOF \<Rightarrow> (w', written', None)
             | Some (ReadFailed e) \<Rightarrow> (w', written', Some (ReadError e))
             | None \<Rightarrow> copy_loop wr k l' w' written'))"
  by pat_completeness auto
termination
  by (relation "measure (\<lambda>(wr, k, l, w, written). work_left l)") (auto dest: LimitedRead_progress [OF sym])

declare copy_loop.simps [simp del]

definition CopyBuffer ::
  "('w, 'e) writer \<Rightarrow> nat \<Rightarrow> LimitedReader \<Rightarrow> 'w \<Rightarrow> 'w \<times> int \<times> 'e copy_error option" where
  "CopyBuffer wr k l w = copy_loop wr k l w 0"

section \<open>What a copy does\<close>

text \<open>The writes that all went through in full.\<close>

fun writes :: "('w, 'e) writer \<Rightarrow> 'w \<Rightarrow> bytes list \<Rightarrow> 'w option" where
  "writes wr w [] = Some w"
| "writes wr w (d # ds) =
     (case wr w d of (w', nw, ew) \<Rightarrow>
        if ew = None \<and> nw = int (length d) then writes wr w' ds else None)"

lemma copy_write_ok:
  "copy_write wr w d written = (w', written', None) \<longleftrightarrow>
     wr w d = (w', int (length d), None) \<and> written' = written + int (length d)"
  by (auto simp: copy_write_def Let_def split: prod.splits option.splits if_splits)

lemma LimitedRead_data:
  assumes "LimitedRead k (N, r) = (d, e, (N', r'))" "0 < N"
  shows "N' = N - int (length d)" "0 \<le> N'" "body_bytes r = d @ body_bytes r'" "rd_end r' = rd_end r"
    "e = Some x \<Longrightarrow> x = rd_end r \<and> body_bytes r' = []"
  using assms
  by (auto simp: LimitedRead_def Read_def body_bytes_def split: prod.splits list.splits if_splits)

text \<open>
  A copy that reports no error has written the reader's bytes, all of them or the first \<open>N\<close>,
  and if it stopped short of the limit then the reader ended with \<open>EOF\<close>.
\<close>

lemma copy_loop_ok:
  assumes "copy_loop wr k (N, r) w written = (w', written', None)"
  shows "\<exists>ds. writes wr w ds = Some w' \<and> concat ds = take (nat N) (body_bytes r)
    \<and> written' = written + int (length (concat ds)) \<and> (int (length (body_bytes r)) < N \<longrightarrow> rd_end r = EOF)"
  using assms
proof (induction wr k "(N, r)" w written arbitrary: N r rule: copy_loop.induct)
  case (1 wr k w written N r)
  have k: "k \<noteq> 0" using "1.prems" by (auto simp: copy_loop.simps [of _ k] split: if_splits)
  obtain d er N1 r1 where lr: "LimitedRead k (N, r) = (d, er, (N1, r1))" by (metis prod_cases3 surj_pair)
  show ?case
  proof (cases "0 < N")
    case False
    then have "d = []" "er = Some EOF" using lr by (simp_all add: LimitedRead_def)
    with "1.prems" k lr have "w' = w" "written' = written" by (simp_all add: copy_loop.simps [of _ k])
    with False show ?thesis by (intro exI [of _ "[]"]) simp
  next
    case N: True
    note data = LimitedRead_data [OF lr N]
    obtain w1 wn1 where w1: "(if d = [] then (w, written, None) else copy_write wr w d written) = (w1, wn1, None)"
      using "1.prems" k lr
      by (cases "if d = [] then (w, written, None) else copy_write wr w d written" rule: prod_cases3)
        (auto simp: copy_loop.simps [of _ k] split: option.splits if_splits)
    obtain ds0 where ds0: "writes wr w (ds0 @ ds) = writes wr w1 ds" "concat ds0 = d" "wn1 = written + int (length d)" for ds
      using w1 by (cases "d = []") (auto simp: copy_write_ok intro: that [of "[]"] that [of "[d]"])
    have step: "copy_loop wr k (N, r) w written = (case er of Some EOF \<Rightarrow> (w1, wn1, None)
        | Some (ReadFailed e) \<Rightarrow> (w1, wn1, Some (ReadError e)) | None \<Rightarrow> copy_loop wr k (N1, r1) w1 wn1)"
      using k lr w1 by (subst copy_loop.simps) simp
    have tk: "take (nat N) (body_bytes r) = d @ take (nat N1) (body_bytes r1)"
      using data(1-3) N by (simp add: nat_diff_distrib)
    show ?thesis
    proof (cases er)
      case None
      have "copy_loop wr k (N1, r1) w1 wn1 = (w', written', None)" using step "1.prems" None by simp
      then obtain ds where ds: "writes wr w1 ds = Some w'" "concat ds = take (nat N1) (body_bytes r1)"
        "written' = wn1 + int (length (concat ds))" "int (length (body_bytes r1)) < N1 \<longrightarrow> rd_end r1 = EOF"
        using "1.hyps" [OF k lr [symmetric] refl w1 [symmetric] refl refl None] by blast
      show ?thesis
        using ds ds0 tk data by (intro exI [of _ "ds0 @ ds"]) auto
    next
      case (Some x)
      with step "1.prems" have x: "x = EOF" "w' = w1" "written' = wn1" by (cases x; simp)+
      with data(5) [OF Some] have "rd_end r = EOF" "body_bytes r1 = []" by simp_all
      then show ?thesis using ds0(1) [of "[]"] ds0(2,3) x tk by (intro exI [of _ ds0]) simp
    qed
  qed
qed

text \<open>
  A writer that takes \<open>n\<close> more bytes: it accepts every write within the budget and keeps the
  rest of it. A copy to it from a reader that ends well goes through.
\<close>

definition budget :: "('w, 'e) writer \<Rightarrow> ('w \<Rightarrow> nat \<Rightarrow> bool) \<Rightarrow> bool" where
  "budget wr P \<longleftrightarrow> (\<forall>w n d. P w n \<and> length d \<le> n \<longrightarrow>
     (\<exists>w'. wr w d = (w', int (length d), None) \<and> P w' (n - length d)))"

lemma copy_loop_total:
  assumes "budget wr P" "P w n" "length (take (nat N) (body_bytes r)) \<le> n" "rd_end r = EOF" "0 < k"
  shows "\<exists>w'. copy_loop wr k (N, r) w written = (w', written + int (length (take (nat N) (body_bytes r))), None)
    \<and> P w' (n - length (take (nat N) (body_bytes r)))"
  using assms
proof (induction "work_left (N, r)" arbitrary: N r w n written rule: less_induct)
  case less
  obtain d er N1 r1 where lr: "LimitedRead k (N, r) = (d, er, (N1, r1))" by (metis prod_cases3 surj_pair)
  show ?case
  proof (cases "0 < N")
    case False
    then have "d = []" "er = Some EOF" using lr by (simp_all add: LimitedRead_def)
    with lr less.prems False show ?thesis by (subst copy_loop.simps) simp
  next
    case N: True
    note data = LimitedRead_data [OF lr N]
    have tk: "take (nat N) (body_bytes r) = d @ take (nat N1) (body_bytes r1)"
      using data(1-3) N by (simp add: nat_diff_distrib)
    obtain w1 where w1: "(if d = [] then (w, written, None) else copy_write wr w d written)
        = (w1, written + int (length d), None)" "P w1 (n - length d)"
    proof (cases "d = []")
      case False
      obtain w' where "wr w d = (w', int (length d), None)" "P w' (n - length d)"
        using less.prems(1-3) tk unfolding budget_def by (metis add_leD1 length_append)
      with False show thesis by (intro that [of w']) (simp_all add: copy_write_ok)
    qed (use less.prems that in simp)
    show ?thesis
    proof (cases er)
      case None
      have p: "work_left (N1, r1) < work_left (N, r)" using LimitedRead_progress lr None less.prems by blast
      have "\<exists>w'. copy_loop wr k (N1, r1) w1 (written + int (length d))
          = (w', written + int (length d) + int (length (take (nat N1) (body_bytes r1))), None)
        \<and> P w' (n - length d - length (take (nat N1) (body_bytes r1)))"
        using less.prems tk data w1(2) by (intro less.hyps [OF p]) auto
      then show ?thesis using lr None w1 less.prems tk by (subst copy_loop.simps) (auto simp: add.assoc)
    next
      case (Some x)
      with data(5) [OF Some] less.prems have "x = EOF" "body_bytes r1 = []" by simp_all
      then show ?thesis using lr Some w1 less.prems tk by (subst copy_loop.simps) simp
    qed
  qed
qed

text \<open>An invariant of the writer holds after any copy, and its errors are the writer's.\<close>

lemma copy_loop_inv:
  assumes "\<And>w d w' n e. P w \<Longrightarrow> wr w d = (w', n, e) \<Longrightarrow> P w' \<and> (\<forall>x. e = Some x \<longrightarrow> Q x)" "P w"
    "copy_loop wr k l w written = (w', written', e)"
  shows "P w' \<and> (\<forall>x. e = Some (WriteFailed x) \<longrightarrow> Q x)"
  using assms(2,3)
proof (induction "work_left l" arbitrary: l w written rule: less_induct)
  case less
  show ?case
  proof (cases "k = 0")
    case True
    then show ?thesis using less.prems by (auto simp: copy_loop.simps [of wr 0])
  next
    case False
    obtain d er l1 where lr: "LimitedRead k l = (d, er, l1)" by (metis prod_cases3)
    obtain w1 wn1 e1 where w1: "(if d = [] then (w, written, None) else copy_write wr w d written) = (w1, wn1, e1)"
      by (metis prod_cases3)
    have p: "P w1 \<and> (\<forall>x. e1 = Some (WriteFailed x) \<longrightarrow> Q x)"
    proof (cases "d = []")
      case True
      then show ?thesis using w1 less.prems(1) by simp
    next
      case False
      obtain w2 n2 e2 where w2: "wr w d = (w2, n2, e2)" by (metis prod_cases3)
      then show ?thesis
        using w1 False assms(1) [OF less.prems(1) w2]
        by (auto simp: copy_write_def Let_def split: option.splits if_splits)
    qed
    have step: "copy_loop wr k l w written = (case e1 of Some e \<Rightarrow> (w1, wn1, Some e) | None \<Rightarrow> (case er of
        Some EOF \<Rightarrow> (w1, wn1, None) | Some (ReadFailed x) \<Rightarrow> (w1, wn1, Some (ReadError x))
        | None \<Rightarrow> copy_loop wr k l1 w1 wn1))"
      using False lr w1 by (subst copy_loop.simps) (simp split: option.split)
    show ?thesis
    proof (cases "e1 = None \<and> er = None")
      case True
      then have "work_left l1 < work_left l" using LimitedRead_progress lr False by blast
      then show ?thesis using less.hyps p step less.prems(2) True by simp
    next
      case False
      then show ?thesis using step less.prems(2) p by (auto split: option.splits read_end.splits)
    qed
  qed
qed

end
