(* ===== verification/StorageClient.thy ===== *)
theory StorageClient
  imports DomainModel GoEncoding GoIO
begin

text \<open>
  \<open>internal/client\<close> and the fetcher of \<open>internal/archive/zip.go\<close>: one request to the storage
  server that hosts a file. The HTTP stack is a parameter: how \<open>url.Parse\<close> splits a URL into
  the text before the query, the query values and the fragment, whether \<open>http.NewRequest\<close>
  takes a URL, and what \<open>Do\<close> answers to a request.
\<close>

section \<open>The request and its answer\<close>

record ServerConfig =
  sc_BaseURL :: string
  sc_APIKey :: string

datatype client_error =
    ErrUnknownServer string
  | BuildStorageURL string
  | BuildStorageRequest string
  | RequestFromServer string string
  | ErrStorageResponse string int

type_synonym url_values = "(string \<times> string list) list"

record parsed_url =
  u_base :: string
  u_query :: url_values
  u_fragment :: string

record http_request =
  rq_url :: string
  rq_header :: "(string \<times> string) list"

record http_response =
  rs_StatusCode :: int
  rs_Body :: reader

record http_stack =
  hs_parse :: "string \<Rightarrow> (string, parsed_url) result"
  hs_newRequest :: "string \<Rightarrow> string option"
  hs_do :: "http_request \<Rightarrow> (string, http_response) result"

definition storageAPITokenHeader :: string where
  "storageAPITokenHeader = ''X-API-Token''"

definition downloadPath :: string where
  "downloadPath = ''/internal/files/download''"

text \<open>\<open>url.Values\<close>: \<open>Set\<close> replaces the values of a key, \<open>Encode\<close> writes the keys in order.\<close>

definition values_Set :: "url_values \<Rightarrow> string \<Rightarrow> string \<Rightarrow> url_values" where
  "values_Set q k v = filter (\<lambda>(k', _). k' \<noteq> k) q @ [(k, [v])]"

definition values_Encode :: "url_values \<Rightarrow> string" where
  "values_Encode q =
     join_with (CHR ''&'')
       (concat (map (\<lambda>(k, vs). map (\<lambda>v. QueryEscape k @ ''='' @ QueryEscape v) vs) (sort_key fst q)))"

definition url_String :: "parsed_url \<Rightarrow> string \<Rightarrow> string" where
  "url_String u rawQuery = u_base u @ (if rawQuery = [] then [] else ''?'' @ rawQuery) @ u_fragment u"

section \<open>The client\<close>

type_synonym httpStorageClient = "string \<rightharpoonup> ServerConfig"

definition NewHTTPStorageClient :: "(string \<rightharpoonup> ServerConfig) \<Rightarrow> httpStorageClient" where
  "NewHTTPStorageClient servers =
     (\<lambda>k. case servers k of None \<Rightarrow> None
        | Some v \<Rightarrow> Some (v\<lparr>sc_BaseURL := TrimSuffix (sc_BaseURL v) ''/''\<rparr>))"

text \<open>The request; the key goes with it only when there is one.\<close>

definition storage_request :: "string \<Rightarrow> string \<Rightarrow> http_request" where
  "storage_request url key =
     \<lparr>rq_url = url, rq_header = (if key \<noteq> [] then [(storageAPITokenHeader, key)] else [])\<rparr>"

definition client_Get ::
  "http_stack \<Rightarrow> httpStorageClient \<Rightarrow> string \<Rightarrow> string \<Rightarrow> (client_error, http_response) result" where
  "client_Get http c hostAddress location =
     (case c hostAddress of
        None \<Rightarrow> Err (ErrUnknownServer hostAddress)
      | Some cfg \<Rightarrow>
          case hs_parse http (sc_BaseURL cfg @ downloadPath) of
            Inl e \<Rightarrow> Err (BuildStorageURL e)
          | Inr u \<Rightarrow>
              let url = url_String u (values_Encode (values_Set (u_query u) ''file_location'' location))
              in case hs_newRequest http url of
                   Some e \<Rightarrow> Err (BuildStorageRequest e)
                 | None \<Rightarrow>
                     case hs_do http (storage_request url (sc_APIKey cfg)) of
                       Inl e \<Rightarrow> Err (RequestFromServer hostAddress e)
                     | Inr resp \<Rightarrow>
                         if rs_StatusCode resp < 200 \<or> 300 \<le> rs_StatusCode resp
                         then Err (ErrStorageResponse hostAddress (rs_StatusCode resp))
                         else Ok resp)"

definition Fetch ::
  "http_stack \<Rightarrow> httpStorageClient \<Rightarrow> ArchiveFile \<Rightarrow> (client_error, reader) result" where
  "Fetch http c af =
     (case client_Get http c (af_HostedAt af) (af_FileLocation af) of
        Inl e \<Rightarrow> Err e | Inr resp \<Rightarrow> Ok (rs_Body resp))"

text \<open>The map of servers that \<open>run\<close> in \<open>cmd/server/main.go\<close> builds from the database's rows.\<close>

fun server_map :: "StorageServer list \<Rightarrow> (string \<rightharpoonup> ServerConfig) \<Rightarrow> (string \<rightharpoonup> ServerConfig)" where
  "server_map [] m = m"
| "server_map (s # ss) m =
     server_map ss (m(ss_HostAddress s \<mapsto> \<lparr>sc_BaseURL = ss_HostAddress s, sc_APIKey = ss_APIKey s\<rparr>))"

section \<open>Claims\<close>

lemma server_map_other:
  "h \<notin> ss_HostAddress ` set ss \<Longrightarrow> server_map ss m h = m h"
  by (induction ss arbitrary: m) auto

lemma server_map_row:
  assumes "distinct (map ss_HostAddress ss)" "s \<in> set ss"
  shows "server_map ss m (ss_HostAddress s) = Some \<lparr>sc_BaseURL = ss_HostAddress s, sc_APIKey = ss_APIKey s\<rparr>"
  using assms
proof (induction ss arbitrary: m)
  case (Cons a ss)
  then show ?case by (cases "s = a") (auto simp: server_map_other)
qed simp

text \<open>
  C32. With the servers loaded from the database, fetching a file sends one request, to the
  server that hosts it and with that server's key only, and the location that the server reads
  back from the query is the file's location byte for byte; the body is handed on for a 2xx
  status and the status is reported as an error for every other one.
\<close>

theorem fetch_from_hosting_server:
  assumes "distinct (map ss_HostAddress servers)" "s \<in> set servers" "af_HostedAt af = ss_HostAddress s"
    "url = TrimSuffix (ss_HostAddress s) ''/'' @ downloadPath"
    "hs_parse http url = Ok \<lparr>u_base = url, u_query = [], u_fragment = []\<rparr>"
    "req = \<lparr>rq_url = url @ ''?file_location='' @ QueryEscape (af_FileLocation af),
       rq_header = (if ss_APIKey s = [] then [] else [(''X-API-Token'', ss_APIKey s)])\<rparr>"
    "hs_newRequest http (rq_url req) = None"
  shows "Fetch http (NewHTTPStorageClient (server_map servers Map.empty)) af =
      (case hs_do http req of
         Inl e \<Rightarrow> Err (RequestFromServer (af_HostedAt af) e)
       | Inr resp \<Rightarrow>
           if 200 \<le> rs_StatusCode resp \<and> rs_StatusCode resp < 300 then Ok (rs_Body resp)
           else Err (ErrStorageResponse (af_HostedAt af) (rs_StatusCode resp)))
    \<and> QueryUnescape (QueryEscape (af_FileLocation af)) = Some (af_FileLocation af)"
proof -
  have k: "QueryEscape ''file_location'' = ''file_location''"
    by (simp add: QueryEscape_def unreserved_def byte_def)
  have q: "values_Encode (values_Set [] ''file_location'' l) = ''file_location='' @ QueryEscape l" for l
    by (simp add: values_Encode_def values_Set_def k)
  have c: "NewHTTPStorageClient (server_map servers Map.empty) (af_HostedAt af)
      = Some \<lparr>sc_BaseURL = TrimSuffix (ss_HostAddress s) ''/'', sc_APIKey = ss_APIKey s\<rparr>"
    using server_map_row [OF assms(1,2)] assms(3) by (simp add: NewHTTPStorageClient_def)
  have u: "rq_url req = url_String \<lparr>u_base = url, u_query = [], u_fragment = []\<rparr>
      (values_Encode (values_Set [] ''file_location'' (af_FileLocation af)))"
    by (simp add: assms(6) url_String_def q)
  have r: "storage_request (rq_url req) (ss_APIKey s) = req"
    by (simp add: assms(6) storage_request_def storageAPITokenHeader_def)
  show ?thesis
    using assms(5,7) c
    by (auto simp: Fetch_def client_Get_def assms(4) [symmetric] u [symmetric] r Let_def
        QueryUnescape_QueryEscape split: sum.split)
qed

definition wit_http :: http_stack where
  "wit_http = \<lparr>hs_parse = (\<lambda>u. Ok \<lparr>u_base = u, u_query = [], u_fragment = []\<rparr>), hs_newRequest = (\<lambda>_. None),
     hs_do = (\<lambda>r. if r = \<lparr>rq_url = ''http://s/internal/files/download?file_location=a%2Fb'',
         rq_header = [(''X-API-Token'', ''K'')]\<rparr>
       then Ok \<lparr>rs_StatusCode = 200, rs_Body = \<lparr>rd_chunks = [''data''], rd_end = EOF, rd_eager = False\<rparr>\<rparr>
       else Ok \<lparr>rs_StatusCode = 404, rs_Body = \<lparr>rd_chunks = [], rd_end = EOF, rd_eager = False\<rparr>\<rparr>)\<rparr>"

definition wit_hosted :: ArchiveFile where
  "wit_hosted = \<lparr>af_FileID = ''f'', af_FileName = ''x'', af_ArchivePath = ''r/x'', af_FileVersion = 1,
     af_HostedAt = ''http://s/'', af_FileLocation = ''a/b'', af_FileSize = 4, af_FileHash = []\<rparr>"

theorem fetch_from_hosting_server_witness:
  "Fetch wit_http (NewHTTPStorageClient (server_map
       [\<lparr>ss_HostAddress = ''http://s/'', ss_APIKey = ''K''\<rparr>] Map.empty)) wit_hosted
     = Ok \<lparr>rd_chunks = [''data''], rd_end = EOF, rd_eager = False\<rparr>"
proof -
  let ?s = "\<lparr>ss_HostAddress = ''http://s/'', ss_APIKey = ''K''\<rparr>"
  let ?url = "''http://s/internal/files/download''"
  let ?req = "\<lparr>rq_url = ?url @ ''?file_location='' @ QueryEscape ''a/b'', rq_header = [(''X-API-Token'', ''K'')]\<rparr>"
  have t: "TrimSuffix ''http://s/'' ''/'' = ''http://s''" by (simp add: TrimSuffix_def HasSuffix_def suffix_def)
  have q: "QueryEscape ''a/b'' = ''a%2Fb''"
    by (simp add: QueryEscape_def unreserved_def byte_def percent_def hex_digit_def)
  show ?thesis
    using fetch_from_hosting_server [of "[?s]" ?s wit_hosted ?url wit_http ?req]
    by (simp add: wit_http_def wit_hosted_def t q downloadPath_def)
qed

text \<open>
  A file whose server is not among the database's rows is refused as an unknown server,
  whatever the network would answer: no request is made for it and no other server's key is used.
\<close>

lemma fetch_unknown_server:
  assumes "af_HostedAt af \<notin> ss_HostAddress ` set servers"
  shows "Fetch http (NewHTTPStorageClient (server_map servers Map.empty)) af
    = Err (ErrUnknownServer (af_HostedAt af))"
  using assms by (simp add: Fetch_def client_Get_def NewHTTPStorageClient_def server_map_other)

end
