(* ===== verification/Generator.thy ===== *)
theory Generator
  imports PathSanitizer StorageClient
begin

text \<open>
  \<open>internal/archive/zip.go\<close>: streaming a manifest into a ZIP or TAR archive. The archive that
  the container writers produce is the list of entries they were told to write; their bytes on
  disk are not modelled. Every call that reaches the output may be refused: \<open>out_fault n\<close> is
  what the \<open>n\<close>-th such call runs into (a full disk, a name the format cannot encode), with the
  number of bytes that still went through. The state of the TAR writer includes the number of
  bytes the current entry still owes, as \<open>archive/tar\<close> keeps it.
\<close>

section \<open>The container writers\<close>

datatype entry = FileEntry string "int option" bytes | DirEntry string

datatype out_error =
    OutputFault string
  | MissedWriting int
  | WriteTooLong
  | SliceOutOfRange

type_synonym out_fault = "nat \<Rightarrow> (nat \<times> string) option"

record archive_out =
  ao_tar :: bool
  ao_entries :: "entry list"
  ao_remaining :: int
  ao_closed :: bool
  ao_calls :: nat

definition newArchiveWriter :: "ExportType \<Rightarrow> archive_out" where
  "newArchiveWriter exportType =
     \<lparr>ao_tar = (exportType = ExportTypeTar), ao_entries = [], ao_remaining = 0, ao_closed = False, ao_calls = 0\<rparr>"

fun extend_entry :: "bytes \<Rightarrow> entry \<Rightarrow> entry" where
  "extend_entry d (FileEntry p n c) = FileEntry p n (c @ d)"
| "extend_entry d (DirEntry p) = DirEntry p"

definition add_data :: "bytes \<Rightarrow> archive_out \<Rightarrow> archive_out" where
  "add_data d o' = o'\<lparr>ao_entries := (if ao_entries o' = [] then []
     else butlast (ao_entries o') @ [extend_entry d (last (ao_entries o'))])\<rparr>"

definition add_entry :: "entry \<Rightarrow> int \<Rightarrow> archive_out \<Rightarrow> archive_out" where
  "add_entry e sz o' = o'\<lparr>ao_entries := ao_entries o' @ [e], ao_remaining := sz\<rparr>"

definition next_call :: "archive_out \<Rightarrow> archive_out" where
  "next_call o' = o'\<lparr>ao_calls := Suc (ao_calls o')\<rparr>"

definition output_ok :: "out_fault \<Rightarrow> archive_out \<Rightarrow> (out_error, unit) result" where
  "output_ok fault o' = (case fault (ao_calls o') of None \<Rightarrow> Ok () | Some (_, e) \<Rightarrow> Err (OutputFault e))"

text \<open>\<open>tar.Writer.Flush\<close>: an entry that got fewer bytes than declared is an error.\<close>

definition tar_Flush :: "archive_out \<Rightarrow> (out_error, unit) result" where
  "tar_Flush o' = (if 0 < ao_remaining o' then Err (MissedWriting (ao_remaining o')) else Ok ())"

definition zip_CreateFile :: "out_fault \<Rightarrow> archive_out \<Rightarrow> string \<Rightarrow> (out_error, archive_out) result" where
  "zip_CreateFile fault o' path =
     (case output_ok fault o' of Inl e \<Rightarrow> Err e
      | Inr _ \<Rightarrow> Ok (add_entry (FileEntry path None []) 0 (next_call o')))"

definition tar_CreateFile :: "out_fault \<Rightarrow> archive_out \<Rightarrow> string \<Rightarrow> int \<Rightarrow> (out_error, archive_out) result" where
  "tar_CreateFile fault o' path sz =
     (case tar_Flush o' of Inl e \<Rightarrow> Err e
      | Inr _ \<Rightarrow>
          case output_ok fault o' of Inl e \<Rightarrow> Err e
          | Inr _ \<Rightarrow> Ok (add_entry (FileEntry path (Some sz) []) sz (next_call o')))"

definition CreateFile :: "out_fault \<Rightarrow> archive_out \<Rightarrow> string \<Rightarrow> int \<Rightarrow> (out_error, archive_out) result" where
  "CreateFile fault o' path sz =
     (if ao_tar o' then tar_CreateFile fault o' path sz else zip_CreateFile fault o' path)"

definition zip_CreateDir :: "out_fault \<Rightarrow> archive_out \<Rightarrow> string \<Rightarrow> (out_error, archive_out) result" where
  "zip_CreateDir fault o' path =
     (case output_ok fault o' of Inl e \<Rightarrow> Err e
      | Inr _ \<Rightarrow> Ok (add_entry (DirEntry (path @ ''/'')) 0 (next_call o')))"

definition tar_CreateDir :: "out_fault \<Rightarrow> archive_out \<Rightarrow> string \<Rightarrow> (out_error, archive_out) result" where
  "tar_CreateDir fault o' path =
     (case tar_Flush o' of Inl e \<Rightarrow> Err e
      | Inr _ \<Rightarrow>
          case output_ok fault o' of Inl e \<Rightarrow> Err e
          | Inr _ \<Rightarrow> Ok (add_entry (DirEntry (path @ ''/'')) 0 (next_call o')))"

definition CreateDir :: "out_fault \<Rightarrow> archive_out \<Rightarrow> string \<Rightarrow> (out_error, archive_out) result" where
  "CreateDir fault o' path =
     (if ao_tar o' then tar_CreateDir fault o' path else zip_CreateDir fault o' path)"

definition zip_Close :: "out_fault \<Rightarrow> archive_out \<Rightarrow> (out_error, archive_out) result" where
  "zip_Close fault o' =
     (case output_ok fault o' of Inl e \<Rightarrow> Err e | Inr _ \<Rightarrow> Ok ((next_call o')\<lparr>ao_closed := True\<rparr>))"

definition tar_Close :: "out_fault \<Rightarrow> archive_out \<Rightarrow> (out_error, archive_out) result" where
  "tar_Close fault o' =
     (case tar_Flush o' of Inl e \<Rightarrow> Err e
      | Inr _ \<Rightarrow>
          case output_ok fault o' of Inl e \<Rightarrow> Err e
          | Inr _ \<Rightarrow> Ok ((next_call o')\<lparr>ao_closed := True\<rparr>))"

definition aw_Close :: "out_fault \<Rightarrow> archive_out \<Rightarrow> (out_error, archive_out) result" where
  "aw_Close fault o' = (if ao_tar o' then tar_Close fault o' else zip_Close fault o')"

lemmas aw_Close_defs = aw_Close_def zip_Close_def tar_Close_def tar_Flush_def

text \<open>
  The entry writer. \<open>archive/tar\<close> cuts a write at the declared size and reports the excess;
  with a negative declared size the cut is out of range, which panics in Go.
\<close>

definition out_Write :: "out_fault \<Rightarrow> archive_out \<Rightarrow> bytes \<Rightarrow> archive_out \<times> int \<times> out_error option" where
  "out_Write fault o' d =
     (case fault (ao_calls o') of
        Some (m, e) \<Rightarrow> (next_call (add_data (take m d) o'), int (length (take m d)), Some (OutputFault e))
      | None \<Rightarrow> (next_call (add_data d o'), int (length d), None))"

definition tar_Write :: "out_fault \<Rightarrow> archive_out \<Rightarrow> bytes \<Rightarrow> archive_out \<times> int \<times> out_error option" where
  "tar_Write fault o' d =
     (if ao_remaining o' < 0 then (o', 0, Some SliceOutOfRange)
      else
        let overwrite = (ao_remaining o' < int (length d));
            d' = (if overwrite then take (nat (ao_remaining o')) d else d);
            (o'', n, e) = (if d' = [] then (o', 0, None) else out_Write fault o' d')
        in (o''\<lparr>ao_remaining := ao_remaining o' - n\<rparr>, n,
            case e of Some e \<Rightarrow> Some e | None \<Rightarrow> if overwrite then Some WriteTooLong else None))"

definition entry_Write :: "out_fault \<Rightarrow> (archive_out, out_error) writer" where
  "entry_Write fault o' d = (if ao_tar o' then tar_Write fault o' d else out_Write fault o' d)"

section \<open>The generator\<close>

datatype writefile_error =
    FetchFromStorage client_error
  | CreateArchiveEntry out_error
  | StreamFileContent "out_error copy_error"
  | WriteSizeLimitExceeded int

datatype gen_error =
    ContextDone string
  | FilePathError string sanitize_error
  | ErrSizeLimitExceeded int
  | WriteFileError string string writefile_error
  | FolderPathError string sanitize_error
  | CreateDirectoryEntry string out_error
  | CloseArchiveWriter out_error

record Generator =
  g_MaxSizeBytes :: int
  g_copyBufSize :: nat

definition NewGenerator :: "int \<Rightarrow> Generator" where
  "NewGenerator maxSizeBytes = \<lparr>g_MaxSizeBytes = maxSizeBytes, g_copyBufSize = 2 ^ 20\<rparr>"

text \<open>
  What the outside does during one generation: the fetched bodies, the output's faults and
  what \<open>ctx.Err()\<close> says before each file.
\<close>

record gen_env =
  ge_fetch :: "ArchiveFile \<Rightarrow> (client_error, reader) result"
  ge_fault :: out_fault
  ge_ctx :: "int \<Rightarrow> string option"

definition writeFile ::
  "Generator \<Rightarrow> gen_env \<Rightarrow> archive_out \<Rightarrow> string \<Rightarrow> ArchiveFile \<Rightarrow> int
     \<Rightarrow> archive_out \<times> int \<times> writefile_error option" where
  "writeFile g env aw archivePath f processedBytes =
     (case ge_fetch env f of
        Inl e \<Rightarrow> (aw, processedBytes, Some (FetchFromStorage e))
      | Inr body \<Rightarrow>
          case CreateFile (ge_fault env) aw archivePath (af_FileSize f) of
            Inl e \<Rightarrow> (aw, processedBytes, Some (CreateArchiveEntry e))
          | Inr aw1 \<Rightarrow>
              let limited = (wrap64 (wrap64 (g_MaxSizeBytes g - processedBytes) + 1), body)
              in case CopyBuffer (entry_Write (ge_fault env)) (g_copyBufSize g) limited aw1 of
                   (aw2, n, Some e) \<Rightarrow> (aw2, processedBytes, Some (StreamFileContent e))
                 | (aw2, n, None) \<Rightarrow>
                     let processedBytes = wrap64 (processedBytes + n)
                     in (aw2, processedBytes,
                         if g_MaxSizeBytes g < processedBytes
                         then Some (WriteSizeLimitExceeded (g_MaxSizeBytes g)) else None))"

text \<open>The loop over the files; the calls of \<open>onProgress\<close> are collected in order.\<close>

definition gen_file ::
  "Generator \<Rightarrow> gen_env \<Rightarrow> ArchiveFile \<Rightarrow> archive_out \<Rightarrow> int \<Rightarrow> int \<Rightarrow> archive_out \<times> int \<times> gen_error option" where
  "gen_file g env f aw processedBytes processedFiles =
     (case ge_ctx env processedFiles of
        Some e \<Rightarrow> (aw, processedBytes, Some (ContextDone e))
      | None \<Rightarrow>
          case sanitizeArchivePath (af_ArchivePath f) of
            Inl e \<Rightarrow> (aw, processedBytes, Some (FilePathError (af_FileID f) e))
          | Inr archivePath \<Rightarrow>
              if g_MaxSizeBytes g < wrap64 (processedBytes + af_FileSize f)
              then (aw, processedBytes, Some (ErrSizeLimitExceeded (g_MaxSizeBytes g)))
              else case writeFile g env aw archivePath f processedBytes of
                     (aw', processedBytes', e) \<Rightarrow>
                       (aw', processedBytes', map_option (WriteFileError (af_FileID f) (af_ArchivePath f)) e))"

fun gen_files ::
  "Generator \<Rightarrow> gen_env \<Rightarrow> ArchiveFile list \<Rightarrow> archive_out \<Rightarrow> int \<Rightarrow> int \<Rightarrow> (int \<times> int) list
     \<Rightarrow> archive_out \<times> (int \<times> int) list \<times> gen_error option" where
  "gen_files g env [] aw processedBytes processedFiles progress = (aw, progress, None)"
| "gen_files g env (f # fs) aw processedBytes processedFiles progress =
     (case gen_file g env f aw processedBytes processedFiles of
        (aw', processedBytes', Some e) \<Rightarrow> (aw', progress, Some e)
      | (aw', processedBytes', None) \<Rightarrow>
          gen_files g env fs aw' processedBytes' (processedFiles + 1) (progress @ [(processedFiles + 1, processedBytes')]))"

definition gen_dir :: "gen_env \<Rightarrow> ArchiveFolder \<Rightarrow> archive_out \<Rightarrow> archive_out \<times> gen_error option" where
  "gen_dir env d aw =
     (case sanitizeArchivePath (fd_ArchivePath d) of
        Inl e \<Rightarrow> (aw, Some (FolderPathError (fd_FolderID d) e))
      | Inr dirPath \<Rightarrow>
          case CreateDir (ge_fault env) aw dirPath of
            Inl e \<Rightarrow> (aw, Some (CreateDirectoryEntry dirPath e))
          | Inr aw' \<Rightarrow> (aw', None))"

fun gen_dirs :: "gen_env \<Rightarrow> ArchiveFolder list \<Rightarrow> archive_out \<Rightarrow> archive_out \<times> gen_error option" where
  "gen_dirs env [] aw = (aw, None)"
| "gen_dirs env (d # ds) aw =
     (case gen_dir env d aw of
        (aw', Some e) \<Rightarrow> (aw', Some e)
      | (aw', None) \<Rightarrow> gen_dirs env ds aw')"

definition Generate ::
  "Generator \<Rightarrow> gen_env \<Rightarrow> ArchiveManifest \<Rightarrow> archive_out \<times> (int \<times> int) list \<times> gen_error option" where
  "Generate g env manifest =
     (case gen_files g env (mf_Files manifest) (newArchiveWriter (mf_ExportType manifest)) 0 0 [] of
        (aw, progress, Some e) \<Rightarrow> (aw, progress, Some e)
      | (aw, progress, None) \<Rightarrow>
          case gen_dirs env (mf_EmptyFolders manifest) aw of
            (aw, Some e) \<Rightarrow> (aw, progress, Some e)
          | (aw, None) \<Rightarrow>
              case aw_Close (ge_fault env) aw of
                Inl e \<Rightarrow> (aw, progress, Some (CloseArchiveWriter e))
              | Inr aw' \<Rightarrow> (aw', progress, None))"

section \<open>What one call adds\<close>

lemma add_data_last:
  assumes "ao_entries o' = xs @ [FileEntry p n c]"
  shows "ao_entries (add_data d o') = xs @ [FileEntry p n (c @ d)]"
  using assms by (simp add: add_data_def)

lemma frame_add [simp]:
  "ao_tar (add_data d o') = ao_tar o'" "ao_closed (add_data d o') = ao_closed o'"
  "ao_remaining (add_data d o') = ao_remaining o'"
  "ao_tar (next_call o') = ao_tar o'" "ao_closed (next_call o') = ao_closed o'"
  "ao_entries (next_call o') = ao_entries o'" "ao_remaining (next_call o') = ao_remaining o'"
  "ao_tar (add_entry e n o') = ao_tar o'" "ao_closed (add_entry e n o') = ao_closed o'"
  "ao_entries (add_entry e n o') = ao_entries o' @ [e]" "ao_remaining (add_entry e n o') = n"
  by (simp_all add: add_data_def next_call_def add_entry_def)

lemma entry_Write_ok:
  assumes "entry_Write fault o' d = (o2, int (length d), None)" "ao_entries o' = xs @ [FileEntry p n c]"
  shows "ao_entries o2 = xs @ [FileEntry p n (c @ d)]" "ao_tar o2 = ao_tar o'" "ao_closed o2 = ao_closed o'"
    "ao_tar o' \<Longrightarrow> ao_remaining o2 = ao_remaining o' - int (length d) \<and> 0 \<le> ao_remaining o2"
  using assms add_data_last [OF assms(2)]
  by (auto simp: entry_Write_def tar_Write_def out_Write_def Let_def split: if_splits option.splits prod.splits)

lemma writes_entry:
  assumes "writes (entry_Write fault) o' ds = Some o2" "ao_entries o' = xs @ [FileEntry p n c]"
  shows "ao_entries o2 = xs @ [FileEntry p n (c @ concat ds)] \<and> ao_tar o2 = ao_tar o' \<and> ao_closed o2 = ao_closed o'
    \<and> (ao_tar o' \<longrightarrow> ao_remaining o2 = ao_remaining o' - int (length (concat ds))
        \<and> (0 \<le> ao_remaining o' \<longrightarrow> 0 \<le> ao_remaining o2))"
  using assms
proof (induction ds arbitrary: o' c)
  case (Cons d ds)
  obtain o1 where o1: "entry_Write fault o' d = (o1, int (length d), None)" "writes (entry_Write fault) o1 ds = Some o2"
    using Cons.prems(1) by (auto split: prod.splits if_splits)
  note w = entry_Write_ok [OF o1(1) Cons.prems(2)]
  from Cons.IH [OF o1(2) w(1)] w show ?case by auto
qed simp

lemma CreateFile_ok:
  assumes "CreateFile fault o' path sz = Ok o1"
  shows "ao_entries o1 = ao_entries o' @ [FileEntry path (if ao_tar o' then Some sz else None) []]"
    "ao_tar o1 = ao_tar o'" "ao_closed o1 = ao_closed o'"
    "ao_tar o' \<Longrightarrow> ao_remaining o' \<le> 0 \<and> ao_remaining o1 = sz"
  using assms
  by (auto simp: CreateFile_def tar_CreateFile_def zip_CreateFile_def tar_Flush_def split: if_splits sum.splits)

lemma CreateDir_ok:
  assumes "CreateDir fault o' path = Ok o1"
  shows "ao_entries o1 = ao_entries o' @ [DirEntry (path @ ''/'')]" "ao_tar o1 = ao_tar o'"
    "ao_closed o1 = ao_closed o'" "ao_tar o' \<Longrightarrow> ao_remaining o' \<le> 0"
  using assms
  by (auto simp: CreateDir_def tar_CreateDir_def zip_CreateDir_def tar_Flush_def split: if_splits sum.splits)

section \<open>The specification of a finished archive\<close>

definition file_entry :: "bool \<Rightarrow> gen_env \<Rightarrow> ArchiveFile \<Rightarrow> entry \<Rightarrow> bool" where
  "file_entry tar env f e \<longleftrightarrow>
     (\<exists>p body. sanitizeArchivePath (af_ArchivePath f) = Ok p \<and> ge_fetch env f = Ok body \<and> rd_end body = EOF
        \<and> e = FileEntry p (if tar then Some (af_FileSize f) else None) (body_bytes body)
        \<and> (tar \<and> 0 \<le> af_FileSize f \<longrightarrow> int (length (body_bytes body)) = af_FileSize f))"

definition dir_entry :: "ArchiveFolder \<Rightarrow> entry \<Rightarrow> bool" where
  "dir_entry d e \<longleftrightarrow> (\<exists>p. sanitizeArchivePath (fd_ArchivePath d) = Ok p \<and> e = DirEntry (p @ ''/''))"

fun entry_bytes :: "entry \<Rightarrow> int" where
  "entry_bytes (FileEntry p n c) = int (length c)"
| "entry_bytes (DirEntry p) = 0"

text \<open>The running counts after each entry.\<close>

fun progress_of :: "int \<Rightarrow> int \<Rightarrow> entry list \<Rightarrow> (int \<times> int) list" where
  "progress_of n b [] = []"
| "progress_of n b (e # es) = (n + 1, b + entry_bytes e) # progress_of (n + 1) (b + entry_bytes e) es"

lemma limit_eq:
  assumes "0 \<le> b" "b \<le> m" "m < 2 ^ 63 - 1"
  shows "wrap64 (wrap64 (m - b) + 1) = m - b + 1"
  using assms by (simp add: is_int64_def)

lemma writeFile_ok:
  assumes w: "writeFile g env aw path f b = (aw2, b2, None)"
    and b: "0 \<le> b" "b \<le> g_MaxSizeBytes g" "g_MaxSizeBytes g < 2 ^ 63 - 1"
  obtains body where "ge_fetch env f = Ok body" "rd_end body = EOF"
    "ao_entries aw2 = ao_entries aw @ [FileEntry path (if ao_tar aw then Some (af_FileSize f) else None) (body_bytes body)]"
    "ao_tar aw2 = ao_tar aw" "ao_closed aw2 = ao_closed aw"
    "b2 = b + int (length (body_bytes body))" "b2 \<le> g_MaxSizeBytes g"
    "ao_tar aw \<Longrightarrow> ao_remaining aw \<le> 0"
    "ao_tar aw \<Longrightarrow> ao_remaining aw2 = af_FileSize f - int (length (body_bytes body))"
    "ao_tar aw \<Longrightarrow> 0 \<le> af_FileSize f \<Longrightarrow> 0 \<le> ao_remaining aw2"
proof -
  let ?m = "g_MaxSizeBytes g"
  obtain body aw1 n where h: "ge_fetch env f = Ok body" "CreateFile (ge_fault env) aw path (af_FileSize f) = Ok aw1"
    and c: "copy_loop (entry_Write (ge_fault env)) (g_copyBufSize g) (?m - b + 1, body) aw1 0 = (aw2, n, None)"
    and b2: "b2 = wrap64 (b + n)" "b2 \<le> ?m"
    using w unfolding writeFile_def CopyBuffer_def limit_eq [OF b]
    by (auto simp: Let_def split: sum.splits prod.splits option.splits if_splits)
  obtain ds where ds: "writes (entry_Write (ge_fault env)) aw1 ds = Some aw2"
    "concat ds = take (nat (?m - b + 1)) (body_bytes body)" "n = int (length (concat ds))"
    "int (length (body_bytes body)) < ?m - b + 1 \<longrightarrow> rd_end body = EOF"
    using copy_loop_ok [OF c] by auto
  have "n \<le> ?m - b + 1" using ds b by simp
  then have "b2 = b + n" using b2 b ds(3) by (simp add: is_int64_def)
  with b2 have n: "n < ?m - b + 1" by simp
  then have all: "concat ds = body_bytes body" using ds(2,3) b by simp
  note cf = CreateFile_ok [OF h(2)]
  note we = writes_entry [OF ds(1) cf(1)]
  show thesis
    using h cf we all ds(3,4) n b2 \<open>b2 = b + n\<close> by (intro that [of body]) auto
qed

text \<open>
  One round of the loop. Whether a TAR entry got all its bytes shows only at the next flush, so
  the entry is right once the writer owes nothing any more.
\<close>

lemma gen_file_ok:
  assumes g: "gen_file g env f aw b n = (aw1, b1, None)"
    and b: "0 \<le> b" "b \<le> g_MaxSizeBytes g" "g_MaxSizeBytes g < 2 ^ 63 - 1"
  obtains e where "ao_entries aw1 = ao_entries aw @ [e]"
    "ao_tar aw \<longrightarrow> ao_remaining aw1 \<le> 0 \<Longrightarrow> file_entry (ao_tar aw) env f e"
    "ao_tar aw1 = ao_tar aw" "ao_closed aw1 = ao_closed aw" "ao_tar aw \<longrightarrow> ao_remaining aw \<le> 0"
    "b1 = b + entry_bytes e" "0 \<le> b1" "b1 \<le> g_MaxSizeBytes g"
proof -
  obtain path where p: "sanitizeArchivePath (af_ArchivePath f) = Ok path" "writeFile g env aw path f b = (aw1, b1, None)"
    using g by (auto simp: gen_file_def split: option.splits sum.splits if_splits prod.splits)
  obtain body where w: "ge_fetch env f = Ok body" "rd_end body = EOF"
    "ao_entries aw1 = ao_entries aw @ [FileEntry path (if ao_tar aw then Some (af_FileSize f) else None) (body_bytes body)]"
    "ao_tar aw1 = ao_tar aw" "ao_closed aw1 = ao_closed aw"
    "b1 = b + int (length (body_bytes body))" "b1 \<le> g_MaxSizeBytes g"
    "ao_tar aw \<Longrightarrow> ao_remaining aw \<le> 0"
    "ao_tar aw \<Longrightarrow> ao_remaining aw1 = af_FileSize f - int (length (body_bytes body))"
    "ao_tar aw \<Longrightarrow> 0 \<le> af_FileSize f \<Longrightarrow> 0 \<le> ao_remaining aw1"
    using writeFile_ok [OF p(2) b] by blast
  let ?e = "FileEntry path (if ao_tar aw then Some (af_FileSize f) else None) (body_bytes body)"
  have "file_entry (ao_tar aw) env f ?e" if "ao_tar aw \<longrightarrow> ao_remaining aw1 \<le> 0"
    using p(1) w(1,2,9,10) that unfolding file_entry_def by force
  with w b(1) show thesis by (intro that [of ?e]) auto
qed

lemma gen_files_ok:
  assumes "gen_files g env fs aw b n pr = (aw2, pr2, None)"
    and "0 \<le> b" "b \<le> g_MaxSizeBytes g" "g_MaxSizeBytes g < 2 ^ 63 - 1"
    and "ao_tar aw \<longrightarrow> ao_remaining aw2 \<le> 0"
  shows "\<exists>es. ao_entries aw2 = ao_entries aw @ es \<and> list_all2 (file_entry (ao_tar aw) env) fs es
    \<and> ao_tar aw2 = ao_tar aw \<and> ao_closed aw2 = ao_closed aw \<and> (ao_tar aw \<longrightarrow> ao_remaining aw \<le> 0)
    \<and> pr2 = pr @ progress_of n b es \<and> b + sum_list (map entry_bytes es) \<le> g_MaxSizeBytes g"
  using assms
proof (induction fs arbitrary: aw b n pr)
  case (Cons f fs)
  obtain aw1 b1 where h: "gen_file g env f aw b n = (aw1, b1, None)"
    "gen_files g env fs aw1 b1 (n + 1) (pr @ [(n + 1, b1)]) = (aw2, pr2, None)"
    using Cons.prems(1) by (auto split: option.splits prod.splits)
  obtain e where e: "ao_entries aw1 = ao_entries aw @ [e]"
    "ao_tar aw \<longrightarrow> ao_remaining aw1 \<le> 0 \<Longrightarrow> file_entry (ao_tar aw) env f e"
    "ao_tar aw1 = ao_tar aw" "ao_closed aw1 = ao_closed aw" "ao_tar aw \<longrightarrow> ao_remaining aw \<le> 0"
    "b1 = b + entry_bytes e" "0 \<le> b1" "b1 \<le> g_MaxSizeBytes g"
    using gen_file_ok [OF h(1) Cons.prems(2-4)] by blast
  then obtain es where "ao_entries aw2 = ao_entries aw1 @ es" "list_all2 (file_entry (ao_tar aw) env) fs es"
    "ao_tar aw2 = ao_tar aw" "ao_closed aw2 = ao_closed aw" "ao_tar aw \<longrightarrow> ao_remaining aw1 \<le> 0"
    "pr2 = (pr @ [(n + 1, b1)]) @ progress_of (n + 1) b1 es" "b1 + sum_list (map entry_bytes es) \<le> g_MaxSizeBytes g"
    using Cons.IH [OF h(2) _ _ Cons.prems(4)] Cons.prems(5) by auto
  with e show ?case by (intro exI [of _ "e # es"]) simp
qed auto

lemma gen_files_tar:
  assumes "gen_files g env fs aw b n pr = (aw2, pr2, None)" "0 \<le> b" "b \<le> g_MaxSizeBytes g" "g_MaxSizeBytes g < 2 ^ 63 - 1"
  shows "ao_tar aw2 = ao_tar aw"
  using assms
proof (induction fs arbitrary: aw b n pr)
  case (Cons f fs)
  obtain aw1 b1 where h: "gen_file g env f aw b n = (aw1, b1, None)"
    "gen_files g env fs aw1 b1 (n + 1) (pr @ [(n + 1, b1)]) = (aw2, pr2, None)"
    using Cons.prems(1) by (auto split: option.splits prod.splits)
  have "ao_tar aw1 = ao_tar aw \<and> 0 \<le> b1 \<and> b1 \<le> g_MaxSizeBytes g"
    by (rule gen_file_ok [OF h(1) Cons.prems(2-4)]) simp
  with Cons.IH [OF h(2)] Cons.prems(4) show ?case by simp
qed simp

lemma gen_dirs_tar: "gen_dirs env ds aw = (aw2, None) \<Longrightarrow> ao_tar aw2 = ao_tar aw"
  by (induction ds arbitrary: aw) (auto simp: gen_dir_def split: sum.splits dest: CreateDir_ok(2))

lemma gen_dir_ok:
  assumes "gen_dir env d aw = (aw1, None)"
  obtains e where "ao_entries aw1 = ao_entries aw @ [e]" "dir_entry d e" "ao_tar aw1 = ao_tar aw"
    "ao_closed aw1 = ao_closed aw" "ao_tar aw \<longrightarrow> ao_remaining aw \<le> 0"
proof -
  obtain path where h: "sanitizeArchivePath (fd_ArchivePath d) = Ok path" "CreateDir (ge_fault env) aw path = Ok aw1"
    using assms by (auto simp: gen_dir_def split: sum.splits)
  show thesis using CreateDir_ok [OF h(2)] h(1) by (intro that [of "DirEntry (path @ ''/'')"]) (auto simp: dir_entry_def)
qed

lemma gen_dirs_ok:
  assumes "gen_dirs env ds aw = (aw2, None)" "ao_tar aw \<longrightarrow> ao_remaining aw2 \<le> 0"
  shows "\<exists>es. ao_entries aw2 = ao_entries aw @ es \<and> list_all2 dir_entry ds es
    \<and> ao_tar aw2 = ao_tar aw \<and> (ao_tar aw \<longrightarrow> ao_remaining aw \<le> 0)"
  using assms
proof (induction ds arbitrary: aw)
  case (Cons d ds)
  obtain aw1 where h: "gen_dir env d aw = (aw1, None)" "gen_dirs env ds aw1 = (aw2, None)"
    using Cons.prems(1) by (auto split: option.splits prod.splits)
  obtain e where e: "ao_entries aw1 = ao_entries aw @ [e]" "dir_entry d e" "ao_tar aw1 = ao_tar aw" "ao_tar aw \<longrightarrow> ao_remaining aw \<le> 0"
    using gen_dir_ok [OF h(1)] by blast
  then obtain es where "ao_entries aw2 = ao_entries aw1 @ es" "list_all2 dir_entry ds es" "ao_tar aw2 = ao_tar aw1"
    using Cons.IH [OF h(2)] Cons.prems(2) by auto
  with e show ?case by (intro exI [of _ "e # es"]) simp
qed simp

lemma Generate_ok:
  assumes "Generate g env m = (out, pr, None)" "0 \<le> g_MaxSizeBytes g" "g_MaxSizeBytes g < 2 ^ 63 - 1"
  shows "\<exists>es ds. ao_entries out = es @ ds \<and> ao_closed out
    \<and> list_all2 (file_entry (mf_ExportType m = ExportTypeTar) env) (mf_Files m) es
    \<and> list_all2 dir_entry (mf_EmptyFolders m) ds
    \<and> sum_list (map entry_bytes es) \<le> g_MaxSizeBytes g \<and> pr = progress_of 0 0 es"
proof -
  let ?tar = "mf_ExportType m = ExportTypeTar"
  obtain aw1 aw2 where h:
    "gen_files g env (mf_Files m) (newArchiveWriter (mf_ExportType m)) 0 0 [] = (aw1, pr, None)"
    "gen_dirs env (mf_EmptyFolders m) aw1 = (aw2, None)" "aw_Close (ge_fault env) aw2 = Ok out"
    using assms(1) by (auto simp: Generate_def split: prod.splits option.splits sum.splits)
  have out: "ao_entries out = ao_entries aw2" "ao_closed out" "ao_tar aw2 \<longrightarrow> ao_remaining aw2 \<le> 0"
    using h(3) by (auto simp: aw_Close_defs split: sum.splits if_splits)
  have t0: "ao_tar (newArchiveWriter (mf_ExportType m)) = ?tar" "ao_entries (newArchiveWriter (mf_ExportType m)) = []"
    by (simp_all add: newArchiveWriter_def)
  note t2 = gen_dirs_tar [OF h(2)]
  have t1: "ao_tar aw1 = ?tar"
    using gen_files_tar [OF h(1) _ assms(2,3)] t0 by simp
  obtain ds where ds: "ao_entries aw2 = ao_entries aw1 @ ds" "list_all2 dir_entry (mf_EmptyFolders m) ds"
    "ao_tar aw1 \<longrightarrow> ao_remaining aw1 \<le> 0"
    using gen_dirs_ok [OF h(2)] out(3) t2 by auto
  obtain es where "ao_entries aw1 = es" "list_all2 (file_entry ?tar env) (mf_Files m) es"
    "pr = progress_of 0 0 es" "sum_list (map entry_bytes es) \<le> g_MaxSizeBytes g"
    using gen_files_ok [OF h(1) _ assms(2,3)] ds(3) t0 t1 assms(2) by auto
  with ds out show ?thesis by auto
qed

section \<open>A quiet environment\<close>

text \<open>No output fault and no cancellation.\<close>

definition quiet :: "gen_env \<Rightarrow> bool" where
  "quiet env \<longleftrightarrow> ge_fault env = (\<lambda>_. None) \<and> ge_ctx env = (\<lambda>_. None)"

text \<open>A file whose path is accepted and whose body arrives whole, as long as the database says.\<close>

definition file_ready :: "gen_env \<Rightarrow> ArchiveFile \<Rightarrow> bool" where
  "file_ready env f \<longleftrightarrow>
     (\<exists>p body. sanitizeArchivePath (af_ArchivePath f) = Ok p \<and> ge_fetch env f = Ok body
        \<and> rd_end body = EOF \<and> int (length (body_bytes body)) = af_FileSize f)"

definition folder_ready :: "ArchiveFolder \<Rightarrow> bool" where
  "folder_ready d \<longleftrightarrow> (\<exists>p. sanitizeArchivePath (fd_ArchivePath d) = Ok p)"

definition owes :: "bool \<Rightarrow> archive_out \<Rightarrow> nat \<Rightarrow> bool" where
  "owes tar o' n \<longleftrightarrow> ao_tar o' = tar \<and> (tar \<longrightarrow> ao_remaining o' = int n)"

lemma budget_entry_Write: "budget (entry_Write (\<lambda>_. None)) (owes tar)"
  unfolding budget_def
proof (intro allI impI)
  fix w n and d :: bytes
  assume "owes tar w n \<and> length d \<le> n"
  then show "\<exists>w'. entry_Write (\<lambda>_. None) w d = (w', int (length d), None) \<and> owes tar w' (n - length d)"
    by (cases "d = []") (auto simp: owes_def entry_Write_def tar_Write_def out_Write_def)
qed

lemma CreateFile_quiet:
  assumes "ao_tar aw \<longrightarrow> ao_remaining aw \<le> 0"
  shows "\<exists>aw1. CreateFile (\<lambda>_. None) aw path (int n) = Ok aw1 \<and> owes (ao_tar aw) aw1 n"
  using assms
  by (auto simp: CreateFile_def tar_CreateFile_def zip_CreateFile_def output_ok_def tar_Flush_def owes_def)

lemma writeFile_quiet:
  assumes "quiet env" "ge_fetch env f = Ok body" "rd_end body = EOF" "int (length (body_bytes body)) = af_FileSize f"
    "0 \<le> b" "b + af_FileSize f \<le> g_MaxSizeBytes g" "g_MaxSizeBytes g < 2 ^ 63 - 1" "0 < g_copyBufSize g"
    "ao_tar aw \<longrightarrow> ao_remaining aw \<le> 0"
  shows "\<exists>aw2. writeFile g env aw path f b = (aw2, b + af_FileSize f, None) \<and> owes (ao_tar aw) aw2 0"
proof -
  let ?N = "g_MaxSizeBytes g - b + 1" and ?n = "length (body_bytes body)"
  have q: "ge_fault env = (\<lambda>_. None)" using assms(1) by (simp add: quiet_def)
  have "b \<le> g_MaxSizeBytes g" using assms(4,6) by linarith
  note lim = limit_eq [OF assms(5) this assms(7)]
  obtain aw1 where c: "CreateFile (ge_fault env) aw path (af_FileSize f) = Ok aw1" "owes (ao_tar aw) aw1 ?n"
    using CreateFile_quiet [OF assms(9), of path ?n] assms(4) q by auto
  have t: "take (nat ?N) (body_bytes body) = body_bytes body" using assms(4,6) by simp
  obtain aw2 where "copy_loop (entry_Write (ge_fault env)) (g_copyBufSize g) (?N, body) aw1 0 = (aw2, af_FileSize f, None)"
    "owes (ao_tar aw) aw2 0"
    using copy_loop_total [OF budget_entry_Write c(2), of ?N body "g_copyBufSize g" 0] assms(3,4,8) t q by auto
  moreover have "wrap64 (b + af_FileSize f) = b + af_FileSize f"
    using assms(4-7) by (simp add: is_int64_def)
  ultimately show ?thesis
    using assms(2,6) c lim by (simp add: writeFile_def CopyBuffer_def)
qed

lemma gen_files_quiet:
  assumes "quiet env" "list_all (file_ready env) fs" "0 < g_copyBufSize g" "g_MaxSizeBytes g < 2 ^ 63 - 1"
    "0 \<le> b" "b + sum_list (map af_FileSize fs) \<le> g_MaxSizeBytes g" "ao_tar aw \<longrightarrow> ao_remaining aw \<le> 0"
  shows "\<exists>aw2 pr2. gen_files g env fs aw b n pr = (aw2, pr2, None) \<and> ao_tar aw2 = ao_tar aw
    \<and> (ao_tar aw \<longrightarrow> ao_remaining aw2 \<le> 0)"
  using assms(2,5-7)
proof (induction fs arbitrary: aw b n pr)
  case (Cons f fs)
  obtain p body where f: "sanitizeArchivePath (af_ArchivePath f) = Ok p" "ge_fetch env f = Ok body"
    "rd_end body = EOF" "int (length (body_bytes body)) = af_FileSize f"
    using Cons.prems(1) by (auto simp: file_ready_def)
  have nn: "0 \<le> sum_list (map af_FileSize fs)"
    using Cons.prems(1) by (intro sum_list_nonneg) (auto simp: file_ready_def list_all_iff)
  have sz: "0 \<le> af_FileSize f" "b + af_FileSize f \<le> g_MaxSizeBytes g"
    using f(4) nn Cons.prems(3) by simp_all
  have chk: "wrap64 (b + af_FileSize f) = b + af_FileSize f"
    using sz assms(4) Cons.prems(2) by (simp add: is_int64_def)
  obtain aw1 where w: "writeFile g env aw p f b = (aw1, b + af_FileSize f, None)" "owes (ao_tar aw) aw1 0"
    using writeFile_quiet [OF assms(1) f(2-4) Cons.prems(2) sz(2) assms(4,3) Cons.prems(4)] by blast
  have "ge_ctx env n = None" using assms(1) by (simp add: quiet_def)
  with Cons.IH [of "b + af_FileSize f" aw1 "n + 1" "pr @ [(n + 1, b + af_FileSize f)]"] Cons.prems f w chk sz
  show ?case by (auto simp: owes_def gen_file_def)
qed auto

lemma gen_dirs_quiet:
  assumes "quiet env" "list_all folder_ready ds" "ao_tar aw \<longrightarrow> ao_remaining aw \<le> 0"
  shows "\<exists>aw2. gen_dirs env ds aw = (aw2, None) \<and> ao_tar aw2 = ao_tar aw \<and> (ao_tar aw \<longrightarrow> ao_remaining aw2 \<le> 0)"
  using assms(2,3)
proof (induction ds arbitrary: aw)
  case (Cons d ds)
  obtain p where p: "sanitizeArchivePath (fd_ArchivePath d) = Ok p" using Cons.prems(1) by (auto simp: folder_ready_def)
  obtain aw1 where "CreateDir (ge_fault env) aw p = Ok aw1" "ao_tar aw1 = ao_tar aw" "ao_remaining aw1 = 0"
    using assms(1) Cons.prems(2)
    by (auto simp: quiet_def CreateDir_def tar_CreateDir_def zip_CreateDir_def output_ok_def tar_Flush_def)
  with Cons.IH [of aw1] Cons.prems(1) p show ?case by (auto simp: gen_dir_def)
qed simp

lemma aw_Close_quiet:
  "quiet env \<Longrightarrow> ao_tar aw \<longrightarrow> ao_remaining aw \<le> 0 \<Longrightarrow>
     aw_Close (ge_fault env) aw = Ok ((next_call aw)\<lparr>ao_closed := True\<rparr>)"
  by (auto simp: quiet_def aw_Close_defs output_ok_def)

lemma Generate_quiet:
  assumes "quiet env" "list_all (file_ready env) (mf_Files m)" "list_all folder_ready (mf_EmptyFolders m)"
    "0 < g_copyBufSize g" "g_MaxSizeBytes g < 2 ^ 63 - 1" "sum_list (map af_FileSize (mf_Files m)) \<le> g_MaxSizeBytes g"
  shows "\<exists>out pr. Generate g env m = (out, pr, None)"
proof -
  let ?aw = "newArchiveWriter (mf_ExportType m)"
  have "ao_tar ?aw \<longrightarrow> ao_remaining ?aw \<le> 0" by (simp add: newArchiveWriter_def)
  then obtain aw1 pr where f: "gen_files g env (mf_Files m) ?aw 0 0 [] = (aw1, pr, None)"
    "ao_tar aw1 \<longrightarrow> ao_remaining aw1 \<le> 0"
    using gen_files_quiet [OF assms(1,2,4,5), of 0 ?aw 0 "[]"] assms(6) by auto
  then obtain aw2 where d: "gen_dirs env (mf_EmptyFolders m) aw1 = (aw2, None)" "ao_tar aw2 \<longrightarrow> ao_remaining aw2 \<le> 0"
    using gen_dirs_quiet [OF assms(1,3) f(2)] by auto
  then show ?thesis using f d aw_Close_quiet [OF assms(1) d(2)] by (simp add: Generate_def)
qed

section \<open>No panic\<close>

text \<open>
  The slice expression in \<open>archive/tar\<close> is in range as long as the current entry owes a
  non-negative number of bytes, which holds from a header with a non-negative size on.
\<close>

definition in_range :: "archive_out \<Rightarrow> bool" where
  "in_range o' \<longleftrightarrow> (ao_tar o' \<longrightarrow> 0 \<le> ao_remaining o')"

lemma out_Write_le:
  assumes "out_Write fault o' d = (o2, n, e)"
  shows "n \<le> int (length d)" "ao_tar o2 = ao_tar o'" "e \<noteq> Some SliceOutOfRange"
  using assms by (auto simp: out_Write_def split: option.splits)

lemma entry_Write_tar: "entry_Write fault o' d = (o2, n, e) \<Longrightarrow> ao_tar o2 = ao_tar o'"
  by (auto simp: entry_Write_def tar_Write_def Let_def dest: out_Write_le(2) split: if_splits prod.splits)

lemma entry_Write_in_range:
  assumes "in_range o'" "entry_Write fault o' d = (o2, n, e)"
  shows "in_range o2 \<and> (\<forall>x. e = Some x \<longrightarrow> x \<noteq> SliceOutOfRange)"
proof (cases "ao_tar o'")
  case False
  then show ?thesis using assms out_Write_le [of fault o' d o2 n e] by (auto simp: entry_Write_def in_range_def)
next
  case True
  define D where "D = (if ao_remaining o' < int (length d) then take (nat (ao_remaining o')) d else d)"
  have r: "0 \<le> ao_remaining o'" using assms(1) True by (simp add: in_range_def)
  obtain o1 m x where w: "(if D = [] then (o', 0, None) else out_Write fault o' D) = (o1, m, x)"
    by (metis prod_cases3)
  have m: "m \<le> int (length D) \<and> ao_tar o1 = ao_tar o' \<and> x \<noteq> Some SliceOutOfRange"
  proof (cases "D = []")
    case False
    then have "out_Write fault o' D = (o1, m, x)" using w by simp
    then show ?thesis by (intro conjI out_Write_le)
  qed (use w in auto)
  have "entry_Write fault o' d = (o1\<lparr>ao_remaining := ao_remaining o' - m\<rparr>, m,
      case x of Some e \<Rightarrow> Some e | None \<Rightarrow> if ao_remaining o' < int (length d) then Some WriteTooLong else None)"
    unfolding entry_Write_def tar_Write_def Let_def D_def [symmetric] w using True r by simp
  then have "o2 = o1\<lparr>ao_remaining := ao_remaining o' - m\<rparr>"
    "e = (case x of Some e \<Rightarrow> Some e | None \<Rightarrow> if ao_remaining o' < int (length d) then Some WriteTooLong else None)"
    using assms(2) by simp_all
  moreover have "int (length D) \<le> ao_remaining o'" using r by (auto simp: D_def)
  ultimately show ?thesis using m True by (auto simp: in_range_def split: option.splits)
qed

fun slice_panic :: "gen_error \<Rightarrow> bool" where
  "slice_panic (WriteFileError _ _ (StreamFileContent (WriteFailed SliceOutOfRange))) = True"
| "slice_panic _ = False"

lemma writeFile_no_panic:
  assumes "writeFile g env aw path f b = (aw2, b2, e)" "ao_tar aw \<longrightarrow> 0 \<le> af_FileSize f"
  shows "ao_tar aw2 = ao_tar aw \<and> e \<noteq> Some (StreamFileContent (WriteFailed SliceOutOfRange))"
proof (cases "ge_fetch env f")
  case (Inl x)
  then show ?thesis using assms(1) by (auto simp: writeFile_def)
next
  case (Inr body)
  show ?thesis
  proof (cases "CreateFile (ge_fault env) aw path (af_FileSize f)")
    case (Inl x)
    then show ?thesis using assms(1) Inr by (auto simp: writeFile_def)
  next
    case aw1: (Inr aw1)
    let ?P = "\<lambda>o'. in_range o' \<and> ao_tar o' = ao_tar aw"
    let ?l = "(wrap64 (wrap64 (g_MaxSizeBytes g - b) + 1), body)"
    have p: "?P aw1" using CreateFile_ok [OF aw1] assms(2) by (simp add: in_range_def)
    have keep: "?P w' \<and> (\<forall>x. e = Some x \<longrightarrow> x \<noteq> SliceOutOfRange)"
      if "?P w" "entry_Write (ge_fault env) w d = (w', n, e)" for w d w' n e
      using that entry_Write_in_range [of w "ge_fault env" d w' n e] entry_Write_tar [of "ge_fault env" w d w' n e] by auto
    obtain aw3 n e3 where c: "copy_loop (entry_Write (ge_fault env)) (g_copyBufSize g) ?l aw1 0 = (aw3, n, e3)"
      by (metis prod_cases3)
    have "?P aw3 \<and> (\<forall>x. e3 = Some (WriteFailed x) \<longrightarrow> x \<noteq> SliceOutOfRange)"
      by (rule copy_loop_inv [where P = ?P, OF keep p c])
    then show ?thesis
      using assms(1) Inr aw1 c by (auto simp: writeFile_def CopyBuffer_def Let_def split: option.splits if_splits)
  qed
qed

lemma gen_file_no_panic:
  assumes "gen_file g env f aw b n = (aw1, b1, e)" "ao_tar aw \<longrightarrow> 0 \<le> af_FileSize f"
  shows "ao_tar aw1 = ao_tar aw" "e = Some x \<Longrightarrow> \<not> slice_panic x"
proof -
  have "ao_tar aw1 = ao_tar aw \<and> (\<forall>x. e = Some x \<longrightarrow> \<not> slice_panic x)"
  proof (cases "ge_ctx env n \<noteq> None \<or> (\<exists>x. sanitizeArchivePath (af_ArchivePath f) = Inl x)
      \<or> g_MaxSizeBytes g < wrap64 (b + af_FileSize f)")
    case True
    then show ?thesis using assms(1) by (auto simp: gen_file_def split: option.splits sum.splits if_splits)
  next
    case False
    then obtain p where p: "ge_ctx env n = None" "sanitizeArchivePath (af_ArchivePath f) = Ok p"
      "\<not> g_MaxSizeBytes g < wrap64 (b + af_FileSize f)"
      by (cases "sanitizeArchivePath (af_ArchivePath f)") auto
    obtain aw1' b1' e1 where w: "writeFile g env aw p f b = (aw1', b1', e1)" by (metis prod_cases3)
    have "\<not> slice_panic (WriteFileError i a x)" if "x \<noteq> StreamFileContent (WriteFailed SliceOutOfRange)" for i a x
      using that by (cases "WriteFileError i a x" rule: slice_panic.cases) auto
    then show ?thesis using writeFile_no_panic [OF w] assms p w by (auto simp: gen_file_def)
  qed
  then show "ao_tar aw1 = ao_tar aw" "e = Some x \<Longrightarrow> \<not> slice_panic x" by auto
qed

lemma gen_files_no_panic:
  assumes "gen_files g env fs aw b n pr = (aw2, pr2, Some e)" "ao_tar aw \<longrightarrow> list_all (\<lambda>f. 0 \<le> af_FileSize f) fs"
  shows "\<not> slice_panic e"
  using assms
proof (induction fs arbitrary: aw b n pr)
  case (Cons f fs)
  obtain aw1 b1 e1 where w: "gen_file g env f aw b n = (aw1, b1, e1)" by (metis prod_cases3)
  have np: "ao_tar aw1 = ao_tar aw" "e1 = Some x \<Longrightarrow> \<not> slice_panic x" for x
    using gen_file_no_panic [OF w] Cons.prems(2) by auto
  show ?case
    using Cons.prems Cons.IH [of aw1 b1 "n + 1" "pr @ [(n + 1, b1)]"] w np by (cases e1) auto
qed simp

lemma gen_dirs_no_panic: "gen_dirs env ds aw = (aw2, Some e) \<Longrightarrow> \<not> slice_panic e"
  by (induction ds arbitrary: aw) (auto simp: gen_dir_def split: sum.splits)

lemma Generate_no_panic:
  assumes "Generate g env m = (out, pr, Some e)"
    "mf_ExportType m = ExportTypeTar \<longrightarrow> list_all (\<lambda>f. 0 \<le> af_FileSize f) (mf_Files m)"
  shows "\<not> slice_panic e"
  using assms gen_files_no_panic [of g env "mf_Files m" "newArchiveWriter (mf_ExportType m)" 0 0 "[]"]
    gen_dirs_no_panic [of env "mf_EmptyFolders m"]
  by (auto simp: Generate_def newArchiveWriter_def split: prod.splits option.splits sum.splits)

section \<open>Claims\<close>

text \<open>
  C5. An archive that \<open>Generate\<close> reports as finished is exactly the manifest: it is closed, its
  entries are one file entry per manifest file, in order, under the sanitised path and with the
  whole body the storage server sent (a body that ended in \<open>EOF\<close>), and then one directory entry
  per empty folder; in a TAR every body has the declared size. The total is within the limit,
  and \<open>onProgress\<close> was called once per file with the running counts.
\<close>

theorem generate_exact:
  assumes "Generate (NewGenerator maxSize) env m = (out, progress, None)" "0 \<le> maxSize" "maxSize < 2 ^ 63 - 1"
  shows "\<exists>es ds. ao_entries out = es @ ds \<and> ao_closed out
    \<and> list_all2 (file_entry (mf_ExportType m = ExportTypeTar) env) (mf_Files m) es
    \<and> list_all2 dir_entry (mf_EmptyFolders m) ds
    \<and> sum_list (map entry_bytes es) \<le> maxSize \<and> progress = progress_of 0 0 es"
  using Generate_ok [OF assms(1)] assms(2,3) by (simp add: NewGenerator_def)

text \<open>
  Generation succeeds when nothing outside goes wrong: with no output fault and no
  cancellation, every path accepted, every body delivered whole with the size the database
  says, and the total within the limit, \<open>Generate\<close> returns without an error.
\<close>

lemma generate_succeeds:
  assumes "quiet env" "list_all (file_ready env) (mf_Files m)" "list_all folder_ready (mf_EmptyFolders m)"
    "maxSize < 2 ^ 63 - 1" "sum_list (map af_FileSize (mf_Files m)) \<le> maxSize"
  shows "\<exists>out progress. Generate (NewGenerator maxSize) env m = (out, progress, None)"
  using assms by (intro Generate_quiet) (simp_all add: NewGenerator_def)

definition wit_genv :: gen_env where
  "wit_genv = \<lparr>ge_fetch = (\<lambda>_. Ok \<lparr>rd_chunks = [''da'', [], ''ta''], rd_end = EOF, rd_eager = True\<rparr>),
     ge_fault = (\<lambda>_. None), ge_ctx = (\<lambda>_. None)\<rparr>"

definition wit_gman :: ArchiveManifest where
  "wit_gman = \<lparr>mf_RootFolderID = ''r'', mf_ArchiveName = ''r.tar'', mf_ExportType = ''tar'',
     mf_Files = [wit_hosted], mf_EmptyFolders = [\<lparr>fd_FolderID = ''d'', fd_ParentFolderID = None,
       fd_FolderName = ''e'', fd_ArchivePath = ''r/e''\<rparr>], mf_TotalFiles = 1, mf_TotalBytes = 4\<rparr>"

lemma wit_sanitize: "sanitizeArchivePath ''r/x'' = Ok ''r/x''" "sanitizeArchivePath ''r/e'' = Ok ''r/e''"
  by (simp_all add: sanitize_safe_id safe_entry_path_def proper_name_def has_drive_letter_def)

lemma wit_generate:
  "\<exists>out progress. Generate (NewGenerator 10) wit_genv wit_gman = (out, progress, None)"
  using wit_sanitize
  by (intro Generate_quiet)
    (simp_all add: NewGenerator_def quiet_def file_ready_def folder_ready_def wit_genv_def wit_gman_def
      wit_hosted_def body_bytes_def)

theorem generate_exact_witness:
  "\<exists>out progress. Generate (NewGenerator 10) wit_genv wit_gman = (out, progress, None)
     \<and> ao_entries out = [FileEntry ''r/x'' (Some 4) ''data'', DirEntry ''r/e/''] \<and> progress = [(1, 4)]"
proof -
  obtain out progress where h: "Generate (NewGenerator 10) wit_genv wit_gman = (out, progress, None)"
    using wit_generate by blast
  obtain es ds where es: "ao_entries out = es @ ds"
    "list_all2 (file_entry (mf_ExportType wit_gman = ExportTypeTar) wit_genv) (mf_Files wit_gman) es"
    "list_all2 dir_entry (mf_EmptyFolders wit_gman) ds" "progress = progress_of 0 0 es"
    using generate_exact [OF h] by auto
  have "es = [FileEntry ''r/x'' (Some 4) ''data'']"
    using es(2) wit_sanitize(1)
    by (auto simp: wit_gman_def list_all2_Cons1 file_entry_def wit_genv_def wit_hosted_def body_bytes_def ExportTypeTar_def)
  moreover have "ds = [DirEntry ''r/e/'']"
    using es(3) wit_sanitize(2) by (auto simp: wit_gman_def list_all2_Cons1 dir_entry_def)
  ultimately show ?thesis using h es(1,4) by simp
qed

lemma copy_nothing: "N \<le> 0 \<Longrightarrow> 0 < k \<Longrightarrow> copy_loop wr k (N, r) w n = (w, n, None)"
  by (subst copy_loop.simps) (simp add: LimitedRead_def)

lemma writeFile_wrapped:
  assumes "g_MaxSizeBytes g = 2 ^ 63 - 1" "0 < g_copyBufSize g" "quiet env" "\<not> ao_tar aw" "ge_fetch env f = Ok body"
  shows "\<exists>aw2. writeFile g env aw path f 0 = (aw2, 0, None) \<and> \<not> ao_tar aw2
    \<and> ao_entries aw2 = ao_entries aw @ [FileEntry path None []]"
proof -
  have "wrap64 (wrap64 (g_MaxSizeBytes g - 0) + 1) = - (2 ^ 63)" by (simp add: assms(1) wrap64_def)
  then show ?thesis
    using assms
    by (simp add: writeFile_def CopyBuffer_def CreateFile_def zip_CreateFile_def quiet_def output_ok_def
        copy_nothing is_int64_def)
qed

lemma gen_files_wrapped:
  assumes "g_MaxSizeBytes g = 2 ^ 63 - 1" "0 < g_copyBufSize g" "quiet env"
    "\<forall>f \<in> set fs. is_int64 (af_FileSize f) \<and> (\<exists>p body. sanitizeArchivePath (af_ArchivePath f) = Ok p \<and> ge_fetch env f = Ok body)"
    "\<not> ao_tar aw"
  shows "\<exists>aw2 pr2 es. gen_files g env fs aw 0 n pr = (aw2, pr2, None) \<and> \<not> ao_tar aw2
    \<and> ao_entries aw2 = ao_entries aw @ es \<and> length es = length fs \<and> (\<forall>e \<in> set es. entry_bytes e = 0)"
  using assms(4,5)
proof (induction fs arbitrary: aw n pr)
  case (Cons f fs)
  obtain p body where f: "is_int64 (af_FileSize f)" "sanitizeArchivePath (af_ArchivePath f) = Ok p" "ge_fetch env f = Ok body"
    using Cons.prems(1) by auto
  obtain aw1 where w: "writeFile g env aw p f 0 = (aw1, 0, None)" "\<not> ao_tar aw1"
    "ao_entries aw1 = ao_entries aw @ [FileEntry p None []]"
    using writeFile_wrapped [OF assms(1-3) Cons.prems(2) f(3)] by blast
  obtain aw2 pr2 es where "gen_files g env fs aw1 0 (n + 1) (pr @ [(n + 1, 0)]) = (aw2, pr2, None)" "\<not> ao_tar aw2"
    "ao_entries aw2 = ao_entries aw1 @ es" "length es = length fs" "\<forall>e \<in> set es. entry_bytes e = 0"
    using Cons.IH [of aw1 "n + 1" "pr @ [(n + 1, 0)]"] Cons.prems(1) w(2) by auto
  with f w assms(1,3) show ?case
    by (intro exI [of _ aw2] exI [of _ pr2] exI [of _ "FileEntry p None [] # es"])
      (simp add: quiet_def is_int64_def gen_file_def)
qed simp

lemma gen_dirs_zip:
  assumes "quiet env" "list_all folder_ready ds" "\<not> ao_tar aw"
  shows "\<exists>aw2 es. gen_dirs env ds aw = (aw2, None) \<and> \<not> ao_tar aw2
    \<and> ao_entries aw2 = ao_entries aw @ es \<and> list_all2 dir_entry ds es"
  using gen_dirs_quiet [OF assms(1,2), of aw] gen_dirs_ok [of env ds aw] assms(3) by fastforce

lemma dir_entry_bytes: "list_all2 dir_entry ds es \<Longrightarrow> e \<in> set es \<Longrightarrow> entry_bytes e = 0"
  by (auto simp: dir_entry_def list_all2_conv_all_nth in_set_conv_nth)

text \<open>
  C35. With the largest limit that the configuration accepts, \<open>2^63 - 1\<close>, the reader's limit
  \<open>MaxSizeBytes - processed + 1\<close> wraps around to a negative number: a ZIP generation then
  succeeds and writes every file with no content at all, whatever the storage servers send.
\<close>

theorem generate_max_limit_empties:
  assumes "mf_ExportType m = ExportTypeZip" "quiet env" "list_all folder_ready (mf_EmptyFolders m)"
    "\<forall>f \<in> set (mf_Files m). is_int64 (af_FileSize f) \<and> (\<exists>p body. sanitizeArchivePath (af_ArchivePath f) = Ok p \<and> ge_fetch env f = Ok body)"
  shows "\<exists>out progress. Generate (NewGenerator (2 ^ 63 - 1)) env m = (out, progress, None) \<and> ao_closed out
    \<and> length (ao_entries out) = length (mf_Files m) + length (mf_EmptyFolders m)
    \<and> (\<forall>e \<in> set (ao_entries out). entry_bytes e = 0)"
proof -
  let ?g = "NewGenerator (2 ^ 63 - 1)" and ?aw = "newArchiveWriter (mf_ExportType m)"
  have g: "g_MaxSizeBytes ?g = 2 ^ 63 - 1" "0 < g_copyBufSize ?g" by (simp_all add: NewGenerator_def)
  have z: "\<not> ao_tar ?aw" "ao_entries ?aw = []"
    using assms(1) by (simp_all add: newArchiveWriter_def ExportTypeZip_def ExportTypeTar_def)
  obtain aw1 pr es where f: "gen_files ?g env (mf_Files m) ?aw 0 0 [] = (aw1, pr, None)" "\<not> ao_tar aw1"
    "ao_entries aw1 = es" "length es = length (mf_Files m)" "\<forall>e \<in> set es. entry_bytes e = 0"
    using gen_files_wrapped [OF g assms(2,4) z(1), of 0 "[]"] z(2) by auto
  obtain aw2 ds where d: "gen_dirs env (mf_EmptyFolders m) aw1 = (aw2, None)" "\<not> ao_tar aw2"
    "ao_entries aw2 = es @ ds" "list_all2 dir_entry (mf_EmptyFolders m) ds"
    using gen_dirs_zip [OF assms(2,3) f(2)] f(3) by auto
  have "\<forall>e \<in> set ds. entry_bytes e = 0" "length ds = length (mf_EmptyFolders m)"
    using dir_entry_bytes [OF d(4)] list_all2_lengthD [OF d(4)] by auto
  then show ?thesis
    using f d aw_Close_quiet [OF assms(2), of aw2] by (auto simp: Generate_def)
qed

theorem generate_max_limit_empties_witness:
  "\<exists>out progress. Generate (NewGenerator 9223372036854775807) wit_genv (wit_gman\<lparr>mf_ExportType := ''zip''\<rparr>)
       = (out, progress, None) \<and> (\<forall>e \<in> set (ao_entries out). entry_bytes e = 0)"
  using generate_max_limit_empties [of "wit_gman\<lparr>mf_ExportType := ''zip''\<rparr>" wit_genv] wit_sanitize
  by (auto simp: ExportTypeZip_def quiet_def folder_ready_def wit_genv_def wit_gman_def wit_hosted_def is_int64_def)

end
