(* ===== verification/ArchiveService.thy ===== *)
theory ArchiveService
  imports Manifest JobStore Tokens LocalStorage Generator
begin

text \<open>
  The stateful part of \<open>internal/service/archive.go\<close>: the job lifecycle over the job store, the
  token service, the archive storage and the bounded queue. The state of all of them is one
  record that every operation takes and returns. What an operation reads from outside (the
  clock at each \<open>time.Now()\<close>, random bytes, a new UUID, faults of the file system, the bodies
  that storage servers send) is a record of its own.
\<close>

section \<open>State\<close>

record ArchiveConfig =
  cfg_TempDir :: string
  cfg_MaxSizeBytes :: int
  cfg_Expiry :: duration
  cfg_Workers :: int
  cfg_QueueSize :: int
  cfg_CleanupInterval :: duration
  cfg_FileConcurrency :: int

record World =
  w_jobs :: MemoryStore
  w_tokens :: InMemoryService
  w_files :: "archive_out filesystem"
  w_queue :: "string list"
  w_accepting :: bool

text \<open>The parts of the service that never change, with its two parameters.\<close>

record ArchiveService =
  sv_repo :: ArchiveRepository
  sv_cfg :: ArchiveConfig
  sv_uuid_parse :: uuid_canon
  sv_upper_lower :: "nat \<Rightarrow> nat"

definition New :: "MemoryStore \<Rightarrow> archive_out filesystem \<Rightarrow> InMemoryService \<Rightarrow> World" where
  "New jobs files tokens =
     \<lparr>w_jobs = jobs, w_tokens = tokens, w_files = files, w_queue = [], w_accepting = True\<rparr>"

text \<open>A worker's receive on the queue's channel: the oldest id, or nothing to take yet.\<close>

definition Queue_receive :: "World \<Rightarrow> (string \<times> World) option" where
  "Queue_receive w = (case w_queue w of [] \<Rightarrow> None | i # is \<Rightarrow> Some (i, w\<lparr>w_queue := is\<rparr>))"

definition StopAccepting :: "World \<Rightarrow> World" where
  "StopAccepting w = w\<lparr>w_accepting := False\<rparr>"

section \<open>Creating and reading jobs\<close>

definition store_error_text :: "store_error \<Rightarrow> string" where
  "store_error_text e = (case e of ErrNotFound \<Rightarrow> ''job not found''
     | JobAlreadyExists i \<Rightarrow> ''job '' @ i @ '' already exists'')"

definition new_job :: "string \<Rightarrow> string \<Rightarrow> string \<Rightarrow> ExportType \<Rightarrow> time \<Rightarrow> Job" where
  "new_job i rootFolderID archiveName exportType now =
     \<lparr>j_ID = i, j_RootFolderID = rootFolderID, j_ArchiveName = archiveName, j_ExportType = exportType,
      j_Status = JobStatusQueued, j_TotalFiles = 0, j_ProcessedFiles = 0, j_TotalBytes = 0,
      j_ProcessedBytes = 0, j_ArchivePath = [], j_ErrorMessage = [], j_DownloadToken = [],
      j_CreatedAt = now, j_UpdatedAt = now, j_StartedAt = 0, j_CompletedAt = None, j_ExpiresAt = 0\<rparr>"

definition CreateJob ::
  "ArchiveService \<Rightarrow> time \<Rightarrow> string \<Rightarrow> World \<Rightarrow> ArchiveRequest \<Rightarrow> (service_error, Job) result \<times> World" where
  "CreateJob s now newUUID w req =
     (if \<not> w_accepting w then (Err ErrNotAccepting, w)
      else case validateRootFolderID (sv_uuid_parse s) (req_RootFolderID req) of
        Inl e \<Rightarrow> (Err e, w)
      | Inr rootFolderID \<Rightarrow>
          case validateArchiveName (req_ArchiveName req) of
            Inl e \<Rightarrow> (Err e, w)
          | Inr archiveName \<Rightarrow>
              case validateExportType (req_ExportType req) of
                Inl e \<Rightarrow> (Err e, w)
              | Inr exportType \<Rightarrow>
                  case r_FolderExists (sv_repo s) rootFolderID of
                    Inl e \<Rightarrow> (Err (VerifyRootFolder e), w)
                  | Inr False \<Rightarrow> (Err ErrFolderNotFound, w)
                  | Inr True \<Rightarrow>
                      let j = new_job newUUID rootFolderID archiveName exportType now
                      in case store_Create (w_jobs w) j of
                           Inl e \<Rightarrow> (Err (CreateJobRecord (store_error_text e)), w)
                         | Inr jobs \<Rightarrow>
                             if int (length (w_queue w)) < cfg_QueueSize (sv_cfg s)
                             then (Ok j, w\<lparr>w_jobs := jobs, w_queue := w_queue w @ [j_ID j]\<rparr>)
                             else (Err ErrQueueFull, w\<lparr>w_jobs := store_Delete jobs (j_ID j)\<rparr>))"

definition GetJob :: "World \<Rightarrow> string \<Rightarrow> (store_error, Job) result" where
  "GetJob w jobID = store_Get (w_jobs w) jobID"

definition ValidateDownloadToken :: "World \<Rightarrow> time \<Rightarrow> string \<Rightarrow> string \<Rightarrow> (token_error, unit) result" where
  "ValidateDownloadToken w now jobID tok = token_Validate (w_tokens w) now jobID tok"

definition OpenArchive ::
  "ArchiveService \<Rightarrow> os_error option \<Rightarrow> World \<Rightarrow> string \<Rightarrow> (storage_error, archive_out node) result" where
  "OpenArchive s fault w jobID = local_Open (cfg_TempDir (sv_cfg s)) fault (w_files w) jobID"

section \<open>Processing a job\<close>

record process_env =
  px_started :: time
  px_totals :: time
  px_progress :: "int \<Rightarrow> time"
  px_now :: time
  px_issue :: time
  px_fail :: time
  px_rand :: "(string, bytes) result"
  px_create :: "os_error option"
  px_close :: "string option"
  px_rename :: "os_error option"
  px_delete :: "os_error option \<times> os_error option"
  px_gen :: gen_env

datatype archive_error =
    CreateTempArchiveFailed storage_error
  | GenerateFailed gen_error
  | CloseTempArchive string
  | FinalizeArchiveFailed storage_error

text \<open>A run of a job: it returns, its queries never end, or it panics.\<close>

datatype 'a run = Returned 'a | Diverges | Panics

abbreviation persist :: "Job \<Rightarrow> World \<Rightarrow> World" where
  "persist j w \<equiv> w\<lparr>w_jobs := persist_with store_Update j (w_jobs w)\<rparr>"

definition failJob :: "time \<Rightarrow> Job \<Rightarrow> string \<Rightarrow> World \<Rightarrow> World" where
  "failJob now j safeMessage w =
     persist (j\<lparr>j_Status := JobStatusFailed, j_ErrorMessage := safeMessage, j_UpdatedAt := now\<rparr>) w"

text \<open>The calls of \<open>onProgress\<close>, each of which updates the job and stores it.\<close>

fun record_progress :: "(int \<Rightarrow> time) \<Rightarrow> (int \<times> int) list \<Rightarrow> Job \<times> World \<Rightarrow> Job \<times> World" where
  "record_progress clock [] jw = jw"
| "record_progress clock ((n, b) # ps) (j, w) =
     (let j' = j\<lparr>j_ProcessedFiles := n, j_ProcessedBytes := b, j_UpdatedAt := clock n\<rparr>
      in record_progress clock ps (j', persist j' w))"

definition generateArchive ::
  "ArchiveService \<Rightarrow> process_env \<Rightarrow> Job \<Rightarrow> ArchiveManifest \<Rightarrow> World
     \<Rightarrow> Job \<times> World \<times> archive_error option" where
  "generateArchive s px j manifest w =
     (let dir = cfg_TempDir (sv_cfg s) in
      case local_Create dir (px_create px) (w_files w) (j_ID j) of
        Inl e \<Rightarrow> (j, w, Some (CreateTempArchiveFailed e))
      | Inr fs1 \<Rightarrow>
          case Generate (NewGenerator (cfg_MaxSizeBytes (sv_cfg s))) (px_gen px) manifest of
            (out, progress, genErr) \<Rightarrow>
              case record_progress (px_progress px) progress
                     (j, w\<lparr>w_files := local_Write dir fs1 (j_ID j) out\<rparr>) of
                (j, w) \<Rightarrow>
                  let undo = w\<lparr>w_files := snd (local_Delete dir (px_delete px) (w_files w) (j_ID j))\<rparr>
                  in case genErr of
                       Some e \<Rightarrow> (j, undo, Some (GenerateFailed e))
                     | None \<Rightarrow>
                         case px_close px of
                           Some e \<Rightarrow> (j, undo, Some (CloseTempArchive e))
                         | None \<Rightarrow>
                             case local_RenameTemp dir (px_rename px) (w_files w) (j_ID j) of
                               Inl e \<Rightarrow> (j, undo, Some (FinalizeArchiveFailed e))
                             | Inr fs2 \<Rightarrow> (j, w\<lparr>w_files := fs2\<rparr>, None))"

definition completed_job :: "duration \<Rightarrow> time \<Rightarrow> string \<Rightarrow> Job \<Rightarrow> Job" where
  "completed_job expiry now tok j =
     j\<lparr>j_Status := JobStatusCompleted, j_ArchivePath := j_ID j @ ''.'' @ Extension (j_ExportType j),
       j_DownloadToken := tok, j_CompletedAt := Some now, j_ExpiresAt := now + expiry, j_UpdatedAt := now\<rparr>"

definition completeJob :: "ArchiveService \<Rightarrow> process_env \<Rightarrow> Job \<Rightarrow> World \<Rightarrow> World" where
  "completeJob s px j w =
     (case token_Issue (w_tokens w) (px_rand px) (px_issue px) (j_ID j) (cfg_Expiry (sv_cfg s)) of
        Inl e \<Rightarrow> failJob (px_fail px) j ''failed to issue download token'' w
      | Inr (tok, tokens) \<Rightarrow>
          persist (completed_job (cfg_Expiry (sv_cfg s)) (px_now px) tok j) (w\<lparr>w_tokens := tokens\<rparr>))"

text \<open>The one error of the generation that is a panic of \<open>archive/tar\<close> and not a value.\<close>

definition is_panic :: "archive_error \<Rightarrow> bool" where
  "is_panic e \<longleftrightarrow> (case e of GenerateFailed g \<Rightarrow> slice_panic g | _ \<Rightarrow> False)"

definition ProcessJob :: "ArchiveService \<Rightarrow> process_env \<Rightarrow> World \<Rightarrow> string \<Rightarrow> World run" where
  "ProcessJob s px w jobID =
     (case store_Get (w_jobs w) jobID of
        Inl e \<Rightarrow> Returned w
      | Inr j0 \<Rightarrow>
          let j1 = j0\<lparr>j_StartedAt := px_started px, j_Status := JobStatusProcessing, j_UpdatedAt := px_started px\<rparr>
          in case store_Update (w_jobs w) j1 of
               Inl e \<Rightarrow> Returned w
             | Inr jobs1 \<Rightarrow>
                 let w1 = w\<lparr>w_jobs := jobs1\<rparr>
                 in case buildManifest (sv_upper_lower s) (sv_repo s) j1 of
                      None \<Rightarrow> Diverges
                    | Some (Inl e) \<Rightarrow>
                        Returned (failJob (px_fail px) j1 ''failed to read archive manifest from database'' w1)
                    | Some (Inr manifest) \<Rightarrow>
                        let j2 = j1\<lparr>j_TotalFiles := mf_TotalFiles manifest, j_TotalBytes := mf_TotalBytes manifest,
                                    j_UpdatedAt := px_totals px\<rparr>
                        in case store_Update (w_jobs w1) j2 of
                             Inl e \<Rightarrow> Returned w1
                           | Inr jobs2 \<Rightarrow>
                               let w2 = w1\<lparr>w_jobs := jobs2\<rparr>
                               in if cfg_MaxSizeBytes (sv_cfg s) < mf_TotalBytes manifest
                                  then Returned (failJob (px_fail px) j2 ''archive exceeds maximum allowed size'' w2)
                                  else case generateArchive s px j2 manifest w2 of
                                         (j3, w3, Some e) \<Rightarrow>
                                           if is_panic e then Panics
                                           else Returned (failJob (px_fail px) j3 ''failed to generate archive'' w3)
                                       | (j3, w3, None) \<Rightarrow> Returned (completeJob s px j3 w3))"

section \<open>The invariant\<close>

definition world_wf :: "ArchiveService \<Rightarrow> World \<Rightarrow> bool" where
  "world_wf s w \<longleftrightarrow> store_wf (w_jobs w) \<and> storage_wf (cfg_TempDir (sv_cfg s)) (w_files w)
     \<and> list_all (\<lambda>(i, _). valid_id i) (w_jobs w) \<and> int (length (w_queue w)) \<le> cfg_QueueSize (sv_cfg s)"

lemma world_wfD:
  assumes "world_wf s w"
  shows "store_wf (w_jobs w)" "storage_wf (cfg_TempDir (sv_cfg s)) (w_files w)"
    "int (length (w_queue w)) \<le> cfg_QueueSize (sv_cfg s)" "store_Get (w_jobs w) i = Ok j \<Longrightarrow> valid_id i"
  using assms
  by (auto simp: world_wf_def store_Get_def list_all_iff dest!: map_of_SomeD split: option.splits)

lemma valid_keys_update:
  "list_all (\<lambda>(i, _). valid_id i) jobs \<Longrightarrow> valid_id i \<Longrightarrow> list_all (\<lambda>(i, _). valid_id i) (AList.update i j jobs)"
  by (auto simp: list_all_iff dest!: set_AList_update)

lemma valid_keys_delete:
  "list_all (\<lambda>(i, _). valid_id i) jobs \<Longrightarrow> list_all (\<lambda>(i, _). valid_id i) (AList.delete i jobs)"
  by (auto simp: list_all_iff AList.delete_eq)

lemma valid_keys_persist:
  "list_all (\<lambda>(i, _). valid_id i) jobs \<Longrightarrow> list_all (\<lambda>(i, _). valid_id i) (persist_with store_Update j jobs)"
proof (cases "map_of jobs (j_ID j)")
  case (Some a)
  moreover assume v: "list_all (\<lambda>(i, _). valid_id i) jobs"
  ultimately have "valid_id (j_ID j)" by (auto simp: list_all_iff dest!: map_of_SomeD)
  with Some v show ?thesis by (simp add: persist_with_def store_Update_def valid_keys_update)
qed (simp add: persist_with_def store_Update_def)

section \<open>One job's record\<close>

text \<open>What the work on a job leaves alone.\<close>

definition frame :: "World \<Rightarrow> World \<Rightarrow> bool" where
  "frame w w' \<longleftrightarrow> w_tokens w' = w_tokens w \<and> w_queue w' = w_queue w \<and> w_accepting w' = w_accepting w"

text \<open>\<open>stored jobs jobs' i j\<close>: the store \<open>jobs'\<close> is \<open>jobs\<close> with the record of job \<open>i\<close> now \<open>j\<close>.\<close>

definition stored :: "MemoryStore \<Rightarrow> MemoryStore \<Rightarrow> string \<Rightarrow> Job \<Rightarrow> bool" where
  "stored jobs jobs' i j \<longleftrightarrow> store_wf jobs' \<and> j_ID j = i
     \<and> (\<forall>k. store_Get jobs' k = (if k = i then Ok j else store_Get jobs k))
     \<and> (list_all (\<lambda>(i, _). valid_id i) jobs \<longrightarrow> list_all (\<lambda>(i, _). valid_id i) jobs')"

lemma stored_self: "store_wf jobs \<Longrightarrow> store_Get jobs i = Ok j \<Longrightarrow> stored jobs jobs i j"
  using mem.get_id by (auto simp: stored_def)

lemma stored_persist:
  assumes "stored jobs jobs1 i j1" "j_ID j = i"
  shows "stored jobs (persist_with store_Update j jobs1) i j"
  using assms mem.wf_persist [of jobs1 j] valid_keys_persist [of jobs1 j]
  by (auto simp: stored_def mem.get_persist)

lemma stored_update:
  assumes "stored jobs jobs1 i j1" "j_ID j = i"
  shows "\<exists>jobs2. store_Update jobs1 j = Ok jobs2 \<and> jobs2 = persist_with store_Update j jobs1"
  using assms mem.update_iff [of jobs1 j] by (auto simp: stored_def persist_with_def)

text \<open>What progress leaves of a job.\<close>

definition same_request :: "Job \<Rightarrow> Job \<Rightarrow> bool" where
  "same_request j j' \<longleftrightarrow> j_ID j' = j_ID j \<and> j_RootFolderID j' = j_RootFolderID j
     \<and> j_ArchiveName j' = j_ArchiveName j \<and> j_ExportType j' = j_ExportType j
     \<and> j_CreatedAt j' = j_CreatedAt j \<and> j_StartedAt j' = j_StartedAt j
     \<and> j_TotalFiles j' = j_TotalFiles j \<and> j_TotalBytes j' = j_TotalBytes j"

lemma same_request_refl [simp]: "same_request j j"
  by (simp add: same_request_def)

lemma record_progress_stored:
  assumes "record_progress clock ps (j, w) = (j', w')" "stored jobs (w_jobs w) i j"
  shows "stored jobs (w_jobs w') i j' \<and> same_request j j' \<and> frame w w' \<and> w_files w' = w_files w
    \<and> (ps \<noteq> [] \<longrightarrow> (j_ProcessedFiles j', j_ProcessedBytes j') = last ps)"
  using assms
proof (induction ps arbitrary: j w)
  case (Cons p ps)
  obtain n b where p: "p = (n, b)" by (cases p)
  let ?j = "j\<lparr>j_ProcessedFiles := n, j_ProcessedBytes := b, j_UpdatedAt := clock n\<rparr>"
  have "stored jobs (w_jobs (persist ?j w)) i ?j"
    using stored_persist [OF Cons.prems(2), of ?j] Cons.prems(2) by (simp add: stored_def)
  with Cons.IH [of ?j "persist ?j w"] Cons.prems(1) p
  show ?case by (cases ps) (auto simp: same_request_def frame_def Let_def)
qed (simp add: frame_def)

section \<open>One generation\<close>

abbreviation temp_dir :: "ArchiveService \<Rightarrow> string" where
  "temp_dir s \<equiv> cfg_TempDir (sv_cfg s)"

text \<open>The files of the other jobs are as before.\<close>

definition other_files :: "string \<Rightarrow> string \<Rightarrow> archive_out filesystem \<Rightarrow> archive_out filesystem \<Rightarrow> bool" where
  "other_files dir i fs fs' \<longleftrightarrow> (\<forall>k. valid_id k \<longrightarrow> k \<noteq> i \<longrightarrow>
     temp_of dir fs' k = temp_of dir fs k \<and> final_of dir fs' k = final_of dir fs k)"

text \<open>What the removal after a failed generation leaves behind, when the system lets it work.\<close>

definition cleared :: "string \<Rightarrow> os_error option \<times> os_error option \<Rightarrow> archive_out filesystem \<Rightarrow> string \<Rightarrow> bool" where
  "cleared dir ff fs i \<longleftrightarrow> (ff = (None, None) \<longrightarrow> temp_of dir fs i = None \<and> final_of dir fs i = None)"

lemma create_write:
  assumes "storage_wf dir fs" "valid_id i" "local_Create dir f fs i = Ok fs1"
  shows "storage_wf dir (local_Write dir fs1 i out)" "temp_of dir (local_Write dir fs1 i out) i = Some [out]"
    "other_files dir i fs (local_Write dir fs1 i out)"
proof -
  have 1: "storage_wf dir fs1" by (rule loc.wf_create [OF assms])
  show "storage_wf dir (local_Write dir fs1 i out)" by (rule loc.wf_write [OF 1 assms(2)])
  note v = loc.write_views [OF 1 assms(2), of _ out] and c = loc.create_views [OF assms(1,2) _ assms(3)]
  show "temp_of dir (local_Write dir fs1 i out) i = Some [out]" using v [OF assms(2)] c [OF assms(2)] by simp
  show "other_files dir i fs (local_Write dir fs1 i out)"
    unfolding other_files_def
  proof (intro allI impI)
    fix k assume "valid_id k" "k \<noteq> i"
    with v [of k] c [of k] show "temp_of dir (local_Write dir fs1 i out) k = temp_of dir fs k
      \<and> final_of dir (local_Write dir fs1 i out) k = final_of dir fs k" by simp
  qed
qed

lemma undo_files:
  assumes "storage_wf dir fs" "valid_id i" "fs' = snd (local_Delete dir ff fs i)"
  shows "storage_wf dir fs'" "cleared dir ff fs' i" "other_files dir i fs fs'"
proof -
  show "storage_wf dir fs'" unfolding assms(3) by (rule loc.wf_remove [OF assms(1,2)])
  show "cleared dir ff fs' i"
    unfolding cleared_def
  proof
    assume ff: "ff = (None, None)"
    then have "local_Delete dir ff fs i = (None, fs')"
      using loc.remove_none [OF assms(1,2)] assms(3) by (metis prod.collapse)
    then show "temp_of dir fs' i = None \<and> final_of dir fs' i = None"
      using loc.remove_self [OF assms(1,2)] ff by simp
  qed
  show "other_files dir i fs fs'"
    unfolding other_files_def using loc.remove_other [OF assms(1,2)] assms(3) by blast
qed

lemma other_files_trans: "other_files dir i a b \<Longrightarrow> other_files dir i b c \<Longrightarrow> other_files dir i a c"
  by (simp add: other_files_def)

text \<open>The state and the job around \<open>generateArchive\<close>, whatever it returns.\<close>

definition around :: "ArchiveService \<Rightarrow> MemoryStore \<Rightarrow> string \<Rightarrow> Job \<Rightarrow> World \<Rightarrow> Job \<Rightarrow> World \<Rightarrow> bool" where
  "around s jobs i j w j' w' \<longleftrightarrow> stored jobs (w_jobs w') i j' \<and> same_request j j'
     \<and> frame w w'
     \<and> storage_wf (temp_dir s) (w_files w') \<and> other_files (temp_dir s) i (w_files w) (w_files w')"

text \<open>
  The way of \<open>generateArchive\<close> once the temporary file is open: the records of the progress, then
  either the file is undone or everything worked and the archive is published.
\<close>

lemma generateArchive_open:
  assumes g: "generateArchive s px j m w = (j', w', e)" "local_Create (temp_dir s) (px_create px) (w_files w) i = Ok fs1"
    and ge: "Generate (NewGenerator (cfg_MaxSizeBytes (sv_cfg s))) (px_gen px) m = (out, pr, ge)"
    and st: "stored jobs (w_jobs w) i j"
  obtains w3 where "stored jobs (w_jobs w3) i j'" "same_request j j'" "frame w w3"
    "pr \<noteq> [] \<longrightarrow> (j_ProcessedFiles j', j_ProcessedBytes j') = last pr"
    "e \<noteq> None \<Longrightarrow> w' = w3\<lparr>w_files := snd (local_Delete (temp_dir s) (px_delete px) (local_Write (temp_dir s) fs1 i out) i)\<rparr>"
    "e = None \<Longrightarrow> \<exists>fs2. ge = None \<and> local_RenameTemp (temp_dir s) (px_rename px) (local_Write (temp_dir s) fs1 i out) i = Ok fs2
       \<and> w' = w3\<lparr>w_files := fs2\<rparr>"
proof -
  let ?fs = "local_Write (temp_dir s) fs1 i out"
  have ij: "j_ID j = i" using st by (simp add: stored_def)
  obtain j3 w3 where rp: "record_progress (px_progress px) pr (j, w\<lparr>w_files := ?fs\<rparr>) = (j3, w3)" by force
  have rs: "stored jobs (w_jobs w3) i j3" "same_request j j3" "frame w w3"
    "pr \<noteq> [] \<longrightarrow> (j_ProcessedFiles j3, j_ProcessedBytes j3) = last pr" "w_files w3 = ?fs"
    using record_progress_stored [OF rp, of jobs i] st by (auto simp: frame_def)
  then have i3: "j_ID j3 = i" by (simp add: stored_def)
  have "j' = j3" "e \<noteq> None \<Longrightarrow> w' = w3\<lparr>w_files := snd (local_Delete (temp_dir s) (px_delete px) ?fs i)\<rparr>"
    "e = None \<Longrightarrow> \<exists>fs2. ge = None \<and> local_RenameTemp (temp_dir s) (px_rename px) ?fs i = Ok fs2 \<and> w' = w3\<lparr>w_files := fs2\<rparr>"
    using g ge rp rs(5) ij i3 by (auto simp: generateArchive_def Let_def split: option.splits sum.splits)
  with rs show ?thesis by (intro that) auto
qed

text \<open>How the files of the job are left: published, or as they were, or removed.\<close>

definition left_files :: "ArchiveService \<Rightarrow> process_env \<Rightarrow> ArchiveManifest \<Rightarrow> string \<Rightarrow> World \<Rightarrow> Job \<Rightarrow> World \<Rightarrow> archive_error option \<Rightarrow> bool" where
  "left_files s px m i w j' w' e \<longleftrightarrow>
     (if e = None
      then \<exists>out pr. Generate (NewGenerator (cfg_MaxSizeBytes (sv_cfg s))) (px_gen px) m = (out, pr, None)
        \<and> local_Open (temp_dir s) None (w_files w') i = Ok (FileNode [out]) \<and> temp_of (temp_dir s) (w_files w') i = None
        \<and> (pr \<noteq> [] \<longrightarrow> (j_ProcessedFiles j', j_ProcessedBytes j') = last pr)
      else w_files w' = w_files w \<or> cleared (temp_dir s) (px_delete px) (w_files w') i)"

lemma generateArchive_cases:
  assumes g: "generateArchive s px j m w = (j', w', e)"
    and st: "stored jobs (w_jobs w) i j" and wf: "storage_wf (temp_dir s) (w_files w)" "valid_id i"
  shows "around s jobs i j w j' w' \<and> left_files s px m i w j' w' e"
proof (cases "local_Create (temp_dir s) (px_create px) (w_files w) i")
  case (Inl x)
  have "j_ID j = i" using st by (simp add: stored_def)
  then have "j' = j" "w' = w" "e = Some (CreateTempArchiveFailed x)"
    using g Inl by (simp_all add: generateArchive_def Let_def)
  then show ?thesis using st wf by (simp add: around_def other_files_def frame_def left_files_def)
next
  case (Inr fs1)
  let ?d = "temp_dir s"
  obtain out pr ge where ge: "Generate (NewGenerator (cfg_MaxSizeBytes (sv_cfg s))) (px_gen px) m = (out, pr, ge)"
    by (metis prod_cases3)
  note cw = create_write [OF wf Inr, of out]
  note uf = undo_files [OF cw(1) wf(2) refl, of "px_delete px"]
  obtain w3 where w3: "stored jobs (w_jobs w3) i j'" "same_request j j'" "frame w w3"
    "pr \<noteq> [] \<longrightarrow> (j_ProcessedFiles j', j_ProcessedBytes j') = last pr"
    and undo: "e \<noteq> None \<Longrightarrow> w' = w3\<lparr>w_files := snd (local_Delete ?d (px_delete px) (local_Write ?d fs1 i out) i)\<rparr>"
    and pub: "e = None \<Longrightarrow> \<exists>fs2. ge = None \<and> local_RenameTemp ?d (px_rename px) (local_Write ?d fs1 i out) i = Ok fs2 \<and> w' = w3\<lparr>w_files := fs2\<rparr>"
    using generateArchive_open [OF g Inr ge st] by blast
  show ?thesis
  proof (cases "e = None")
    case False
    then show ?thesis
      using undo w3 uf other_files_trans [OF cw(3) uf(3)] by (auto simp: around_def frame_def left_files_def)
  next
    case True
    then obtain fs2 where r: "ge = None" "local_RenameTemp ?d (px_rename px) (local_Write ?d fs1 i out) i = Ok fs2" "w' = w3\<lparr>w_files := fs2\<rparr>"
      using pub by blast
    note p = loc.publish [OF wf Inr r(2)]
    have "temp_of ?d fs2 i = None" using loc.rename_views [OF cw(1) wf(2,2) r(2)] by simp
    then show ?thesis
      using ge r p w3 True by (auto simp: around_def frame_def other_files_def left_files_def)
  qed
qed

section \<open>One run of a job\<close>

text \<open>How a job can end: failed with no new token, or completed with its archive published.\<close>

definition ends_failed :: "ArchiveService \<Rightarrow> process_env \<Rightarrow> World \<Rightarrow> string \<Rightarrow> Job \<Rightarrow> World \<Rightarrow> bool" where
  "ends_failed s px w i j' w' \<longleftrightarrow> j_Status j' = JobStatusFailed \<and> w_tokens w' = w_tokens w
     \<and> (w_files w' = w_files w \<or> cleared (temp_dir s) (px_delete px) (w_files w') i \<or> (\<exists>e. px_rand px = Inl e))"

definition ends_completed :: "ArchiveService \<Rightarrow> process_env \<Rightarrow> World \<Rightarrow> string \<Rightarrow> Job \<Rightarrow> Job \<Rightarrow> World \<Rightarrow> bool" where
  "ends_completed s px w i j0 j' w' \<longleftrightarrow> j_Status j' = JobStatusCompleted
     \<and> (\<exists>m out pr. buildManifest (sv_upper_lower s) (sv_repo s) j0 = Some (Ok m)
          \<and> mf_TotalBytes m \<le> cfg_MaxSizeBytes (sv_cfg s)
          \<and> Generate (NewGenerator (cfg_MaxSizeBytes (sv_cfg s))) (px_gen px) m = (out, pr, None)
          \<and> local_Open (temp_dir s) None (w_files w') i = Ok (FileNode [out])
          \<and> temp_of (temp_dir s) (w_files w') i = None
          \<and> j_TotalFiles j' = mf_TotalFiles m \<and> j_TotalBytes j' = mf_TotalBytes m
          \<and> (pr \<noteq> [] \<longrightarrow> (j_ProcessedFiles j', j_ProcessedBytes j') = last pr))
     \<and> token_Issue (w_tokens w) (px_rand px) (px_issue px) i (cfg_Expiry (sv_cfg s)) = Ok (j_DownloadToken j', w_tokens w')
     \<and> j_ExpiresAt j' = px_now px + cfg_Expiry (sv_cfg s) \<and> j_CompletedAt j' = Some (px_now px)
     \<and> j_ArchiveName j' = j_ArchiveName j0 \<and> j_ExportType j' = j_ExportType j0"

definition run_frame :: "ArchiveService \<Rightarrow> World \<Rightarrow> string \<Rightarrow> Job \<Rightarrow> World \<Rightarrow> bool" where
  "run_frame s w i j' w' \<longleftrightarrow> stored (w_jobs w) (w_jobs w') i j' \<and> w_queue w' = w_queue w
     \<and> w_accepting w' = w_accepting w \<and> storage_wf (temp_dir s) (w_files w')
     \<and> other_files (temp_dir s) i (w_files w) (w_files w')"

lemma other_files_refl [simp]: "other_files dir i fs fs"
  by (simp add: other_files_def)

lemma failJob_run:
  assumes "around s (w_jobs w) i j w1 j1 w2" "w_files w1 = w_files w" "frame w w1"
    "w_files w2 = w_files w \<or> cleared (temp_dir s) (px_delete px) (w_files w2) i \<or> (\<exists>e. px_rand px = Inl e)"
  shows "\<exists>j'. run_frame s w i j' (failJob now j1 msg w2) \<and> ends_failed s px w i j' (failJob now j1 msg w2)
    \<and> j_ErrorMessage j' = msg"
proof -
  let ?j = "j1\<lparr>j_Status := JobStatusFailed, j_ErrorMessage := msg, j_UpdatedAt := now\<rparr>"
  have "stored (w_jobs w) (persist_with store_Update ?j (w_jobs w2)) i ?j"
    using assms(1) by (intro stored_persist [of _ _ _ j1]) (auto simp: around_def stored_def)
  with assms show ?thesis
    by (intro exI [of _ ?j]) (simp add: failJob_def run_frame_def ends_failed_def around_def frame_def)
qed

lemma completeJob_run:
  assumes a: "around s (w_jobs w) i j w1 j1 w2" "w_files w1 = w_files w" "frame w w1"
    and m: "buildManifest (sv_upper_lower s) (sv_repo s) j0 = Some (Ok m)" "mf_TotalBytes m \<le> cfg_MaxSizeBytes (sv_cfg s)"
    and g: "Generate (NewGenerator (cfg_MaxSizeBytes (sv_cfg s))) (px_gen px) m = (out, pr, None)"
      "local_Open (temp_dir s) None (w_files w2) i = Ok (FileNode [out])" "temp_of (temp_dir s) (w_files w2) i = None"
      "pr \<noteq> [] \<longrightarrow> (j_ProcessedFiles j1, j_ProcessedBytes j1) = last pr"
    and t: "j_TotalFiles j = mf_TotalFiles m" "j_TotalBytes j = mf_TotalBytes m"
      "j_ArchiveName j = j_ArchiveName j0" "j_ExportType j = j_ExportType j0"
  shows "\<exists>j'. run_frame s w i j' (completeJob s px j1 w2)
    \<and> (ends_failed s px w i j' (completeJob s px j1 w2) \<or> ends_completed s px w i j0 j' (completeJob s px j1 w2))"
proof -
  have tk: "w_tokens w2 = w_tokens w" and i: "j_ID j1 = i" and st: "stored (w_jobs w) (w_jobs w2) i j1"
    using a by (auto simp: around_def frame_def stored_def)
  show ?thesis
  proof (cases "token_Issue (w_tokens w) (px_rand px) (px_issue px) i (cfg_Expiry (sv_cfg s))")
    case (Inl e)
    then have "completeJob s px j1 w2 = failJob (px_fail px) j1 ''failed to issue download token'' w2"
      and "\<exists>e. px_rand px = Inl e"
      using tk i by (auto simp: completeJob_def token_Issue_def Let_def split: sum.splits)
    then show ?thesis using failJob_run [OF a] by metis
  next
    case (Inr p)
    obtain tok toks where p: "p = (tok, toks)" by (cases p)
    let ?j = "completed_job (cfg_Expiry (sv_cfg s)) (px_now px) tok j1"
    have c: "completeJob s px j1 w2 = persist ?j (w2\<lparr>w_tokens := toks\<rparr>)"
      using Inr tk i p by (simp add: completeJob_def)
    have "stored (w_jobs w) (persist_with store_Update ?j (w_jobs w2)) i ?j"
      by (rule stored_persist [OF st]) (simp add: completed_job_def i)
    then have "run_frame s w i ?j (completeJob s px j1 w2)"
      using a by (simp add: c run_frame_def around_def frame_def)
    moreover have "ends_completed s px w i j0 ?j (completeJob s px j1 w2)"
      using m g t Inr p a by (simp add: c ends_completed_def completed_job_def around_def same_request_def)
    ultimately show ?thesis by blast
  qed
qed

lemma buildManifest_request:
  "buildManifest ul repo (j\<lparr>j_StartedAt := a, j_Status := st, j_UpdatedAt := b\<rparr>) = buildManifest ul repo j"
  by (simp add: buildManifest_def split: sum.split option.split)

lemma around_persist:
  assumes "stored (w_jobs w) jobs1 i j1" "storage_wf (temp_dir s) (w_files w)"
  shows "around s (w_jobs w) i j1 (w\<lparr>w_jobs := jobs1\<rparr>) j1 (w\<lparr>w_jobs := jobs1\<rparr>)"
  using assms by (simp add: around_def frame_def)

text \<open>The end of a run, from the record with the manifest's totals on.\<close>

lemma archive_run:
  assumes s2: "stored (w_jobs w) (w_jobs w2) i j2" and f: "w_files w2 = w_files w" "frame w w2"
    and wf: "storage_wf (temp_dir s) (w_files w)" "valid_id i"
    and m: "buildManifest (sv_upper_lower s) (sv_repo s) j0 = Some (Ok m)" "mf_TotalBytes m \<le> cfg_MaxSizeBytes (sv_cfg s)"
    and j2: "j_TotalFiles j2 = mf_TotalFiles m" "j_TotalBytes j2 = mf_TotalBytes m"
      "j_ArchiveName j2 = j_ArchiveName j0" "j_ExportType j2 = j_ExportType j0"
    and g: "generateArchive s px j2 m w2 = (j3, w3, e)"
    and w': "w' = (if e = None then completeJob s px j3 w3 else failJob (px_fail px) j3 ''failed to generate archive'' w3)"
  shows "\<exists>j'. run_frame s w i j' w' \<and> (ends_failed s px w i j' w' \<or> ends_completed s px w i j0 j' w')"
proof -
  have gc: "around s (w_jobs w) i j2 w2 j3 w3" "left_files s px m i w2 j3 w3 e"
    using generateArchive_cases [OF g s2 _ wf(2)] wf(1) f(1) by auto
  show ?thesis
  proof (cases "e = None")
    case True
    then obtain out pr where gen: "Generate (NewGenerator (cfg_MaxSizeBytes (sv_cfg s))) (px_gen px) m = (out, pr, None)"
      "local_Open (temp_dir s) None (w_files w3) i = Ok (FileNode [out])"
      "temp_of (temp_dir s) (w_files w3) i = None" "pr \<noteq> [] \<longrightarrow> (j_ProcessedFiles j3, j_ProcessedBytes j3) = last pr"
      using gc(2) unfolding left_files_def by auto
    show ?thesis
      unfolding w' using True m(2) j2 completeJob_run [OF gc(1) f m(1) _ gen] by simp
  next
    case False
    then have "w_files w3 = w_files w \<or> cleared (temp_dir s) (px_delete px) (w_files w3) i"
      using gc(2) f(1) by (simp add: left_files_def split: if_splits)
    then show ?thesis using failJob_run [OF gc(1) f, of px] w' False by auto
  qed
qed

lemma ProcessJob_run:
  assumes wf: "world_wf s w" and get: "store_Get (w_jobs w) i = Ok j0" and run: "ProcessJob s px w i = Returned w'"
  shows "\<exists>j'. run_frame s w i j' w' \<and> (ends_failed s px w i j' w' \<or> ends_completed s px w i j0 j' w')"
proof -
  note W = world_wfD [OF wf]
  have v: "valid_id i" using W(4) get by blast
  define j1 where "j1 = j0\<lparr>j_StartedAt := px_started px, j_Status := JobStatusProcessing, j_UpdatedAt := px_started px\<rparr>"
  define jobs1 where "jobs1 = persist_with store_Update j1 (w_jobs w)"
  have s0: "stored (w_jobs w) (w_jobs w) i j0" by (rule stored_self [OF W(1) get])
  have i1: "j_ID j1 = i" using mem.get_id [OF W(1) get] by (simp add: j1_def)
  have u1: "store_Update (w_jobs w) j1 = Ok jobs1" using stored_update [OF s0 i1] by (simp add: jobs1_def)
  have s1: "stored (w_jobs w) jobs1 i j1" unfolding jobs1_def by (rule stored_persist [OF s0 i1])
  note P = ProcessJob_def [of s px w i] j1_def [symmetric] Let_def get u1
    buildManifest_request [where j = j0 and a = "px_started px" and st = JobStatusProcessing and b = "px_started px", folded j1_def]
  consider (none) "buildManifest (sv_upper_lower s) (sv_repo s) j0 = None"
    | (failed) e where "buildManifest (sv_upper_lower s) (sv_repo s) j0 = Some (Inl e)"
    | (manifest) m where "buildManifest (sv_upper_lower s) (sv_repo s) j0 = Some (Ok m)"
    by (metis option.exhaust sum.exhaust)
  then show ?thesis
  proof cases
    case none
    then show ?thesis using run by (simp add: P)
  next
    case failed
    then have "w' = failJob (px_fail px) j1 ''failed to read archive manifest from database'' (w\<lparr>w_jobs := jobs1\<rparr>)"
      using run by (simp add: P)
    moreover have "frame w (w\<lparr>w_jobs := jobs1\<rparr>)" "w_files (w\<lparr>w_jobs := jobs1\<rparr>) = w_files w" by (simp_all add: frame_def)
    ultimately show ?thesis using failJob_run [OF around_persist [OF s1 W(2)], of px] by blast
  next
    case manifest
    define j2 where "j2 = j1\<lparr>j_TotalFiles := mf_TotalFiles m, j_TotalBytes := mf_TotalBytes m, j_UpdatedAt := px_totals px\<rparr>"
    define w2 where "w2 = w\<lparr>w_jobs := persist_with store_Update j2 jobs1\<rparr>"
    have i2: "j_ID j2 = i" using i1 by (simp add: j2_def)
    have u2: "store_Update jobs1 j2 = Ok (w_jobs w2)" using stored_update [OF s1 i2] by (simp add: w2_def)
    have s2: "stored (w_jobs w) (w_jobs w2) i j2" using stored_persist [OF s1 i2] by (simp add: w2_def)
    have fr: "frame w w2" and fw: "w_files w2 = w_files w" by (simp_all add: frame_def w2_def)
    note Q = P manifest j2_def [symmetric] u2
    show ?thesis
    proof (cases "cfg_MaxSizeBytes (sv_cfg s) < mf_TotalBytes m")
      case True
      then have "w' = failJob (px_fail px) j2 ''archive exceeds maximum allowed size'' w2"
        using run by (simp add: Q) (simp add: w2_def)
      then show ?thesis
        using failJob_run [OF around_persist [OF s2 W(2)], of px] fr fw by (auto simp: w2_def)
    next
      case False
      obtain j3 w3 e where g: "generateArchive s px j2 m w2 = (j3, w3, e)" by (metis prod_cases3)
      have "w' = (if e = None then completeJob s px j3 w3 else failJob (px_fail px) j3 ''failed to generate archive'' w3)"
        using run False g by (simp add: Q w2_def split: option.splits if_splits)
      then show ?thesis
        using archive_run [OF s2 fw fr W(2) v manifest _ _ _ _ _ g] False by (simp add: j2_def j1_def)
    qed
  qed
qed

section \<open>A run in which nothing outside fails\<close>

definition px_quiet :: "process_env \<Rightarrow> bool" where
  "px_quiet px \<longleftrightarrow> quiet (px_gen px) \<and> px_create px = None \<and> px_close px = None \<and> px_rename px = None
     \<and> (\<exists>raw. px_rand px = Inr raw)"

lemma generateArchive_quiet:
  assumes "px_quiet px" "storage_wf (temp_dir s) (w_files w)" "valid_id (j_ID j)" "stored jobs (w_jobs w) (j_ID j) j"
    "Generate (NewGenerator (cfg_MaxSizeBytes (sv_cfg s))) (px_gen px) m = (out, pr, None)"
  shows "\<exists>j' w'. generateArchive s px j m w = (j', w', None)"
proof -
  let ?d = "temp_dir s" and ?i = "j_ID j"
  obtain fs1 fs2 where f: "local_Create ?d None (w_files w) ?i = Ok fs1"
    "local_RenameTemp ?d None (local_Write ?d fs1 ?i out) ?i = Ok fs2"
    using loc.publish_none [OF assms(2,3), of out] by blast
  obtain j3 w3 where rp: "record_progress (px_progress px) pr (j, w\<lparr>w_files := local_Write ?d fs1 ?i out\<rparr>) = (j3, w3)"
    by force
  have "j_ID j3 = ?i" "w_files w3 = local_Write ?d fs1 ?i out"
    using record_progress_stored [OF rp, of jobs ?i] assms(4) by (auto simp: stored_def)
  then show ?thesis
    using f rp assms(1,5) by (simp add: generateArchive_def px_quiet_def Let_def)
qed

lemma ProcessJob_quiet:
  assumes wf: "world_wf s w" and get: "store_Get (w_jobs w) i = Ok j0"
    and m: "buildManifest (sv_upper_lower s) (sv_repo s) j0 = Some (Ok m)" "mf_TotalBytes m \<le> cfg_MaxSizeBytes (sv_cfg s)"
    and q: "px_quiet px"
    and g: "Generate (NewGenerator (cfg_MaxSizeBytes (sv_cfg s))) (px_gen px) m = (out, pr, None)"
  shows "\<exists>w' j'. ProcessJob s px w i = Returned w' \<and> store_Get (w_jobs w') i = Ok j' \<and> j_Status j' = JobStatusCompleted"
proof -
  note W = world_wfD [OF wf]
  have v: "valid_id i" and id0: "j_ID j0 = i" using W(4) mem.get_id [OF W(1)] get by auto
  let ?j1 = "j0\<lparr>j_StartedAt := px_started px, j_Status := JobStatusProcessing, j_UpdatedAt := px_started px\<rparr>"
  let ?jobs1 = "persist_with store_Update ?j1 (w_jobs w)"
  let ?j2 = "?j1\<lparr>j_TotalFiles := mf_TotalFiles m, j_TotalBytes := mf_TotalBytes m, j_UpdatedAt := px_totals px\<rparr>"
  let ?jobs2 = "persist_with store_Update ?j2 ?jobs1"
  have i: "j_ID ?j1 = i" "j_ID ?j2 = i" using id0 by simp_all
  have s0: "stored (w_jobs w) (w_jobs w) i j0" by (rule stored_self [OF W(1) get])
  note s1 = stored_persist [OF s0 i(1)]
  note s2 = stored_persist [OF s1 i(2)]
  have u: "store_Update (w_jobs w) ?j1 = Ok ?jobs1" "store_Update ?jobs1 ?j2 = Ok ?jobs2"
    using stored_update [OF s0 i(1)] stored_update [OF s1 i(2)] by auto
  have "\<exists>j3 w3. generateArchive s px ?j2 m (w\<lparr>w_jobs := ?jobs2\<rparr>) = (j3, w3, None)"
    using i(2) v W(2) s2 by (intro generateArchive_quiet [OF q _ _ _ g, where jobs = "w_jobs w"]) simp_all
  then obtain j3 w3 where ga: "generateArchive s px ?j2 m (w\<lparr>w_jobs := ?jobs2\<rparr>) = (j3, w3, None)" by blast
  have r: "ProcessJob s px w i = Returned (completeJob s px j3 w3)"
    using get u m ga by (simp add: ProcessJob_def Let_def buildManifest_request)
  have s2': "stored (w_jobs w) (w_jobs (w\<lparr>w_jobs := ?jobs2\<rparr>)) i ?j2" using s2 by simp
  have "around s (w_jobs w) i ?j2 (w\<lparr>w_jobs := ?jobs2\<rparr>) j3 w3"
    using generateArchive_cases [OF ga s2' _ v] W(2) by simp
  then have st: "stored (w_jobs w) (w_jobs w3) i j3" by (simp add: around_def)
  obtain raw where raw: "px_rand px = Inr raw" using q by (auto simp: px_quiet_def)
  let ?j = "completed_job (cfg_Expiry (sv_cfg s)) (px_now px) (b64_encode raw) j3"
  have "stored (w_jobs w) (persist_with store_Update ?j (w_jobs w3)) i ?j"
    using st by (intro stored_persist [OF st]) (simp add: completed_job_def stored_def)
  then have "store_Get (w_jobs (completeJob s px j3 w3)) i = Ok ?j"
    using raw by (simp add: completeJob_def token_Issue_def Let_def stored_def)
  with r show ?thesis by (auto simp: completed_job_def)
qed

section \<open>Creating a job\<close>

lemma CreateJob_Ok:
  assumes "CreateJob s now i w req = (Ok j, w')"
  shows "w_accepting w \<and> sv_uuid_parse s (req_RootFolderID req) = Some (j_RootFolderID j)
    \<and> validateArchiveName (req_ArchiveName req) = Ok (j_ArchiveName j)
    \<and> validateExportType (req_ExportType req) = Ok (j_ExportType j)
    \<and> r_FolderExists (sv_repo s) (j_RootFolderID j) = Ok True
    \<and> j = new_job i (j_RootFolderID j) (j_ArchiveName j) (j_ExportType j) now
    \<and> int (length (w_queue w)) < cfg_QueueSize (sv_cfg s)
    \<and> (\<exists>jobs. store_Create (w_jobs w) j = Ok jobs \<and> w' = w\<lparr>w_jobs := jobs, w_queue := w_queue w @ [i]\<rparr>)"
  using assms
  by (auto simp: CreateJob_def validateRootFolderID_def new_job_def Let_def
      split: if_splits sum.splits option.splits bool.splits)

lemma validate_errors:
  "validateRootFolderID u r = Err e \<Longrightarrow> \<exists>m. e = ErrValidation m"
  "validateArchiveName n = Err e \<Longrightarrow> \<exists>m. e = ErrValidation m"
  "validateExportType t = Err e \<Longrightarrow> \<exists>m. e = ErrValidation m"
  by (auto simp: validateRootFolderID_def validateArchiveName_def validateExportType_def Let_def
      split: if_splits option.splits)

lemma new_job_fields [simp]:
  "j_ID (new_job i r n t now) = i" "j_RootFolderID (new_job i r n t now) = r"
  "j_ArchiveName (new_job i r n t now) = n" "j_ExportType (new_job i r n t now) = t"
  "j_Status (new_job i r n t now) = JobStatusQueued" "j_CreatedAt (new_job i r n t now) = now"
  by (simp_all add: new_job_def)

lemma CreateJob_Err:
  assumes "CreateJob s now i w req = (Err e, w')"
  shows "w' = w \<and> (e = ErrNotAccepting \<longrightarrow> \<not> w_accepting w) \<and> e \<noteq> ErrQueueFull
    \<or> (\<exists>j jobs. j_ID j = i \<and> store_Create (w_jobs w) j = Ok jobs \<and> w' = w\<lparr>w_jobs := store_Delete jobs i\<rparr>
         \<and> e = ErrQueueFull \<and> cfg_QueueSize (sv_cfg s) \<le> int (length (w_queue w)))"
proof -
  consider (closed) "\<not> w_accepting w"
    | (root) x where "w_accepting w" "validateRootFolderID (sv_uuid_parse s) (req_RootFolderID req) = Err x"
    | (name) r x where "w_accepting w" "validateRootFolderID (sv_uuid_parse s) (req_RootFolderID req) = Ok r"
        "validateArchiveName (req_ArchiveName req) = Err x"
    | (type) r n x where "w_accepting w" "validateRootFolderID (sv_uuid_parse s) (req_RootFolderID req) = Ok r"
        "validateArchiveName (req_ArchiveName req) = Ok n" "validateExportType (req_ExportType req) = Err x"
    | (valid) r n t where "w_accepting w" "validateRootFolderID (sv_uuid_parse s) (req_RootFolderID req) = Ok r"
        "validateArchiveName (req_ArchiveName req) = Ok n" "validateExportType (req_ExportType req) = Ok t"
    by (metis sum.exhaust)
  then show ?thesis
  proof cases
    case closed
    then show ?thesis using assms by (simp add: CreateJob_def)
  next
    case root
    then show ?thesis using assms validate_errors(1) [OF root(2)] by (auto simp: CreateJob_def)
  next
    case name
    then show ?thesis using assms validate_errors(2) [OF name(3)] by (auto simp: CreateJob_def)
  next
    case type
    then show ?thesis using assms validate_errors(3) [OF type(4)] by (auto simp: CreateJob_def)
  next
    case valid
    let ?j = "new_job i r n t now"
    show ?thesis
    proof (cases "r_FolderExists (sv_repo s) r = Inr True \<and> (\<exists>jobs. store_Create (w_jobs w) ?j = Ok jobs)")
      case True
      then obtain jobs where "store_Create (w_jobs w) ?j = Ok jobs" by blast
      then show ?thesis
        using True assms valid
        by (intro disjI2 exI [of _ ?j] exI [of _ jobs]) (auto simp: CreateJob_def Let_def split: if_splits)
    next
      case False
      then show ?thesis
        using assms valid by (auto simp: CreateJob_def Let_def split: sum.splits bool.splits)
    qed
  qed
qed

lemma store_Create_keys:
  "store_Create jobs j = Ok jobs' \<Longrightarrow> jobs' = AList.update (j_ID j) j jobs"
  by (auto simp: store_Create_def split: option.splits)

lemma CreateJob_wf:
  assumes "world_wf s w" "valid_id i" "CreateJob s now i w req = (Ok j, w')"
  shows "world_wf s w'" "j_ID j = i" "GetJob w' i = Ok j" "w_queue w' = w_queue w @ [i]"
proof -
  note c = CreateJob_Ok [OF assms(3)]
  then obtain jobs where j: "store_Create (w_jobs w) j = Ok jobs" "w' = w\<lparr>w_jobs := jobs, w_queue := w_queue w @ [i]\<rparr>"
    by blast
  show nj: "j_ID j = i" using c new_job_fields by metis
  show "world_wf s w'"
    using assms(1,2) c j nj mem.wf_create [OF _ j(1)] store_Create_keys [OF j(1)]
    by (simp add: world_wf_def valid_keys_update)
  show "GetJob w' i = Ok j" "w_queue w' = w_queue w @ [i]" using j nj mem.get_create [OF j(1)] by (simp_all add: GetJob_def)
qed

section \<open>Claims\<close>


text \<open>
  C22. A refused request leaves no trace: every job lookup, the queue, the tokens and the files
  are as before, also when the record had already been created and the queue turned out to be
  full; the queue-full error is given only when the queue is full, and the shutting-down error
  only when the service has stopped accepting.
\<close>

theorem create_job_refused:
  assumes "world_wf s w" "CreateJob s now i w req = (Err e, w')"
  shows "(\<forall>k. GetJob w' k = GetJob w k) \<and> w_queue w' = w_queue w \<and> w_tokens w' = w_tokens w
    \<and> w_files w' = w_files w \<and> w_accepting w' = w_accepting w \<and> world_wf s w'
    \<and> (e = ErrQueueFull \<longrightarrow> int (length (w_queue w)) = cfg_QueueSize (sv_cfg s))
    \<and> (e = ErrNotAccepting \<longrightarrow> \<not> w_accepting w)"
proof (cases "w' = w \<and> (e = ErrNotAccepting \<longrightarrow> \<not> w_accepting w) \<and> e \<noteq> ErrQueueFull")
  case True
  then show ?thesis using assms(1) by simp
next
  case False
  then obtain j jobs where j: "j_ID j = i" "store_Create (w_jobs w) j = Ok jobs" "w' = w\<lparr>w_jobs := store_Delete jobs i\<rparr>"
    "e = ErrQueueFull" "cfg_QueueSize (sv_cfg s) \<le> int (length (w_queue w))"
    using CreateJob_Err [OF assms(2)] by blast
  note W = world_wfD [OF assms(1)]
  have "store_wf (store_Delete jobs i)" using mem.wf_remove [OF mem.wf_create [OF W(1) j(2)]] .
  moreover have "list_all (\<lambda>(i, _). valid_id i) (store_Delete jobs i)"
    using assms(1) store_Create_keys [OF j(2)] j(1)
    by (auto simp: store_Delete_def world_wf_def list_all_iff AList.delete_eq dest!: set_AList_update)
  ultimately show ?thesis
    using j mem.create_rollback [OF W(1) j(2)] W assms(1) by (simp add: GetJob_def world_wf_def)
qed

text \<open>A concrete world for the witnesses: one queued job, whose folder has one file and one empty folder.\<close>

definition wit_cfg :: ArchiveConfig where
  "wit_cfg = \<lparr>cfg_TempDir = ''/a'', cfg_MaxSizeBytes = 1000, cfg_Expiry = 60, cfg_Workers = 1,
     cfg_QueueSize = 1, cfg_CleanupInterval = 10, cfg_FileConcurrency = 1\<rparr>"

definition wit_svc :: ArchiveService where
  "wit_svc = \<lparr>sv_repo = wit_repo, sv_cfg = wit_cfg, sv_uuid_parse = Some, sv_upper_lower = (\<lambda>r. r)\<rparr>"

definition wit_world :: World where
  "wit_world = \<lparr>w_jobs = [(''job1'', wit_job)], w_tokens = NewInMemoryService, w_files = [(''/a'', DirNode)],
     w_queue = [''job1''], w_accepting = True\<rparr>"

definition wit_px :: process_env where
  "wit_px = \<lparr>px_started = 2, px_totals = 3, px_progress = (\<lambda>n. 4), px_now = 5, px_issue = 6, px_fail = 7,
     px_rand = Inr wit_raw, px_create = None, px_close = None, px_rename = None, px_delete = (None, None),
     px_gen = \<lparr>ge_fetch = (\<lambda>_. Ok \<lparr>rd_chunks = [''abc''], rd_end = EOF, rd_eager = False\<rparr>),
       ge_fault = (\<lambda>_. None), ge_ctx = (\<lambda>_. None)\<rparr>\<rparr>"

lemma wit_world_wf: "world_wf wit_svc wit_world"
  by (simp add: world_wf_def wit_world_def wit_svc_def wit_cfg_def store_wf_def wit_job_def valid_id_def
      storage_wf_def child_name_def dir_prefix_def Clean_def clean_loop.simps at_end_def take_elem_def
      drop_elem_def HasPrefix_def Let_def)

lemma wit_get: "store_Get (w_jobs wit_world) ''job1'' = Ok wit_job"
  by (simp add: wit_world_def store_Get_def)

lemma wit_built: "buildManifest (sv_upper_lower wit_svc) (sv_repo wit_svc) wit_job = Some (Ok wit_manifest)"
  using wit_buildManifest [of "\<lambda>r. r"] by (simp add: wit_svc_def)

lemma wit_ready:
  "quiet (px_gen wit_px)" "list_all (file_ready (px_gen wit_px)) (mf_Files wit_manifest)"
  "list_all folder_ready (mf_EmptyFolders wit_manifest)"
proof -
  have "sanitizeArchivePath ''Backup/a.txt'' = Ok ''Backup/a.txt''" "sanitizeArchivePath ''Backup/e'' = Ok ''Backup/e''"
    by (simp_all add: sanitize_safe_id safe_entry_path_def proper_name_def has_drive_letter_def)
  then show "quiet (px_gen wit_px)" "list_all (file_ready (px_gen wit_px)) (mf_Files wit_manifest)"
    "list_all folder_ready (mf_EmptyFolders wit_manifest)"
    by (simp_all add: quiet_def file_ready_def folder_ready_def wit_px_def wit_manifest_def wit_file_def
        wit_folder_def body_bytes_def)
qed

lemma wit_px_quiet: "px_quiet wit_px"
  using wit_ready(1) by (simp add: px_quiet_def) (simp add: wit_px_def)

lemma wit_run:
  "\<exists>w' j'. ProcessJob wit_svc wit_px wit_world ''job1'' = Returned w' \<and> store_Get (w_jobs w') ''job1'' = Ok j'
     \<and> j_Status j' = JobStatusCompleted"
proof -
  have "\<exists>out pr. Generate (NewGenerator (cfg_MaxSizeBytes (sv_cfg wit_svc))) (px_gen wit_px) wit_manifest = (out, pr, None)"
    by (rule Generate_quiet [OF wit_ready])
      (simp_all add: NewGenerator_def wit_svc_def wit_cfg_def wit_manifest_def wit_file_def)
  then show ?thesis
    using ProcessJob_quiet [OF wit_world_wf wit_get wit_built _ wit_px_quiet]
    by (auto simp: wit_svc_def wit_cfg_def wit_manifest_def)
qed

text \<open>
  A job that is processed to the end of a run is in a terminal state, completed or failed,
  and the run keeps the service's invariant and the queue.
\<close>

lemma process_job_terminal:
  assumes "world_wf s w" "GetJob w i = Ok j0" "ProcessJob s px w i = Returned w'"
  shows "\<exists>j'. GetJob w' i = Ok j' \<and> j_Status j' \<in> {JobStatusCompleted, JobStatusFailed} \<and> terminal (j_Status j')
    \<and> world_wf s w' \<and> w_queue w' = w_queue w \<and> w_accepting w' = w_accepting w"
proof -
  obtain j' where j: "run_frame s w i j' w'" "ends_failed s px w i j' w' \<or> ends_completed s px w i j0 j' w'"
    using ProcessJob_run [OF assms(1) assms(2) [unfolded GetJob_def] assms(3)] by blast
  then show ?thesis
    using assms(1)
    by (auto simp: run_frame_def ends_failed_def ends_completed_def GetJob_def stored_def world_wf_def terminal_def)
qed

lemma completed_archive:
  assumes "world_wf s w" "GetJob w i = Ok j0" "ProcessJob s px w i = Returned w'"
    "GetJob w' i = Ok j'" "j_Status j' = JobStatusCompleted"
    "0 \<le> cfg_MaxSizeBytes (sv_cfg s)" "cfg_MaxSizeBytes (sv_cfg s) < 2 ^ 63 - 1"
  shows "\<exists>m out es ds. buildManifest (sv_upper_lower s) (sv_repo s) j0 = Some (Ok m)
    \<and> OpenArchive s None w' i = Ok (FileNode [out]) \<and> temp_of (temp_dir s) (w_files w') i = None
    \<and> j_CompletedAt j' = Some (px_now px) \<and> j_ArchiveName j' = j_ArchiveName j0 \<and> j_ExportType j' = j_ExportType j0
    \<and> ao_closed out \<and> ao_entries out = es @ ds
    \<and> list_all2 (file_entry (mf_ExportType m = ExportTypeTar) (px_gen px)) (mf_Files m) es
    \<and> list_all2 dir_entry (mf_EmptyFolders m) ds
    \<and> sum_list (map entry_bytes es) \<le> cfg_MaxSizeBytes (sv_cfg s)
    \<and> (\<forall>t k. ValidateDownloadToken w' t k (j_DownloadToken j') =
         (if k \<noteq> i then Err ErrInvalidToken
          else if px_issue px + cfg_Expiry (sv_cfg s) < t then Err ErrTokenExpired else Ok ()))"
proof -
  obtain jr where j: "run_frame s w i jr w'" "ends_failed s px w i jr w' \<or> ends_completed s px w i j0 jr w'"
    using ProcessJob_run [OF assms(1) assms(2) [unfolded GetJob_def] assms(3)] by blast
  then have "jr = j'" using assms(4) by (simp add: run_frame_def stored_def GetJob_def)
  with j assms(5) have e: "ends_completed s px w i j0 j' w'" by (auto simp: ends_failed_def)
  then obtain m out pr where m: "buildManifest (sv_upper_lower s) (sv_repo s) j0 = Some (Ok m)"
    "Generate (NewGenerator (cfg_MaxSizeBytes (sv_cfg s))) (px_gen px) m = (out, pr, None)"
    "local_Open (temp_dir s) None (w_files w') i = Ok (FileNode [out])" "temp_of (temp_dir s) (w_files w') i = None"
    by (auto simp: ends_completed_def)
  obtain es ds where "ao_entries out = es @ ds" "ao_closed out"
    "list_all2 (file_entry (mf_ExportType m = ExportTypeTar) (px_gen px)) (mf_Files m) es"
    "list_all2 dir_entry (mf_EmptyFolders m) ds" "sum_list (map entry_bytes es) \<le> cfg_MaxSizeBytes (sv_cfg s)"
    using Generate_ok [OF m(2)] assms(6,7) by (auto simp: NewGenerator_def)
  moreover have "token_Issue (w_tokens w) (px_rand px) (px_issue px) i (cfg_Expiry (sv_cfg s))
      = Ok (j_DownloadToken j', w_tokens w')"
    using e by (simp add: ends_completed_def)
  ultimately show ?thesis
    using m e tok.issue_new by (auto simp: OpenArchive_def ValidateDownloadToken_def ends_completed_def)
qed

text \<open>
  C1. The central promise: when a run leaves the job completed, its published archive is the
  closed archive of the job's manifest (one entry per file with the whole body, then the empty
  folders), nothing temporary is left, and the token in the record opens this job and no other
  until it expires.
\<close>

theorem completed_job_has_archive:
  assumes "world_wf s w" "GetJob w i = Ok j0" "ProcessJob s px w i = Returned w'"
    "GetJob w' i = Ok j'" "j_Status j' = JobStatusCompleted"
    "0 \<le> cfg_MaxSizeBytes (sv_cfg s)" "cfg_MaxSizeBytes (sv_cfg s) < 2 ^ 63 - 1"
  shows "\<exists>m out es ds. buildManifest (sv_upper_lower s) (sv_repo s) j0 = Some (Ok m)
    \<and> OpenArchive s None w' i = Ok (FileNode [out]) \<and> temp_of (temp_dir s) (w_files w') i = None
    \<and> ao_closed out \<and> ao_entries out = es @ ds
    \<and> list_all2 (file_entry (mf_ExportType m = ExportTypeTar) (px_gen px)) (mf_Files m) es
    \<and> list_all2 dir_entry (mf_EmptyFolders m) ds
    \<and> sum_list (map entry_bytes es) \<le> cfg_MaxSizeBytes (sv_cfg s)
    \<and> (\<forall>t k. ValidateDownloadToken w' t k (j_DownloadToken j') =
         (if k \<noteq> i then Err ErrInvalidToken
          else if px_issue px + cfg_Expiry (sv_cfg s) < t then Err ErrTokenExpired else Ok ()))"
  using completed_archive [OF assms] by blast

theorem completed_job_has_archive_witness:
  "\<exists>w' j' out. ProcessJob wit_svc wit_px wit_world ''job1'' = Returned w' \<and> GetJob w' ''job1'' = Ok j'
     \<and> OpenArchive wit_svc None w' ''job1'' = Ok (FileNode [out]) \<and> ao_closed out
     \<and> ValidateDownloadToken w' 66 ''job1'' (j_DownloadToken j') = Ok ()
     \<and> ValidateDownloadToken w' 67 ''job1'' (j_DownloadToken j') = Err ErrTokenExpired"
proof -
  obtain w' j' where r: "ProcessJob wit_svc wit_px wit_world ''job1'' = Returned w'"
    "store_Get (w_jobs w') ''job1'' = Ok j'" "j_Status j' = JobStatusCompleted" using wit_run by blast
  have g: "GetJob wit_world ''job1'' = Ok wit_job" "GetJob w' ''job1'' = Ok j'" using wit_get r(2) by (simp_all add: GetJob_def)
  have c: "cfg_MaxSizeBytes (sv_cfg wit_svc) = 1000" "cfg_Expiry (sv_cfg wit_svc) = 60" "px_issue wit_px = 6"
    by (simp_all add: wit_svc_def wit_cfg_def wit_px_def)
  show ?thesis
    using completed_job_has_archive [OF wit_world_wf g(1) r(1) g(2) r(3)] r(1) g(2) unfolding c by auto
qed

text \<open>
  C9. A run that nothing outside disturbs completes the job: with the manifest read, every
  file's body delivered with its declared size and a total within the limit, random bytes for
  the token and a file system that obeys, \<open>ProcessJob\<close> returns with the job completed.
\<close>

theorem process_job_succeeds:
  assumes "world_wf s w" "GetJob w i = Ok j0"
    "buildManifest (sv_upper_lower s) (sv_repo s) j0 = Some (Ok m)" "mf_TotalBytes m \<le> cfg_MaxSizeBytes (sv_cfg s)"
    "px_quiet px" "list_all (file_ready (px_gen px)) (mf_Files m)" "list_all folder_ready (mf_EmptyFolders m)"
    "sum_list (map af_FileSize (mf_Files m)) \<le> cfg_MaxSizeBytes (sv_cfg s)" "cfg_MaxSizeBytes (sv_cfg s) < 2 ^ 63 - 1"
  shows "\<exists>w' j'. ProcessJob s px w i = Returned w' \<and> GetJob w' i = Ok j' \<and> j_Status j' = JobStatusCompleted"
proof -
  have "\<exists>out pr. Generate (NewGenerator (cfg_MaxSizeBytes (sv_cfg s))) (px_gen px) m = (out, pr, None)"
    using assms(5-9) by (intro Generate_quiet) (simp_all add: NewGenerator_def px_quiet_def)
  then show ?thesis
    using ProcessJob_quiet [OF assms(1) _ assms(3,4,5)] assms(2) unfolding GetJob_def by blast
qed

theorem process_job_succeeds_witness:
  "\<exists>w' j'. ProcessJob wit_svc wit_px wit_world ''job1'' = Returned w' \<and> GetJob w' ''job1'' = Ok j'
     \<and> j_Status j' = JobStatusCompleted"
  using process_job_succeeds [OF wit_world_wf _ wit_built _ wit_px_quiet wit_ready(2,3)] wit_get
  by (simp add: GetJob_def wit_svc_def wit_cfg_def wit_manifest_def wit_file_def)


lemma wit_failing_run:
  "\<exists>w' j'. ProcessJob wit_svc (wit_px\<lparr>px_create := Some EISDIR\<rparr>) wit_world ''job1'' = Returned w'
     \<and> GetJob w' ''job1'' = Ok j' \<and> j_Status j' = JobStatusFailed"
proof -
  have f: "px_create (wit_px\<lparr>px_create := Some EISDIR\<rparr>) = Some EISDIR" "sv_upper_lower wit_svc = (\<lambda>r. r)"
    "sv_repo wit_svc = wit_repo" "cfg_MaxSizeBytes (sv_cfg wit_svc) = 1000" "mf_TotalBytes wit_manifest = 3"
    by (simp_all add: wit_svc_def wit_cfg_def wit_manifest_def)
  have id: "j_ID wit_job = ''job1''" by (simp add: wit_job_def)
  have "local_Create d (Some EISDIR) fs i = Err (CreateTempArchive EISDIR)" for d i and fs :: "archive_out filesystem"
    by (simp add: local_Create_def os_OpenTrunc_def)
  then show ?thesis
    using wit_buildManifest [of "\<lambda>r. r"] id
    by (simp add: ProcessJob_def f buildManifest_request Let_def generateArchive_def is_panic_def GetJob_def failJob_def
        store_Update_def wit_world_def persist_with_def store_Get_def)
qed


text \<open>
  Jobs do not interfere: processing one job changes no other job's record, temporary file
  or published archive, and the verdict on any token except a newly drawn one.
\<close>

lemma process_job_frame:
  assumes "world_wf s w" "GetJob w i = Ok j0" "ProcessJob s px w i = Returned w'" "valid_id k" "k \<noteq> i"
  shows "GetJob w' k = GetJob w k
    \<and> temp_of (temp_dir s) (w_files w') k = temp_of (temp_dir s) (w_files w) k
    \<and> final_of (temp_dir s) (w_files w') k = final_of (temp_dir s) (w_files w) k
    \<and> (\<exists>new. \<forall>t tok. tok \<noteq> new \<longrightarrow> ValidateDownloadToken w' t k tok = ValidateDownloadToken w t k tok)"
proof -
  obtain j' where j: "run_frame s w i j' w'" "ends_failed s px w i j' w' \<or> ends_completed s px w i j0 j' w'"
    using ProcessJob_run [OF assms(1) assms(2) [unfolded GetJob_def] assms(3)] by blast
  have "\<exists>new. \<forall>t tok. tok \<noteq> new \<longrightarrow> ValidateDownloadToken w' t k tok = ValidateDownloadToken w t k tok"
    using j(2)
  proof
    assume "ends_completed s px w i j0 j' w'"
    then have "token_Issue (w_tokens w) (px_rand px) (px_issue px) i (cfg_Expiry (sv_cfg s))
        = Ok (j_DownloadToken j', w_tokens w')" by (simp add: ends_completed_def)
    from tok.issue_old [OF this] show ?thesis
      by (intro exI [of _ "j_DownloadToken j'"]) (simp add: ValidateDownloadToken_def)
  qed (simp add: ends_failed_def ValidateDownloadToken_def)
  with j(1) assms(4,5) show ?thesis
    by (simp add: run_frame_def stored_def other_files_def GetJob_def)
qed

lemma ProcessJob_returns:
  assumes "buildManifest (sv_upper_lower s) (sv_repo s) j0 = Some (Ok m)" "GetJob w i = Ok j0"
    "mf_ExportType m = ExportTypeTar \<longrightarrow> list_all (\<lambda>f. 0 \<le> af_FileSize f) (mf_Files m)"
  shows "\<exists>w'. ProcessJob s px w i = Returned w'"
proof -
  have "\<not> is_panic e" if "generateArchive s px j m v = (j3, v3, Some e)" for j v j3 v3 e
    using that Generate_no_panic [OF _ assms(3)]
    by (auto simp: generateArchive_def is_panic_def Let_def split: sum.splits prod.splits option.splits)
  then show ?thesis
    using assms(1,2)
    by (auto simp: ProcessJob_def Let_def buildManifest_request GetJob_def split: sum.splits prod.splits option.splits)
qed

text \<open>
  Processing never panics on a ZIP job, nor on a TAR job whose files have non-negative
  sizes: the only slice expression that could go out of range stays in range, so a run returns
  unless the database queries themselves do not end.
\<close>

lemma process_job_no_panic:
  assumes "buildManifest (sv_upper_lower s) (sv_repo s) j0 = Some (Ok m)" "GetJob w i = Ok j0" "world_wf s w"
    "mf_ExportType m = ExportTypeTar \<longrightarrow> list_all (\<lambda>f. 0 \<le> af_FileSize f) (mf_Files m)"
  shows "\<exists>w'. ProcessJob s px w i = Returned w'"
  by (rule ProcessJob_returns [OF assms(1,2,4)])

lemma sanitize_drive_letter:
  assumes "has_drive_letter root"
  shows "\<exists>e. sanitizeArchivePath (rebaseArchivePath p root) = Err e"
proof -
  let ?q = "rebaseArchivePath p root"
  have r: "2 \<le> length root" "root ! 1 = CHR '':''" using assms by (auto simp: has_drive_letter_def)
  then have "root \<noteq> []" by auto
  then obtain x where q: "?q = root @ x" by (cases "slash \<in> set p") (auto simp: rebaseArchivePath_def)
  from r have "has_drive_letter (ReplaceByte backslash slash ?q)"
    unfolding q by (simp add: has_drive_letter_def ReplaceByte_def nth_append)
  then show ?thesis by (auto simp: sanitizeArchivePath_def Let_def)
qed

text \<open>
  C36. An archive name whose second byte is a colon, such as \<open>Q: report.zip\<close>, passes
  validation, but it becomes the first segment of every path in the archive, which the
  sanitiser takes for a drive letter: a job with such a name and at least one file never
  completes.
\<close>

theorem drive_like_name_never_completes:
  assumes "world_wf s w" "GetJob w i = Ok j0" "ProcessJob s px w i = Returned w'" "GetJob w' i = Ok j'"
    "has_drive_letter (archiveRootDir (sv_upper_lower s) (j_ArchiveName j0))"
    "r_GetFilesForFolderTree (sv_repo s) (j_RootFolderID j0) = Some (Ok (f # fs))"
  shows "j_Status j' = JobStatusFailed"
proof (rule ccontr)
  let ?root = "archiveRootDir (sv_upper_lower s) (j_ArchiveName j0)"
  assume "j_Status j' \<noteq> JobStatusFailed"
  moreover obtain jr where j: "run_frame s w i jr w'" "ends_failed s px w i jr w' \<or> ends_completed s px w i j0 jr w'"
    using ProcessJob_run [OF assms(1) assms(2) [unfolded GetJob_def] assms(3)] by blast
  moreover have "jr = j'" using j(1) assms(4) by (simp add: run_frame_def stored_def GetJob_def)
  ultimately obtain m out pr where m: "buildManifest (sv_upper_lower s) (sv_repo s) j0 = Some (Ok m)"
    "Generate (NewGenerator (cfg_MaxSizeBytes (sv_cfg s))) (px_gen px) m = (out, pr, None)"
    by (auto simp: ends_completed_def ends_failed_def)
  have "mf_Files m = map (rebase_file ?root) (f # fs)"
    using m(1) assms(6) by (elim buildManifest_OkE) simp
  moreover obtain e where "sanitizeArchivePath (rebaseArchivePath (af_ArchivePath f) ?root) = Err e"
    using sanitize_drive_letter [OF assms(5)] by blast
  ultimately show False
    using m(2) by (auto simp: Generate_def gen_file_def rebase_file_def split: option.splits)
qed

definition wit_drive_job :: Job where
  "wit_drive_job = wit_job\<lparr>j_ArchiveName := ''Q: x.zip''\<rparr>"

lemma wit_drive_name:
  "validateArchiveName ''Q: x.zip'' = Ok ''Q: x.zip''" "archiveRootDir (\<lambda>r. r) ''Q: x.zip'' = ''Q: x''"
proof -
  have t: "TrimSpace ''Q: x.zip'' = ''Q: x.zip''" "TrimSpace ''Q: x'' = ''Q: x''"
    by (simp_all add: TrimSpace_def IsSpace_def byte_def)
  then show "validateArchiveName ''Q: x.zip'' = Ok ''Q: x.zip''"
    by (simp add: validateArchiveName_def archiveNamePattern_def byte_def)
  have "HasSuffix (ToLower (\<lambda>r. r) ''Q: x.zip'') ''.zip''"
    by (simp add: HasSuffix_def ToLower_def strings_Map_def unicode_ToLower_def byte_def suffix_def
        char_of_eq_iff take_bit_eq_mod)
  then show "archiveRootDir (\<lambda>r. r) ''Q: x.zip'' = ''Q: x''" using t by (simp add: archiveRootDir_def Let_def)
qed

theorem drive_like_name_never_completes_witness:
  "validateArchiveName ''Q: x.zip'' = Ok ''Q: x.zip'' \<and>
   (\<exists>w' j'. ProcessJob wit_svc wit_px (wit_world\<lparr>w_jobs := [(''job1'', wit_drive_job)]\<rparr>) ''job1'' = Returned w'
      \<and> GetJob w' ''job1'' = Ok j' \<and> j_Status j' = JobStatusFailed)"
proof -
  let ?w = "wit_world\<lparr>w_jobs := [(''job1'', wit_drive_job)]\<rparr>"
  have wf: "world_wf wit_svc ?w"
    using wit_world_wf by (simp add: world_wf_def wit_world_def store_wf_def wit_drive_job_def wit_job_def)
  have g: "GetJob ?w ''job1'' = Ok wit_drive_job" by (simp add: GetJob_def store_Get_def)
  have d: "has_drive_letter (archiveRootDir (sv_upper_lower wit_svc) (j_ArchiveName wit_drive_job))"
    using wit_drive_name(2) by (simp add: wit_svc_def wit_drive_job_def has_drive_letter_def)
  have f: "r_GetFilesForFolderTree (sv_repo wit_svc) (j_RootFolderID wit_drive_job) = Some (Ok [wit_file ''Docs/a.txt'' 3])"
    by (simp add: wit_svc_def wit_repo_def)
  obtain m where m: "buildManifest (sv_upper_lower wit_svc) (sv_repo wit_svc) wit_drive_job = Some (Ok m)"
    "mf_ExportType m = ''zip''"
    by (simp add: buildManifest_def wit_svc_def wit_repo_def Let_def wit_drive_job_def wit_job_def)
  obtain w' where r: "ProcessJob wit_svc wit_px ?w ''job1'' = Returned w'"
    using ProcessJob_returns [OF m(1) g, of wit_px] m(2) by (auto simp: ExportTypeTar_def)
  obtain j' where j: "GetJob w' ''job1'' = Ok j'"
    using ProcessJob_run [OF wf g [unfolded GetJob_def] r] by (auto simp: run_frame_def stored_def GetJob_def)
  show ?thesis
    using drive_like_name_never_completes [OF wf g r j d f] r j wit_drive_name(1) by blast
qed


theorem create_job_refused_witness:
  "\<exists>w'. CreateJob wit_svc 9 ''job2'' wit_world
       \<lparr>req_RootFolderID = ''r'', req_ArchiveName = ''Q: x.zip'', req_ExportType = []\<rparr> = (Err ErrQueueFull, w')
     \<and> (\<forall>k. GetJob w' k = GetJob wit_world k) \<and> w_queue w' = [''job1'']"
proof -
  let ?req = "\<lparr>req_RootFolderID = ''r'', req_ArchiveName = ''Q: x.zip'', req_ExportType = []\<rparr>"
  obtain w' where c: "CreateJob wit_svc 9 ''job2'' wit_world ?req = (Err ErrQueueFull, w')"
    using wit_drive_name(1)
    by (simp add: CreateJob_def wit_svc_def wit_cfg_def wit_repo_def wit_world_def validateRootFolderID_def
        validateExportType_def Let_def store_Create_def)
  have "w_queue wit_world = [''job1'']" by (simp add: wit_world_def)
  with create_job_refused [OF wit_world_wf c] c show ?thesis by auto
qed

end
