(* ===== verification/GoText.thy ===== *)
theory GoText
  imports GoEncoding Complex_Main
begin

text \<open>
  Text forms of values in Go's standard library: decimal integers (\<open>strconv\<close>, the verb
  \<open>%d\<close>), booleans (\<open>strconv.ParseBool\<close>), durations (\<open>time.ParseDuration\<close>) and JSON strings
  (\<open>encoding/json\<close>). They are what the configuration reads and what the event stream writes.
\<close>

section \<open>Decimal integers\<close>

fun format_nat :: "nat \<Rightarrow> string" where
  "format_nat n = (if n < 10 then [char_of (48 + n)] else format_nat (n div 10) @ [char_of (48 + n mod 10)])"

declare format_nat.simps [simp del]

definition FormatInt :: "int \<Rightarrow> string" where
  "FormatInt n = (if n < 0 then CHR ''-'' # format_nat (nat (- n)) else format_nat (nat n))"

definition is_digit :: "char \<Rightarrow> bool" where
  "is_digit c \<longleftrightarrow> 48 \<le> byte c \<and> byte c \<le> 57"

definition digit :: "char \<Rightarrow> nat" where
  "digit c = byte c - 48"

definition digits_value :: "string \<Rightarrow> nat" where
  "digits_value = foldl (\<lambda>n c. 10 * n + digit c) 0"

text \<open>\<open>strconv.ParseInt(s, 10, 64)\<close>, and \<open>strconv.Atoi\<close> where an int has 64 bits.\<close>

datatype num_error = ErrSyntax | ErrRange

definition ParseInt :: "string \<Rightarrow> (num_error, int) result" where
  "ParseInt s =
     (let neg = (s \<noteq> [] \<and> hd s = CHR ''-'');
          t = (if s \<noteq> [] \<and> hd s \<in> {CHR ''-'', CHR ''+''} then tl s else s)
      in if t = [] \<or> \<not> list_all is_digit t then Err ErrSyntax
         else let n = (if neg then - int (digits_value t) else int (digits_value t))
              in if is_int64 n then Ok n else Err ErrRange)"

lemma digits_value_snoc: "digits_value (s @ [c]) = 10 * digits_value s + digit c"
  by (simp add: digits_value_def)

lemma digit_char:
  assumes "n < 10"
  shows "is_digit (char_of (48 + n))" "digit (char_of (48 + n)) = n"
  using assms by (simp_all add: is_digit_def digit_def byte_char_of)

lemma format_nat_digits: "format_nat n \<noteq> [] \<and> list_all is_digit (format_nat n) \<and> digits_value (format_nat n) = n"
proof (induction n rule: format_nat.induct)
  case (1 n)
  show ?case
  proof (cases "n < 10")
    case True
    then show ?thesis
      by (simp add: format_nat.simps [of n] digit_char digits_value_def)
  next
    case False
    have "n mod 10 < 10" by simp
    with 1 False show ?thesis
      by (simp add: format_nat.simps [of n] digit_char digits_value_snoc)
  qed
qed

lemma hd_format_nat: "hd (format_nat n) \<notin> {CHR ''-'', CHR ''+''}"
proof -
  have "is_digit (hd (format_nat n))"
    using format_nat_digits [of n] by (cases "format_nat n") auto
  then show ?thesis by (auto simp: is_digit_def byte_def)
qed

lemma ParseInt_FormatInt: "is_int64 n \<Longrightarrow> ParseInt (FormatInt n) = Ok n"
  using format_nat_digits [of "nat (- n)"] format_nat_digits [of "nat n"] hd_format_nat [of "nat n"]
  by (auto simp: ParseInt_def FormatInt_def Let_def)

lemma ParseInt_range: "ParseInt s = Ok n \<Longrightarrow> is_int64 n"
  by (auto simp: ParseInt_def Let_def split: if_splits)

definition ParseBool :: "string \<Rightarrow> bool option" where
  "ParseBool s =
     (if s \<in> {''1'', ''t'', ''T'', ''TRUE'', ''true'', ''True''} then Some True
      else if s \<in> {''0'', ''f'', ''F'', ''FALSE'', ''false'', ''False''} then Some False
      else None)"

section \<open>Durations\<close>

text \<open>
  A fraction of a unit is computed in \<open>float64\<close>. Each operation rounds the exact rational to 53
  significant bits, to even on a tie. The operands and results lie between 10^-19 and 2^64, so
  128 doublings or halvings bring every one of them to 53 bits.
\<close>

definition round_even :: "rat \<Rightarrow> int" where
  "round_even q =
     (let f = \<lfloor>q\<rfloor>; r = q - of_int f
      in if r < 1 / 2 then f else if 1 / 2 < r then f + 1 else if even f then f else f + 1)"

fun scale_up :: "nat \<Rightarrow> rat \<Rightarrow> nat \<Rightarrow> rat \<times> nat" where
  "scale_up 0 q e = (q, e)"
| "scale_up (Suc k) q e = (if q < 2 ^ 52 then scale_up k (q * 2) (Suc e) else (q, e))"

fun scale_down :: "nat \<Rightarrow> rat \<Rightarrow> nat \<Rightarrow> rat \<times> nat" where
  "scale_down 0 q e = (q, e)"
| "scale_down (Suc k) q e = (if 2 ^ 53 \<le> q then scale_down k (q / 2) (Suc e) else (q, e))"

definition float64 :: "rat \<Rightarrow> rat" where
  "float64 q =
     (if q = 0 then 0
      else if q < 2 ^ 52 then (case scale_up 128 q 0 of (m, e) \<Rightarrow> of_int (round_even m) / 2 ^ e)
      else (case scale_down 128 q 0 of (m, e) \<Rightarrow> of_int (round_even m) * 2 ^ e))"

text \<open>
  \<open>Duration.Seconds\<close> adds the whole seconds and the rest in \<open>float64\<close>; the conversion to
  \<open>int64\<close> then cuts towards zero.
\<close>

definition whole_seconds :: "duration \<Rightarrow> int" where
  "whole_seconds d =
     (let a = \<bar>d\<bar>; n = \<lfloor>float64 (of_int (a div 1000000000) + float64 (of_int (a mod 1000000000) / 1000000000))\<rfloor>
      in if d < 0 then - n else n)"

text \<open>\<open>Time.Sub\<close> saturates at the limits of a duration.\<close>

definition time_Sub :: "time \<Rightarrow> time \<Rightarrow> duration" where
  "time_Sub t u = max (- (2 ^ 63)) (min (2 ^ 63 - 1) (t - u))"

text \<open>\<open>leadingInt\<close>: the digits at the front, or nothing when they exceed 2^63.\<close>

fun leadingInt :: "int \<Rightarrow> string \<Rightarrow> (int \<times> string) option" where
  "leadingInt x [] = Some (x, [])"
| "leadingInt x (c # s) =
     (if \<not> is_digit c then Some (x, c # s)
      else if 2 ^ 63 div 10 < x then None
      else let y = 10 * x + int (digit c) in if 2 ^ 63 < y then None else leadingInt y s)"

text \<open>\<open>leadingFraction\<close>: further digits are read but ignored once they would overflow.\<close>

fun leadingFraction :: "bool \<Rightarrow> int \<Rightarrow> rat \<Rightarrow> string \<Rightarrow> int \<times> rat \<times> string" where
  "leadingFraction overflow x scale [] = (x, scale, [])"
| "leadingFraction overflow x scale (c # s) =
     (if \<not> is_digit c then (x, scale, c # s)
      else if overflow \<or> (2 ^ 63 - 1) div 10 < x then leadingFraction True x scale s
      else let y = 10 * x + int (digit c)
           in if 2 ^ 63 < y then leadingFraction True x scale s
              else leadingFraction False y (float64 (scale * 10)) s)"

definition unit_value :: "string \<Rightarrow> int option" where
  "unit_value u =
     (if u = ''ns'' then Some 1
      else if u \<in> {''us'', [CHR 0xC2, CHR 0xB5, CHR ''s''], [CHR 0xCE, CHR 0xBC, CHR ''s'']} then Some 1000
      else if u = ''ms'' then Some 1000000
      else if u = ''s'' then Some 1000000000
      else if u = ''m'' then Some 60000000000
      else if u = ''h'' then Some 3600000000000
      else None)"

text \<open>One round of the loop: a number, its unit, and what is left of the text.\<close>

definition duration_part :: "string \<Rightarrow> (int \<times> string) option" where
  "duration_part s =
     (if s = [] \<or> \<not> (hd s = CHR ''.'' \<or> is_digit (hd s)) then None
      else case leadingInt 0 s of
        None \<Rightarrow> None
      | Some (v, s1) \<Rightarrow>
          let pre = (length s1 \<noteq> length s);
              dot = (s1 \<noteq> [] \<and> hd s1 = CHR ''.'');
              (f, scale, s2) = (if dot then leadingFraction False 0 1 (tl s1) else (0, 1, s1));
              post = (dot \<and> length s2 \<noteq> length (tl s1));
              u = takeWhile (\<lambda>c. \<not> (c = CHR ''.'' \<or> is_digit c)) s2
          in if \<not> pre \<and> \<not> post \<or> u = [] then None
             else case unit_value u of
                    None \<Rightarrow> None
                  | Some un \<Rightarrow>
                      if 2 ^ 63 div un < v then None
                      else let v' = (if 0 < f
                                     then v * un + \<lfloor>float64 (float64 (of_int f) * float64 (of_int un / scale))\<rfloor>
                                     else v * un)
                           in if 2 ^ 63 < v' then None else Some (v', drop (length u) s2))"

lemma leadingInt_length: "leadingInt x s = Some (y, t) \<Longrightarrow> length t \<le> length s"
  by (induction x s rule: leadingInt.induct) (auto simp: Let_def split: if_splits)

lemma leadingFraction_length: "length (snd (snd (leadingFraction b x q s))) \<le> length s"
  by (induction b x q s rule: leadingFraction.induct) (auto simp: Let_def)

lemma duration_part_shorter:
  assumes "duration_part s = Some (v, t)"
  shows "length t < length s"
proof -
  obtain x s1 where s1: "leadingInt 0 s = Some (x, s1)"
    using assms by (auto simp: duration_part_def split: if_splits option.splits)
  obtain f q s2 where s2: "(if s1 \<noteq> [] \<and> hd s1 = CHR ''.'' then leadingFraction False 0 1 (tl s1) else (0, 1, s1)) = (f, q, s2)"
    by (metis prod_cases3)
  let ?u = "takeWhile (\<lambda>c. \<not> (c = CHR ''.'' \<or> is_digit c)) s2"
  have "length s2 \<le> length s1"
    using s2 leadingFraction_length [of False 0 1 "tl s1"] by (auto split: if_splits)
  moreover have "length s1 \<le> length s" by (rule leadingInt_length [OF s1])
  moreover have t: "?u \<noteq> [] \<and> t = drop (length ?u) s2"
    using assms s1 s2 by (auto simp: duration_part_def Let_def split: if_splits option.splits prod.splits)
  moreover have "length ?u \<le> length s2" by (rule length_takeWhile_le)
  moreover have "0 < length ?u" using t by blast
  moreover have "length t = length s2 - length ?u" using t by simp
  ultimately show ?thesis by linarith
qed

function duration_loop :: "int \<Rightarrow> string \<Rightarrow> int option" where
  "duration_loop d s =
     (if s = [] then Some d
      else case duration_part s of
        None \<Rightarrow> None
      | Some (v, t) \<Rightarrow>
          let d' = (d + v) mod 2 ^ 64 in if 2 ^ 63 < d' then None else duration_loop d' t)"
  by pat_completeness auto
termination
  by (relation "measure (\<lambda>(d, s). length s)") (auto dest: duration_part_shorter)

declare duration_loop.simps [simp del]

definition ParseDuration :: "string \<Rightarrow> duration option" where
  "ParseDuration orig =
     (let neg = (orig \<noteq> [] \<and> hd orig = CHR ''-'');
          s = (if orig \<noteq> [] \<and> hd orig \<in> {CHR ''-'', CHR ''+''} then tl orig else orig)
      in if s = ''0'' then Some 0
         else if s = [] then None
         else case duration_loop 0 s of
                None \<Rightarrow> None
              | Some d \<Rightarrow>
                  if neg then Some (wrap64 (- d))
                  else if 2 ^ 63 - 1 < d then None else Some d)"

lemma duration_loop_range: "duration_loop d s = Some d' \<Longrightarrow> 0 \<le> d \<and> d \<le> 2 ^ 63 \<Longrightarrow> 0 \<le> d' \<and> d' \<le> 2 ^ 63"
proof (induction d s rule: duration_loop.induct)
  case (1 d s)
  show ?case
  proof (cases "s = []")
    case True
    then show ?thesis using "1.prems" by (simp add: duration_loop.simps)
  next
    case False
    then obtain v t where vt: "duration_part s = Some (v, t)"
      using "1.prems"(1) by (auto simp: duration_loop.simps [of d s] split: option.splits)
    then have r: "\<not> 2 ^ 63 < (d + v) mod 2 ^ 64" "duration_loop ((d + v) mod 2 ^ 64) t = Some d'"
      using "1.prems"(1) False by (auto simp: duration_loop.simps [of d s] Let_def split: if_splits)
    have "0 \<le> (d + v) mod 2 ^ 64 \<and> (d + v) mod 2 ^ 64 \<le> 2 ^ 63" using r(1) by simp
    with "1.IH" [OF False vt refl refl r(1) r(2)] show ?thesis by blast
  qed
qed

lemma ParseDuration_range:
  assumes "ParseDuration s = Some d"
  shows "is_int64 d"
proof -
  have "is_int64 d" if "duration_loop 0 t = Some d" "\<not> 2 ^ 63 - 1 < d" for t
    using duration_loop_range [OF that(1)] that(2) by (simp add: is_int64_def)
  then show ?thesis
    using assms
    by (auto simp: ParseDuration_def Let_def split: if_splits option.splits) (simp_all add: is_int64_def)
qed

section \<open>JSON strings\<close>

definition json_hex :: "nat \<Rightarrow> char" where
  "json_hex n = ''0123456789abcdef'' ! n"

definition quote :: char where
  "quote = CHR 0x22"

text \<open>One rune of a string, with HTML escaping as \<open>json.Marshal\<close> has it.\<close>

definition json_rune :: "nat \<times> string \<Rightarrow> string" where
  "json_rune = (\<lambda>(r, bs).
     if r < 0x80 then
       (if r = 0x22 \<or> r = 0x5C then [backslash, char_of r]
        else if r = 8 then [backslash, CHR ''b'']
        else if r = 12 then [backslash, CHR ''f'']
        else if r = 10 then [backslash, CHR ''n'']
        else if r = 13 then [backslash, CHR ''r'']
        else if r = 9 then [backslash, CHR ''t'']
        else if r < 0x20 \<or> r = 0x3C \<or> r = 0x3E \<or> r = 0x26
        then backslash # ''u00'' @ [json_hex (r div 16), json_hex (r mod 16)]
        else bs)
     else if r = RuneError \<and> length bs = 1 then backslash # ''ufffd''
     else if r = 0x2028 then backslash # ''u2028''
     else if r = 0x2029 then backslash # ''u2029''
     else bs)"

definition json_string :: "string \<Rightarrow> string" where
  "json_string s = quote # concat (map json_rune (runes s)) @ [quote]"

definition json_object :: "(string \<times> string) list \<Rightarrow> string" where
  "json_object fields =
     CHR 0x7B # join_with (CHR '','') (map (\<lambda>(k, v). json_string k @ CHR '':'' # v) fields) @ [CHR 0x7D]"

text \<open>Nothing that is encoded this way has a control character.\<close>

definition printable :: "string \<Rightarrow> bool" where
  "printable s \<longleftrightarrow> list_all (\<lambda>c. 0x20 \<le> byte c) s"

lemma printable_simps [simp]:
  "printable []" "printable (c # s) \<longleftrightarrow> 0x20 \<le> byte c \<and> printable s"
  "printable (s @ t) \<longleftrightarrow> printable s \<and> printable t"
  by (auto simp: printable_def)

lemma json_hex_printable: "n < 16 \<Longrightarrow> 0x20 \<le> byte (json_hex n)"
proof -
  have "\<forall>n < 16. 0x20 \<le> byte (json_hex n)"
    by (simp add: json_hex_def byte_def numeral_eq_Suc All_less_Suc2)
  then show "n < 16 \<Longrightarrow> ?thesis" by blast
qed

lemma json_rune_printable:
  assumes "(r, bs) \<in> set (runes s)"
  shows "printable (json_rune (r, bs))"
proof (cases "r < 0x80")
  case True
  then obtain c where c: "r = byte c" "bs = [c]" using runes_elem [OF assms] by auto
  have "r div 16 < 16" using True by linarith
  with json_hex_printable [of "r div 16"] json_hex_printable [of "r mod 16"] True c
  show ?thesis by (auto simp: json_rune_def byte_def)
next
  case False
  then have "printable bs" using runes_elem [OF assms] by (fastforce simp: printable_def list_all_iff)
  with False show ?thesis by (auto simp: json_rune_def byte_def)
qed

lemma json_string_printable: "printable (json_string s)"
proof -
  have "printable (concat (map json_rune rs))" if "set rs \<subseteq> set (runes s)" for rs
    using that by (induction rs) (auto simp: json_rune_printable)
  then show ?thesis by (simp add: json_string_def quote_def byte_def)
qed

lemma FormatInt_printable: "printable (FormatInt n)"
proof -
  have "printable (format_nat k)" for k
    using format_nat_digits [of k] by (auto simp: printable_def list_all_iff is_digit_def)
  then show ?thesis by (simp add: FormatInt_def byte_def)
qed

lemma json_object_printable:
  assumes "list_all (\<lambda>(k, v). printable v) fields"
  shows "printable (json_object fields)"
proof -
  have "printable (join_with (CHR '','') ss)" if "list_all printable ss" for ss
    using that by (induction "CHR '',''" ss rule: join_with.induct) (auto simp: byte_def)
  moreover have "list_all printable (map (\<lambda>(k, v). json_string k @ CHR '':'' # v) fields)"
    using assms by (auto simp: list_all_iff json_string_printable byte_def)
  ultimately show ?thesis by (simp add: json_object_def byte_def)
qed

end
