(* ===== verification/GoJSON.thy ===== *)
theory GoJSON
  imports GoText GoIO
begin

text \<open>
  Reading JSON as \<open>encoding/json\<close> does: one value from the front of a stream of bytes, with its
  strings unquoted and made valid UTF-8, and with the decoder's limit on nesting. What follows the
  value is not looked at. The parser takes a bound on its recursion; one more than twice the
  number of bytes is proved to be enough. What \<open>json.Marshal\<close> writes for a string is read back as the
  same string.
\<close>

section \<open>Strings\<close>

definition hex_digit :: "char \<Rightarrow> nat option" where
  "hex_digit c =
     (if is_digit c then Some (byte c - 48)
      else if 97 \<le> byte c \<and> byte c \<le> 102 then Some (byte c - 87)
      else if 65 \<le> byte c \<and> byte c \<le> 70 then Some (byte c - 55)
      else None)"

fun hex4 :: "string \<Rightarrow> (nat \<times> string) option" where
  "hex4 (a # b # c # d # s) =
     (case (hex_digit a, hex_digit b, hex_digit c, hex_digit d) of
        (Some i, Some j, Some k, Some l) \<Rightarrow> Some (((i * 16 + j) * 16 + k) * 16 + l, s)
      | _ \<Rightarrow> None)"
| "hex4 _ = None"

text \<open>The second half of a surrogate pair, if there is one, and the rune of both.\<close>

definition surrogate_pair :: "nat \<Rightarrow> string \<Rightarrow> (nat \<times> string) option" where
  "surrogate_pair r s =
     (case s of
        a # b # t \<Rightarrow>
          if a = backslash \<and> b = CHR ''u'' then
            (case hex4 t of
               Some (r1, u) \<Rightarrow>
                 if 0xD800 \<le> r \<and> r < 0xDC00 \<and> 0xDC00 \<le> r1 \<and> r1 < 0xE000
                 then Some ((r - 0xD800) * 1024 + (r1 - 0xDC00) + 0x10000, u)
                 else None
             | None \<Rightarrow> None)
          else None
      | _ \<Rightarrow> None)"

text \<open>What follows a backslash: the bytes it stands for, and the rest.\<close>

definition json_escape :: "string \<Rightarrow> (string \<times> string) option" where
  "json_escape s =
     (case s of
        [] \<Rightarrow> None
      | c # t \<Rightarrow>
          if c = quote \<or> c = backslash \<or> c = CHR ''/'' then Some ([c], t)
          else if c = CHR ''b'' then Some ([char_of (8 :: nat)], t)
          else if c = CHR ''f'' then Some ([char_of (12 :: nat)], t)
          else if c = CHR ''n'' then Some ([char_of (10 :: nat)], t)
          else if c = CHR ''r'' then Some ([char_of (13 :: nat)], t)
          else if c = CHR ''t'' then Some ([char_of (9 :: nat)], t)
          else if c = CHR ''u'' then
            (case hex4 t of
               None \<Rightarrow> None
             | Some (r, u) \<Rightarrow>
                 if 0xD800 \<le> r \<and> r < 0xE000 then
                   (case surrogate_pair r u of
                      Some (rr, v) \<Rightarrow> Some (encode_rune rr, v)
                    | None \<Rightarrow> Some (encode_rune RuneError, u))
                 else Some (encode_rune r, u))
          else None)"

lemma hex4_length: "hex4 s = Some (r, t) \<Longrightarrow> length t < length s"
  by (cases s rule: hex4.cases) (auto split: option.splits)

lemma surrogate_pair_length: "surrogate_pair r s = Some (rr, t) \<Longrightarrow> length t < length s"
  by (auto simp: surrogate_pair_def dest!: hex4_length split: list.splits if_splits option.splits)

lemma json_escape_length: "json_escape s = Some (v, t) \<Longrightarrow> length t < length s"
  by (auto simp: json_escape_def dest!: hex4_length surrogate_pair_length split: list.splits if_splits option.splits)

text \<open>The characters of a string after its opening quote, up to the closing one.\<close>

function json_chars :: "string \<Rightarrow> (string \<times> string) option" where
  "json_chars [] = None"
| "json_chars (c # s) =
     (if c = quote then Some ([], s)
      else if c = backslash then
        (case json_escape s of
           None \<Rightarrow> None
         | Some (v, t) \<Rightarrow> map_option (\<lambda>(vs, u). (v @ vs, u)) (json_chars t))
      else if byte c < 0x20 then None
      else map_option (\<lambda>(vs, u). (encode_rune (fst (decode_rune (c # s))) @ vs, u))
             (json_chars (drop (snd (decode_rune (c # s))) (c # s))))"
  by pat_completeness auto
termination
proof (relation "measure length")
  fix c s
  show "(drop (snd (decode_rune (c # s))) (c # s), c # s) \<in> measure length"
    using decode_rune_width [of c s] by simp
qed (auto dest: json_escape_length)

declare json_chars.simps(2) [simp del]

lemma json_chars_length: "json_chars s = Some (v, t) \<Longrightarrow> length t < length s"
proof (induction s arbitrary: v rule: json_chars.induct)
  case (2 c s)
  consider "c = quote" | "c \<noteq> quote" "c = backslash" | "c \<noteq> quote" "c \<noteq> backslash" "\<not> byte c < 0x20"
    using "2.prems" by (auto simp: json_chars.simps(2) split: if_splits)
  then show ?case
  proof cases
    case 1
    then show ?thesis using "2.prems" by (simp add: json_chars.simps(2))
  next
    case c: 2
    then obtain w u vs where e: "json_escape s = Some (w, u)" "json_chars u = Some (vs, t)"
      using "2.prems" by (auto simp: json_chars.simps(2) split: option.splits)
    from "2.IH"(1) [OF c e(1) refl e(2)] json_escape_length [OF e(1)] show ?thesis by simp
  next
    case c: 3
    then obtain vs where e: "json_chars (drop (snd (decode_rune (c # s))) (c # s)) = Some (vs, t)"
      using "2.prems" by (auto simp: json_chars.simps(2))
    from "2.IH"(2) [OF c e] decode_rune_width [of c s] show ?thesis by simp
  qed
qed simp

section \<open>Values\<close>

datatype json =
    JNull
  | JBool bool
  | JNumber string
  | JString string
  | JArray "json list"
  | JObject "(string \<times> json) list"

definition skip_space :: "string \<Rightarrow> string" where
  "skip_space = dropWhile (\<lambda>c. byte c \<in> {0x20, 0x09, 0x0D, 0x0A})"

text \<open>What is left after a number: an integer part without leading zeros, a fraction, an exponent.\<close>

definition skip_digits :: "string \<Rightarrow> string option" where
  "skip_digits s = (if s \<noteq> [] \<and> is_digit (hd s) then Some (dropWhile is_digit s) else None)"

definition skip_exponent :: "string \<Rightarrow> string option" where
  "skip_exponent s =
     (if s \<noteq> [] \<and> hd s \<in> {CHR ''e'', CHR ''E''}
      then skip_digits (if tl s \<noteq> [] \<and> hd (tl s) \<in> {CHR ''+'', CHR ''-''} then tl (tl s) else tl s)
      else Some s)"

definition skip_number :: "string \<Rightarrow> string option" where
  "skip_number s0 =
     (let s = (if s0 \<noteq> [] \<and> hd s0 = CHR ''-'' then tl s0 else s0);
          int = (if s \<noteq> [] \<and> hd s = CHR ''0'' then Some (tl s) else skip_digits s)
      in case int of
           None \<Rightarrow> None
         | Some t \<Rightarrow>
             if t \<noteq> [] \<and> hd t = CHR ''.''
             then (case skip_digits (tl t) of None \<Rightarrow> None | Some u \<Rightarrow> skip_exponent u)
             else skip_exponent t)"

definition json_literal :: "string \<Rightarrow> (json \<times> string) option" where
  "json_literal s =
     (if HasPrefix s ''null'' then Some (JNull, drop 4 s)
      else if HasPrefix s ''true'' then Some (JBool True, drop 4 s)
      else if HasPrefix s ''false'' then Some (JBool False, drop 5 s)
      else case skip_number s of
             None \<Rightarrow> None
           | Some t \<Rightarrow> Some (JNumber (take (length s - length t) s), t))"

text \<open>
  A value, the members of an object after its opening brace and the elements of an array after
  its opening bracket. The first argument bounds the recursion, the second is how many more levels
  of nesting the decoder allows.
\<close>

fun json_value :: "nat \<Rightarrow> nat \<Rightarrow> string \<Rightarrow> (json \<times> string) option"
  and json_members :: "nat \<Rightarrow> nat \<Rightarrow> string \<Rightarrow> ((string \<times> json) list \<times> string) option"
  and json_elements :: "nat \<Rightarrow> nat \<Rightarrow> string \<Rightarrow> (json list \<times> string) option" where
  "json_value 0 d s = None"
| "json_value (Suc n) d s =
     (case skip_space s of
        [] \<Rightarrow> None
      | c # t \<Rightarrow>
          if c = quote then map_option (\<lambda>(v, r). (JString v, r)) (json_chars t)
          else if c = CHR 0x7B then
            (if d = 0 then None
             else case skip_space t of
               [] \<Rightarrow> None
             | c1 # r \<Rightarrow> if c1 = CHR 0x7D then Some (JObject [], r)
                          else map_option (\<lambda>(ms, r). (JObject ms, r)) (json_members n (d - 1) t))
          else if c = CHR 0x5B then
            (if d = 0 then None
             else case skip_space t of
               [] \<Rightarrow> None
             | c1 # r \<Rightarrow> if c1 = CHR 0x5D then Some (JArray [], r)
                          else map_option (\<lambda>(vs, r). (JArray vs, r)) (json_elements n (d - 1) t))
          else json_literal (c # t))"
| "json_members 0 d s = None"
| "json_members (Suc n) d s =
     (case skip_space s of
        [] \<Rightarrow> None
      | q # t \<Rightarrow>
          if q \<noteq> quote then None
          else case json_chars t of
            None \<Rightarrow> None
          | Some (k, r) \<Rightarrow>
              (case skip_space r of
                 [] \<Rightarrow> None
               | c1 # r1 \<Rightarrow>
                   if c1 \<noteq> CHR '':'' then None
                   else case json_value n d r1 of
                     None \<Rightarrow> None
                   | Some (v, r2) \<Rightarrow>
                       (case skip_space r2 of
                          [] \<Rightarrow> None
                        | c2 # r3 \<Rightarrow>
                            if c2 = CHR 0x7D then Some ([(k, v)], r3)
                            else if c2 = CHR '','' then map_option (\<lambda>(ms, r4). ((k, v) # ms, r4)) (json_members n d r3)
                            else None)))"
| "json_elements 0 d s = None"
| "json_elements (Suc n) d s =
     (case json_value n d s of
        None \<Rightarrow> None
      | Some (v, r2) \<Rightarrow>
          (case skip_space r2 of
             [] \<Rightarrow> None
           | c2 # r3 \<Rightarrow>
               if c2 = CHR 0x5D then Some ([v], r3)
               else if c2 = CHR '','' then map_option (\<lambda>(vs, r4). (v # vs, r4)) (json_elements n d r3)
               else None))"

section \<open>The bound on the recursion\<close>

lemma skip_space_length: "length (skip_space s) \<le> length s"
  by (simp add: skip_space_def length_dropWhile_le)

lemma skip_space_Cons: "skip_space s = c # t \<Longrightarrow> length t < length s"
  using skip_space_length [of s] by simp

lemma skip_digits_length: "skip_digits s = Some t \<Longrightarrow> length t < length s"
  by (cases s) (auto simp: skip_digits_def less_Suc_eq_le length_dropWhile_le split: if_splits)

lemma skip_exponent_length: "skip_exponent s = Some t \<Longrightarrow> length t \<le> length s"
  by (cases s; cases "tl s") (auto simp: skip_exponent_def dest!: skip_digits_length split: if_splits)

lemma skip_number_length:
  assumes "skip_number s = Some t"
  shows "length t < length s"
proof -
  let ?s = "if s \<noteq> [] \<and> hd s = CHR ''-'' then tl s else s"
  obtain u where u: "(if ?s \<noteq> [] \<and> hd ?s = CHR ''0'' then Some (tl ?s) else skip_digits ?s) = Some u"
    "(if u \<noteq> [] \<and> hd u = CHR ''.'' then (case skip_digits (tl u) of None \<Rightarrow> None | Some v \<Rightarrow> skip_exponent v)
      else skip_exponent u) = Some t"
    using assms by (simp add: skip_number_def Let_def split: option.splits)
  have "length u < length ?s" using u(1) skip_digits_length [of ?s u] by (cases ?s) (simp_all split: if_splits)
  moreover have "length ?s \<le> length s" by simp
  moreover have "length t \<le> length u"
    using u(2) skip_exponent_length [of u t]
    by (cases u) (auto dest!: skip_digits_length skip_exponent_length split: if_splits option.splits)
  ultimately show ?thesis by linarith
qed

lemma json_literal_length: "json_literal s = Some (v, t) \<Longrightarrow> length t < length s"
  by (auto simp: json_literal_def HasPrefix_def prefix_def dest!: skip_number_length split: if_splits option.splits)

lemma json_length:
  "json_value n d s = Some (v, r) \<Longrightarrow> length r < length s"
  "json_members n d s = Some (ms, r) \<Longrightarrow> length r < length s"
  "json_elements n d s = Some (vs, r) \<Longrightarrow> length r < length s"
proof (induction n d s and n d s and n d s arbitrary: v r and ms r and vs r
    rule: json_value_json_members_json_elements.induct)
  case (2 n d s)
  obtain c t where c: "skip_space s = c # t" using "2.prems" by (auto split: list.splits)
  then have t: "length t < length s" by (rule skip_space_Cons)
  have sp: "length r < length t" if "skip_space t = c1 # r" for c1 r using skip_space_Cons [OF that] .
  show ?case
    using "2.prems" c t "2.IH" [OF c] json_literal_length [of "c # t" v r] skip_space_length [of s]
    by (fastforce dest: json_chars_length sp split: if_splits list.splits)
next
  case (4 n d s)
  obtain q t k r0 c1 r1 v r2 c2 r3 where c: "skip_space s = q # t" "q = quote" "json_chars t = Some (k, r0)"
    "skip_space r0 = c1 # r1" "c1 = CHR '':''" "json_value n d r1 = Some (v, r2)" "skip_space r2 = c2 # r3"
    using "4.prems" by (auto split: list.splits if_splits option.splits)
  have l: "length r3 < length s"
    using skip_space_Cons [OF c(1)] json_chars_length [OF c(3)] skip_space_Cons [OF c(4)]
      "4.IH"(1) [OF c(1) _ c(3) refl c(4) _ c(6)] c(2,5) skip_space_Cons [OF c(7)] by simp
  show ?case
  proof (cases "c2 = CHR 0x7D")
    case True
    then show ?thesis using "4.prems" c l by simp
  next
    case False
    then obtain ms' where m: "c2 = CHR '',''" "json_members n d r3 = Some (ms', r)"
      using "4.prems" c by (auto split: if_splits)
    from "4.IH"(2) [OF c(1) _ c(3) refl c(4) _ c(6) refl c(7) False m] c(2,5) l show ?thesis by simp
  qed
next
  case (6 n d s)
  obtain v r2 c2 r3 where c: "json_value n d s = Some (v, r2)" "skip_space r2 = c2 # r3"
    using "6.prems" by (auto split: list.splits option.splits)
  have l: "length r3 < length s" using "6.IH"(1) [OF c(1)] skip_space_Cons [OF c(2)] by simp
  show ?case
  proof (cases "c2 = CHR 0x5D")
    case True
    then show ?thesis using "6.prems" c l by simp
  next
    case False
    then obtain vs' where m: "c2 = CHR '',''" "json_elements n d r3 = Some (vs', r)"
      using "6.prems" c by (auto split: if_splits)
    from "6.IH"(2) [OF c(1) refl c(2) False m] l show ?thesis by simp
  qed
qed simp_all

text \<open>Any two bounds beyond twice the number of bytes give the same result, so none of them is reached.\<close>

definition same_results :: "nat \<Rightarrow> nat \<Rightarrow> bool" where
  "same_results n m \<longleftrightarrow> (\<forall>d s. (2 * length s < n \<and> 2 * length s < m \<longrightarrow> json_value n d s = json_value m d s)
     \<and> (2 * length s + 1 < n \<and> 2 * length s + 1 < m \<longrightarrow>
          json_members n d s = json_members m d s \<and> json_elements n d s = json_elements m d s))"

lemma json_value_enough:
  assumes "same_results n m" "2 * length s < Suc n" "2 * length s < Suc m"
  shows "json_value (Suc n) d s = json_value (Suc m) d s"
proof (cases "skip_space s")
  case (Cons c t)
  have "2 * length t + 1 < n" "2 * length t + 1 < m" using skip_space_Cons [OF Cons] assms(2,3) by linarith+
  then have "json_members n (d - 1) t = json_members m (d - 1) t" "json_elements n (d - 1) t = json_elements m (d - 1) t"
    using assms(1) by (simp_all add: same_results_def)
  then show ?thesis by (simp add: Cons split: list.split)
qed simp

lemma json_members_enough:
  assumes "same_results n m" "2 * length s + 1 < Suc n" "2 * length s + 1 < Suc m"
  shows "json_members (Suc n) d s = json_members (Suc m) d s"
proof -
  have v: "json_value n d r = json_value m d r" if "length r \<le> length s" for r
    using assms that by (simp add: same_results_def)
  have ms: "json_members n d r = json_members m d r" if "length r < length s" for r
    using assms that by (simp add: same_results_def)
  have "length r1 \<le> length s \<and> (\<forall>v r2 c2 r3. json_value m d r1 = Some (v, r2) \<and> skip_space r2 = c2 # r3 \<longrightarrow> length r3 < length s)"
    if "skip_space s = q # t" "json_chars t = Some (k, r)" "skip_space r = c1 # r1" for q t k r c1 r1
    using skip_space_Cons [OF that(1)] json_chars_length [OF that(2)] skip_space_Cons [OF that(3)]
    by (auto dest!: json_length(1) skip_space_Cons)
  with v ms show ?thesis by (auto split: list.split option.split)
qed

lemma json_elements_enough:
  assumes "same_results n m" "2 * length s + 1 < Suc n" "2 * length s + 1 < Suc m"
  shows "json_elements (Suc n) d s = json_elements (Suc m) d s"
proof -
  have v: "json_value n d s = json_value m d s" using assms by (simp add: same_results_def)
  have vs: "json_elements n d r = json_elements m d r" if "length r < length s" for r
    using assms that by (simp add: same_results_def)
  have "length r3 < length s" if "json_value m d s = Some (w, r2)" "skip_space r2 = c2 # r3" for w r2 c2 r3
    using json_length(1) [OF that(1)] skip_space_Cons [OF that(2)] by simp
  with v vs show ?thesis by (auto split: list.split option.split)
qed

lemma json_enough: "same_results n m"
proof (induction n arbitrary: m)
  case (Suc n)
  show ?case
  proof (cases m)
    case (Suc k)
    then show ?thesis
      using json_value_enough [OF Suc.IH [of k]] json_members_enough [OF Suc.IH [of k]] json_elements_enough [OF Suc.IH [of k]]
      by (simp only: same_results_def simp_thms) blast
  qed (simp add: same_results_def)
qed (simp add: same_results_def)

lemma json_value_bound: "2 * length s < n \<Longrightarrow> json_value n d s = json_value (Suc (2 * length s)) d s"
  using json_enough [of n "Suc (2 * length s)"] by (simp only: same_results_def) simp

section \<open>Strings are read back\<close>

text \<open>\<open>utf8.ValidString\<close>: no byte has to be replaced.\<close>

definition utf8_valid :: "string \<Rightarrow> bool" where
  "utf8_valid s \<longleftrightarrow> list_all (\<lambda>(r, bs). \<not> (r = RuneError \<and> length bs = 1)) (runes s)"

text \<open>What the decoder makes of a string: every bad byte becomes U+FFFD.\<close>

definition to_valid :: "string \<Rightarrow> string" where
  "to_valid s = concat (map (\<lambda>(r, bs). encode_rune r) (runes s))"

definition rune_ok :: "nat \<Rightarrow> string \<Rightarrow> bool" where
  "rune_ok r bs \<longleftrightarrow> (\<exists>c cs. decode_rune (c # cs) = (r, length bs) \<and> bs = take (length bs) (c # cs))"

lemma runes_ok: "(r, bs) \<in> set (runes s) \<Longrightarrow> rune_ok r bs"
proof (induction s rule: runes.induct)
  case (2 c cs)
  obtain r0 w where d: "decode_rune (c # cs) = (r0, w)" by (cases "decode_rune (c # cs)")
  then have w: "length (take w (c # cs)) = w" using decode_rune_width [of c cs] by simp
  show ?case
  proof (cases "(r, bs) = (r0, take w (c # cs))")
    case True
    then show ?thesis using d w unfolding rune_ok_def by (metis prod.inject take_all_iff)
  next
    case False
    then show ?thesis using "2.prems" "2.IH" [OF d [symmetric]] d by (auto simp: runes.simps(2))
  qed
qed simp

text \<open>The four forms of a rune that is not an error.\<close>

lemma decode_forms:
  assumes "decode_rune (c # cs) = (r, w)" "\<not> (r = RuneError \<and> w = 1)"
  obtains (one) "w = 1" "byte c < 0x80" "r = byte c"
  | (two) c1 t where "w = 2" "cs = c1 # t" "seq_len (byte c) = 2" "second_ok (byte c) (byte c1)"
      "r = (byte c - 0xC0) * 64 + (byte c1 - 0x80)"
  | (three) c1 c2 t where "w = 3" "cs = c1 # c2 # t" "seq_len (byte c) = 3" "second_ok (byte c) (byte c1)" "is_cont (byte c2)"
      "r = (byte c - 0xE0) * 4096 + (byte c1 - 0x80) * 64 + (byte c2 - 0x80)"
  | (four) c1 c2 c3 t where "w = 4" "cs = c1 # c2 # c3 # t" "seq_len (byte c) = 4" "second_ok (byte c) (byte c1)"
      "is_cont (byte c2)" "is_cont (byte c3)"
      "r = (byte c - 0xF0) * 262144 + (byte c1 - 0x80) * 4096 + (byte c2 - 0x80) * 64 + (byte c3 - 0x80)"
proof -
  have "seq_len (byte c) = 1 \<longleftrightarrow> byte c < 0x80" by (simp add: seq_len_def)
  then show ?thesis
    using assms that
    by (auto simp: decode_rune.simps(2) Let_def decode2_def decode3_def decode4_def simp del: One_nat_def
        split: list.splits if_splits)
qed

lemma decode_stable:
  assumes "decode_rune (c # cs) = (r, w)" "\<not> (r = RuneError \<and> w = 1)"
  shows "decode_rune (take w (c # cs) @ t) = (r, w)"
  using assms
proof (cases rule: decode_forms)
  case one
  then show ?thesis using decode_rune_ascii [of c t] by simp
qed (simp_all add: decode_rune.simps(2) Let_def decode2_def decode3_def decode4_def)

text \<open>The digits of a rune to the base 64.\<close>

lemma digits64:
  fixes a e :: nat
  assumes "e < 64"
  shows "(a * 64 + e) div 64 = a" "(a * 64 + e) mod 64 = e"
  using assms by simp_all

lemma digits64_3:
  fixes a d e :: nat
  assumes "d < 64" "e < 64"
  shows "(a * 4096 + d * 64 + e) div 4096 = a" "(a * 4096 + d * 64 + e) div 64 mod 64 = d" "(a * 4096 + d * 64 + e) mod 64 = e"
proof -
  have x: "a * 4096 + d * 64 + e = (a * 64 + d) * 64 + e" by simp
  have "(a * 4096 + d * 64 + e) div (64 * 64) = a" unfolding div_mult2_eq x using assms by (simp only: digits64)
  then show "(a * 4096 + d * 64 + e) div 4096 = a" by simp
  show "(a * 4096 + d * 64 + e) div 64 mod 64 = d" "(a * 4096 + d * 64 + e) mod 64 = e"
    unfolding x using assms by (simp_all only: digits64)
qed

lemma digits64_4:
  fixes a b d e :: nat
  assumes "b < 64" "d < 64" "e < 64"
  shows "(a * 262144 + b * 4096 + d * 64 + e) div 262144 = a" "(a * 262144 + b * 4096 + d * 64 + e) div 4096 mod 64 = b"
    "(a * 262144 + b * 4096 + d * 64 + e) div 64 mod 64 = d" "(a * 262144 + b * 4096 + d * 64 + e) mod 64 = e"
proof -
  have x: "a * 262144 + b * 4096 + d * 64 + e = (a * 64 + b) * 4096 + d * 64 + e" by simp
  have "(a * 262144 + b * 4096 + d * 64 + e) div (4096 * 64) = a"
    unfolding div_mult2_eq x using assms by (simp only: digits64 digits64_3)
  then show "(a * 262144 + b * 4096 + d * 64 + e) div 262144 = a" by simp
  show "(a * 262144 + b * 4096 + d * 64 + e) div 4096 mod 64 = b" "(a * 262144 + b * 4096 + d * 64 + e) div 64 mod 64 = d"
    "(a * 262144 + b * 4096 + d * 64 + e) mod 64 = e"
    unfolding x using assms by (simp_all only: digits64 digits64_3)
qed

lemma char_from: "k \<le> byte c \<Longrightarrow> char_of (k + (byte c - k)) = c"
  by simp

lemma encode_decode:
  assumes "decode_rune (c # cs) = (r, w)" "\<not> (r = RuneError \<and> w = 1)"
  shows "encode_rune r = take w (c # cs)"
  using assms
proof (cases rule: decode_forms)
  case one
  then show ?thesis by simp
next
  case (two c1 t)
  have b: "0xC2 \<le> byte c" "byte c \<le> 0xDF" using two(3) by (auto simp: seq_len_def split: if_splits)
  then have b1: "0x80 \<le> byte c1" "byte c1 \<le> 0xBF" using two(4) by (auto simp: second_ok_def is_cont_def)
  then have m: "byte c1 - 0x80 < 64" by linarith
  have "0x80 \<le> r" "r < 0x800" using two(5) b m by linarith+
  then show ?thesis
    using two(1,2) b b1 digits64 [OF m, of "byte c - 0xC0"] char_from [of "0xC0" c] char_from [of "0x80" c1]
    by (simp add: encode_rune_def two(5))
next
  case (three c1 c2 t)
  have b: "0xE0 \<le> byte c" "byte c \<le> 0xEF" using three(3) by (auto simp: seq_len_def split: if_splits)
  have b1: "0x80 \<le> byte c1" "byte c1 \<le> 0xBF" "byte c = 0xE0 \<longrightarrow> 0xA0 \<le> byte c1" "byte c = 0xED \<longrightarrow> byte c1 \<le> 0x9F"
    using three(4) b by (auto simp: second_ok_def is_cont_def split: if_splits)
  have b2: "0x80 \<le> byte c2" "byte c2 \<le> 0xBF" using three(5) by (auto simp: is_cont_def)
  have m: "byte c1 - 0x80 < 64" "byte c2 - 0x80 < 64" using b1 b2 by linarith+
  have "0x800 \<le> r" "r < 0x10000" using three(6) b b1 b2 by linarith+
  moreover have "\<not> (0xD800 \<le> r \<and> r \<le> 0xDFFF)"
  proof -
    consider "byte c < 0xED" | "byte c = 0xED" | "0xED < byte c" by linarith
    then show ?thesis using three(6) b b1 b2 by cases linarith+
  qed
  ultimately have "encode_rune r = encode3 r" by (auto simp: encode_rune_def)
  then show ?thesis
    using three(1,2) b b1 b2 digits64_3 [OF m, of "byte c - 0xE0"] char_from [of "0xE0" c] char_from [of "0x80" c1] char_from [of "0x80" c2]
    by (simp add: encode3_def three(6))
next
  case (four c1 c2 c3 t)
  have b: "0xF0 \<le> byte c" "byte c \<le> 0xF4" using four(3) by (auto simp: seq_len_def split: if_splits)
  have b1: "0x80 \<le> byte c1" "byte c1 \<le> 0xBF" "byte c = 0xF0 \<longrightarrow> 0x90 \<le> byte c1" "byte c = 0xF4 \<longrightarrow> byte c1 \<le> 0x8F"
    using four(4) b by (auto simp: second_ok_def is_cont_def split: if_splits)
  have b2: "0x80 \<le> byte c2" "byte c2 \<le> 0xBF" "0x80 \<le> byte c3" "byte c3 \<le> 0xBF" using four(5,6) by (auto simp: is_cont_def)
  have m: "byte c1 - 0x80 < 64" "byte c2 - 0x80 < 64" "byte c3 - 0x80 < 64" using b1 b2 by linarith+
  have "0x10000 \<le> r" "r \<le> 0x10FFFF" using four(7) b b1 b2 by linarith+
  then have e: "encode_rune r = map char_of [0xF0 + r div 262144, 0x80 + r div 4096 mod 64, 0x80 + r div 64 mod 64, 0x80 + r mod 64]"
    by (simp add: encode_rune_def)
  have d: "r div 262144 = byte c - 0xF0" "r div 4096 mod 64 = byte c1 - 0x80" "r div 64 mod 64 = byte c2 - 0x80" "r mod 64 = byte c3 - 0x80"
    unfolding four(7) by (rule digits64_4 [OF m])+
  show ?thesis
    unfolding e d using four(1,2) char_from [OF b(1)] char_from [OF b1(1)] char_from [OF b2(1)] char_from [OF b2(3)] by simp
qed

lemma to_valid_id: "utf8_valid s \<Longrightarrow> to_valid s = s"
proof -
  assume v: "utf8_valid s"
  have "encode_rune r = bs" if e: "(r, bs) \<in> set (runes s)" for r bs
  proof -
    obtain c cs where c: "decode_rune (c # cs) = (r, length bs)" "bs = take (length bs) (c # cs)"
      using runes_ok [OF e] by (auto simp: rune_ok_def)
    have "\<not> (r = RuneError \<and> length bs = 1)" using v e by (auto simp: utf8_valid_def list_all_iff)
    from encode_decode [OF c(1) this] c(2) show ?thesis by simp
  qed
  then have "map (\<lambda>(r, bs). encode_rune r) (runes s) = map snd (runes s)" by (auto simp: map_eq_conv)
  then show ?thesis by (simp only: to_valid_def concat_runes)
qed

lemma hex_digit_json_hex: "n < 16 \<Longrightarrow> hex_digit (json_hex n) = Some n"
proof -
  have "\<forall>n < 16. hex_digit (json_hex n) = Some n"
    by (simp add: json_hex_def hex_digit_def is_digit_def byte_def numeral_eq_Suc All_less_Suc2)
  then show "n < 16 \<Longrightarrow> ?thesis" by blast
qed

definition prepend :: "string \<Rightarrow> (string \<times> string) option \<Rightarrow> (string \<times> string) option" where
  "prepend v = map_option (\<lambda>(vs, u). (v @ vs, u))"

lemma json_chars_escape: "json_escape s = Some (v, t) \<Longrightarrow> json_chars (backslash # s) = prepend v (json_chars t)"
  by (simp add: json_chars.simps(2) quote_def prepend_def)

lemma json_chars_plain:
  assumes "decode_rune (c # s) = (r, w)" "c \<noteq> quote" "c \<noteq> backslash" "0x20 \<le> byte c"
  shows "json_chars (c # s) = prepend (encode_rune r) (json_chars (drop w (c # s)))"
  using assms by (simp add: json_chars.simps(2) prepend_def)

lemma json_escape_hex:
  assumes "i < 16" "j < 16" "k < 16" "l < 16" "\<not> (0xD800 \<le> ((i * 16 + j) * 16 + k) * 16 + l \<and> ((i * 16 + j) * 16 + k) * 16 + l < 0xE000)"
  shows "json_escape (CHR ''u'' # json_hex i # json_hex j # json_hex k # json_hex l # t)
    = Some (encode_rune (((i * 16 + j) * 16 + k) * 16 + l), t)"
  using assms by (auto simp: json_escape_def hex_digit_json_hex quote_def)

lemma json_hex_chars:
  "CHR ''0'' = json_hex 0" "CHR ''2'' = json_hex 2" "CHR ''8'' = json_hex 8" "CHR ''9'' = json_hex 9"
  "CHR ''f'' = json_hex 15" "CHR ''d'' = json_hex 13"
  by (simp_all add: json_hex_def)

text \<open>The characters that have an escape of their own.\<close>

lemma json_named:
  "json_chars (json_rune (byte quote, [quote]) @ t) = prepend [quote] (json_chars t)"
  "json_chars (json_rune (byte backslash, [backslash]) @ t) = prepend [backslash] (json_chars t)"
  "json_chars (json_rune (byte (char_of (8 :: nat)), [char_of (8 :: nat)]) @ t) = prepend [char_of (8 :: nat)] (json_chars t)"
  "json_chars (json_rune (byte (char_of (12 :: nat)), [char_of (12 :: nat)]) @ t) = prepend [char_of (12 :: nat)] (json_chars t)"
  "json_chars (json_rune (byte (char_of (10 :: nat)), [char_of (10 :: nat)]) @ t) = prepend [char_of (10 :: nat)] (json_chars t)"
  "json_chars (json_rune (byte (char_of (13 :: nat)), [char_of (13 :: nat)]) @ t) = prepend [char_of (13 :: nat)] (json_chars t)"
  "json_chars (json_rune (byte (char_of (9 :: nat)), [char_of (9 :: nat)]) @ t) = prepend [char_of (9 :: nat)] (json_chars t)"
proof -
  have "char_of (34 :: nat) = CHR 0x22" "char_of (92 :: nat) = backslash" by (simp_all add: char_of_eq_iff)
  then show "json_chars (json_rune (byte quote, [quote]) @ t) = prepend [quote] (json_chars t)"
    "json_chars (json_rune (byte backslash, [backslash]) @ t) = prepend [backslash] (json_chars t)"
    by (simp_all add: json_rune_def byte_def quote_def json_chars_escape json_escape_def)
qed (simp_all add: json_rune_def byte_def quote_def json_chars_escape json_escape_def)

lemma json_chars_ascii:
  assumes "byte c < 0x80"
  shows "json_chars (json_rune (byte c, [c]) @ t) = prepend [c] (json_chars t)"
proof -
  consider (named) "c = quote \<or> c = backslash \<or> byte c \<in> {8, 12, 10, 13, 9}"
    | (hex) "\<not> (c = quote \<or> c = backslash \<or> byte c \<in> {8, 12, 10, 13, 9})" "byte c < 0x20 \<or> byte c \<in> {0x3C, 0x3E, 0x26}"
    | (plain) "c \<noteq> quote" "c \<noteq> backslash" "0x20 \<le> byte c" "byte c \<notin> {0x3C, 0x3E, 0x26}"
    by fastforce
  moreover have q: "c = quote \<longleftrightarrow> byte c = 0x22" "c = backslash \<longleftrightarrow> byte c = 0x5C"
    using byte_inject [of c quote] byte_inject [of c backslash] by (simp_all add: quote_def byte_def)
  ultimately show ?thesis
  proof cases
    case named
    have "c = char_of n" if "byte c = n" for n using that by auto
    with named have "c \<in> {quote, backslash, char_of (8 :: nat), char_of (12 :: nat), char_of (10 :: nat),
        char_of (13 :: nat), char_of (9 :: nat)}"
      by blast
    then show ?thesis
      by (elim insertE emptyE) (simp_all add: json_named)
  next
    case hex
    have "byte c div 16 < 16" using assms by linarith
    then have "json_escape (CHR ''u'' # json_hex 0 # json_hex 0 # json_hex (byte c div 16) # json_hex (byte c mod 16) # t)
        = Some (encode_rune (byte c), t)"
      using json_escape_hex [of 0 0 "byte c div 16" "byte c mod 16" t] assms by simp
    then show ?thesis
      using hex assms json_chars_escape unfolding q by (auto simp: json_rune_def json_hex_chars)
  next
    case plain
    then have "json_rune (byte c, [c]) = [c]" using assms unfolding q by (simp add: json_rune_def)
    with json_chars_plain [OF decode_rune_ascii [OF assms] plain(1-3), of t] assms show ?thesis by simp
  qed
qed

lemma json_chars_rune:
  assumes "(r, bs) \<in> set (runes s)"
  shows "json_chars (json_rune (r, bs) @ t) = prepend (encode_rune r) (json_chars t)"
proof (cases "r < 0x80")
  case True
  then obtain c where c: "byte c < 0x80" "r = byte c" "bs = [c]" using runes_elem [OF assms] by auto
  with json_chars_ascii [OF c(1), of t] show ?thesis by simp
next
  case False
  then have high: "\<forall>d \<in> set bs. 0x80 \<le> byte d" using runes_elem [OF assms] by auto
  obtain c cs where c: "decode_rune (c # cs) = (r, length bs)" "bs = take (length bs) (c # cs)"
    using runes_ok [OF assms] by (auto simp: rune_ok_def)
  consider (bad) "r = RuneError" "length bs = 1" | (sep) "r \<in> {0x2028, 0x2029}"
    | (plain) "\<not> (r = RuneError \<and> length bs = 1)" "r \<notin> {0x2028, 0x2029}" by blast
  then show ?thesis
  proof cases
    case bad
    then have "json_rune (r, bs) = backslash # CHR ''u'' # json_hex 15 # json_hex 15 # json_hex 15 # json_hex 13 # []"
      by (simp add: json_rune_def RuneError_def json_hex_chars [symmetric])
    then show ?thesis using json_chars_escape [OF json_escape_hex [of 15 15 15 13 t]] bad by (simp add: RuneError_def)
  next
    case sep
    then have "json_rune (r, bs) = backslash # CHR ''u'' # json_hex 2 # json_hex 0 # json_hex 2 # json_hex (r - 0x2020) # []"
      by (auto simp: json_rune_def RuneError_def json_hex_chars [symmetric])
    then show ?thesis using json_chars_escape [OF json_escape_hex [of 2 0 2 "r - 0x2020" t]] sep by auto
  next
    case plain
    have w: "1 \<le> length bs" using decode_rune_width [of c cs] c(1) by simp
    then obtain bs' where bs: "bs = c # bs'" using c(2) by (cases bs) (auto simp: take_Cons')
    have "decode_rune (c # bs' @ t) = (r, length bs)"
      using decode_stable [OF c(1) plain(1), of t] c(2) bs by simp
    moreover have "c \<noteq> quote" "c \<noteq> backslash" "0x20 \<le> byte c" using high bs by (auto simp: quote_def byte_def)
    ultimately have "json_chars (c # bs' @ t) = prepend (encode_rune r) (json_chars t)"
      using json_chars_plain [of c "bs' @ t" r "length bs"] bs by simp
    then show ?thesis using False plain bs by (auto simp: json_rune_def)
  qed
qed

lemma json_chars_string: "json_chars (concat (map json_rune (runes s)) @ quote # t) = Some (to_valid s, t)"
proof -
  have "json_chars (concat (map json_rune rs) @ quote # t) = Some (concat (map (\<lambda>(r, bs). encode_rune r) rs), t)"
    if "set rs \<subseteq> set (runes s)" for rs
    using that
  proof (induction rs)
    case Nil
    then show ?case by (simp add: json_chars.simps(2))
  next
    case (Cons p rs)
    obtain r bs where p: "p = (r, bs)" by (cases p)
    then show ?case
      using Cons json_chars_rune [of r bs s "concat (map json_rune rs) @ quote # t"] by (simp add: prepend_def)
  qed
  then show ?thesis by (simp add: to_valid_def)
qed

section \<open>The decoder\<close>

text \<open>The limit on nesting in \<open>encoding/json\<close>.\<close>

definition maxNestingDepth :: nat where
  "maxNestingDepth = 10000"

text \<open>\<open>http.MaxBytesReader\<close>: the first \<open>n\<close> bytes, and an error when there are more.\<close>

definition MaxBytes :: "nat \<Rightarrow> reader \<Rightarrow> bytes \<times> read_end" where
  "MaxBytes n r =
     (if length (body_bytes r) \<le> n then (body_bytes r, rd_end r)
      else (take n (body_bytes r), ReadFailed ''http: request body too large''))"

text \<open>
  The next value of a \<open>json.Decoder\<close>. An object or an array ends with its bracket; the end of any
  other value shows only in the byte that follows it, or in the end of the input.
\<close>

fun self_delimited :: "json \<Rightarrow> bool" where
  "self_delimited (JObject ms) = True"
| "self_delimited (JArray vs) = True"
| "self_delimited _ = False"

definition read_value :: "bytes \<times> read_end \<Rightarrow> json option" where
  "read_value = (\<lambda>(bs, e).
     case json_value (Suc (2 * length bs)) maxNestingDepth bs of
       None \<Rightarrow> None
     | Some (v, rest) \<Rightarrow>
         if self_delimited v \<or> rest \<noteq> [] \<or> e = EOF then Some v else None)"

section \<open>Objects of strings are read back\<close>

lemma skip_space_char [simp]: "byte c \<notin> {0x20, 0x09, 0x0D, 0x0A} \<Longrightarrow> skip_space (c # s) = c # s"
  by (simp add: skip_space_def)

lemma json_punctuation [simp]:
  "skip_space (quote # s) = quote # s" "skip_space (CHR 0x7B # s) = CHR 0x7B # s" "skip_space (CHR 0x7D # s) = CHR 0x7D # s"
  "skip_space (CHR '','' # s) = CHR '','' # s" "skip_space (CHR '':'' # s) = CHR '':'' # s"
  by (simp_all add: skip_space_def quote_def byte_def)

lemma json_value_string: "json_value (Suc n) d (json_string s @ t) = Some (JString (to_valid s), t)"
  by (simp add: json_string_def json_chars_string)

definition json_member :: "string \<times> string \<Rightarrow> string" where
  "json_member = (\<lambda>(k, v). json_string k @ CHR '':'' # json_string v)"

lemma json_members_Cons:
  "json_members (Suc (Suc n)) d (json_member (k, v) @ c # t) =
     (if c = CHR 0x7D then Some ([(to_valid k, JString (to_valid v))], t)
      else if c = CHR '','' then map_option (\<lambda>(ms, r). ((to_valid k, JString (to_valid v)) # ms, r)) (json_members (Suc n) d t)
      else None)"
  if "c \<in> {CHR 0x7D, CHR '',''}"
proof -
  have "json_member (k, v) @ c # t = quote # concat (map json_rune (runes k)) @ quote # CHR '':'' # json_string v @ c # t"
    by (simp add: json_member_def json_string_def)
  then show ?thesis
    using that json_value_string [of n d v "c # t"] by (auto simp: json_chars_string)
qed

lemma json_members_object:
  assumes "fs \<noteq> []" "length fs < n"
  shows "json_members n d (join_with (CHR '','') (map json_member fs) @ CHR 0x7D # t)
    = Some (map (\<lambda>(k, v). (to_valid k, JString (to_valid v))) fs, t)"
  using assms
proof (induction fs arbitrary: n)
  case (Cons f fs)
  obtain k v where f: "f = (k, v)" by (cases f)
  obtain m where n: "n = Suc (Suc m)" using Cons.prems(2) that [of "n - 2"] by simp
  show ?case
  proof (cases "fs = []")
    case True
    then show ?thesis using f n json_members_Cons [of "CHR 0x7D" m d k v t] by simp
  next
    case False
    then have "json_members (Suc m) d (join_with (CHR '','') (map json_member fs) @ CHR 0x7D # t)
        = Some (map (\<lambda>(k, v). (to_valid k, JString (to_valid v))) fs, t)"
      using Cons.IH [of "Suc m"] Cons.prems(2) n by simp
    then show ?thesis
      using False f n json_members_Cons [of "CHR '',''" m d k v] by (simp add: join_with_Cons)
  qed
qed simp

lemma length_join_with: "length ss \<le> Suc (length (join_with c ss))"
  by (induction c ss rule: join_with.induct) auto

lemma read_value_object:
  assumes "fs \<noteq> []" "bs = json_object (map (\<lambda>(k, v). (k, json_string v)) fs) @ t"
  shows "read_value (bs, e) = Some (JObject (map (\<lambda>(k, v). (to_valid k, JString (to_valid v))) fs))"
proof -
  let ?j = "join_with (CHR '','') (map json_member fs)"
  have bs: "bs = CHR 0x7B # ?j @ CHR 0x7D # t"
    using assms(2) by (simp add: json_object_def json_member_def case_prod_unfold comp_def)
  obtain q where q: "?j @ CHR 0x7D # t = quote # q"
  proof (cases fs)
    case (Cons f fs')
    then show ?thesis
      using that by (cases f; cases fs') (simp_all add: json_member_def json_string_def)
  qed (use assms(1) in simp)
  have sk: "skip_space bs = CHR 0x7B # ?j @ CHR 0x7D # t" by (simp add: bs)
  have "length fs < 2 * length bs" using length_join_with [of "map json_member fs" "CHR '',''"] bs by simp
  from json_members_object [OF assms(1) this, of "maxNestingDepth - 1" t]
  have "json_value (Suc (2 * length bs)) maxNestingDepth bs = Some (JObject (map (\<lambda>(k, v). (to_valid k, JString (to_valid v))) fs), t)"
    using q sk json_punctuation(1) [of q] by (simp add: maxNestingDepth_def quote_def)
  then show ?thesis by (simp add: read_value_def)
qed

end
