(* ===== verification/Handlers.thy ===== *)
theory Handlers
  imports ArchiveService GoJSON
begin

text \<open>
  \<open>internal/handler\<close>: the three HTTP handlers. A response is its status, the headers the handler
  sets and a body; a JSON body is the value that is encoded, a text body is an
  answer of \<open>net/http\<close> itself, and a download's body is what
  \<open>http.ServeContent\<close> is given. The create handler reads its request from the bytes of the body,
  as \<open>json.Decoder\<close> reads a struct. The event stream is the list of events written, given what each poll of the job store
  returned until the client went away or the server shut down.
\<close>

section \<open>Responses\<close>

record createArchiveResponse =
  cr_JobID :: string
  cr_Status :: string
  cr_EventsURL :: string
  cr_ExpiresIn :: int

datatype sse_event =
    SSEProgress ProgressEvent
  | SSECompleted CompletedEvent
  | SSEError ErrorEvent

datatype payload =
    NoPayload
  | ErrorBody string
  | TextBody string
  | CreatedBody createArchiveResponse
  | Content string time "archive_out node"
  | EventStream "sse_event list"

record response =
  rp_status :: int
  rp_header :: "(string \<times> string) list"
  rp_body :: payload

definition writeJSON :: "int \<Rightarrow> payload \<Rightarrow> response" where
  "writeJSON status body =
     \<lparr>rp_status = status, rp_header = [(''Content-Type'', ''application/json'')], rp_body = body\<rparr>"

definition writeError :: "int \<Rightarrow> string \<Rightarrow> response" where
  "writeError status safeMessage = writeJSON status (ErrorBody safeMessage)"

section \<open>Creating an archive\<close>

record ArchiveHandler =
  ah_expiry :: duration
  ah_baseURL :: string

definition NewArchiveHandler :: "duration \<Rightarrow> string \<Rightarrow> ArchiveHandler" where
  "NewArchiveHandler expiry baseURL = \<lparr>ah_expiry = expiry, ah_baseURL = baseURL\<rparr>"

definition maxCreateBodyBytes :: nat where
  "maxCreateBodyBytes = 2 ^ 20"

text \<open>
  Decoding into \<open>model.ArchiveRequest\<close>. A member belongs to the field whose name it has up to the
  case of ASCII letters (no letter of the three names has a case variant outside ASCII), members
  of no field are skipped, \<open>null\<close> leaves a field as it is, and any other value than a string is an
  error; the decoder goes on after such an error only to report it at the end.
\<close>

definition json_fold :: "string \<Rightarrow> string" where
  "json_fold = map (\<lambda>c. if 0x61 \<le> byte c \<and> byte c \<le> 0x7A then char_of (byte c - 0x20) else c)"

definition request_field :: "string \<Rightarrow> (string \<Rightarrow> ArchiveRequest \<Rightarrow> ArchiveRequest) option" where
  "request_field key =
     (if json_fold key = json_fold ''root_folder_id'' then Some (\<lambda>v r. r\<lparr>req_RootFolderID := v\<rparr>)
      else if json_fold key = json_fold ''archive_name'' then Some (\<lambda>v r. r\<lparr>req_ArchiveName := v\<rparr>)
      else if json_fold key = json_fold ''export_type'' then Some (\<lambda>v r. r\<lparr>req_ExportType := v\<rparr>)
      else None)"

fun store_members :: "(string \<times> json) list \<Rightarrow> ArchiveRequest \<Rightarrow> ArchiveRequest option" where
  "store_members [] req = Some req"
| "store_members ((key, v) # ms) req =
     (case request_field key of
        None \<Rightarrow> store_members ms req
      | Some set_field \<Rightarrow>
          case v of
            JNull \<Rightarrow> store_members ms req
          | JString s \<Rightarrow> store_members ms (set_field s req)
          | _ \<Rightarrow> None)"

definition decode_request :: "reader \<Rightarrow> ArchiveRequest option" where
  "decode_request body =
     (let req = \<lparr>req_RootFolderID = [], req_ArchiveName = [], req_ExportType = []\<rparr>
      in case read_value (MaxBytes maxCreateBodyBytes body) of
           None \<Rightarrow> None
         | Some JNull \<Rightarrow> Some req
         | Some (JObject ms) \<Rightarrow> store_members ms req
         | Some _ \<Rightarrow> None)"

text \<open>The text of a validation error, which wraps the sentinel \<open>ErrValidation\<close>.\<close>

definition validation_text :: "string \<Rightarrow> string" where
  "validation_text m = ''validation error: '' @ m"

definition handleCreateError :: "service_error \<Rightarrow> response" where
  "handleCreateError err =
     (case err of
        ErrValidation m \<Rightarrow> writeError 400 (validation_text m)
      | ErrFolderNotFound \<Rightarrow> writeError 404 ''root folder not found''
      | ErrQueueFull \<Rightarrow> writeError 503 ''archive service is busy, try again shortly''
      | ErrNotAccepting \<Rightarrow> writeError 503 ''archive service is shutting down''
      | _ \<Rightarrow> writeError 500 ''archive creation failed'')"

definition Create ::
  "ArchiveHandler \<Rightarrow> ArchiveService \<Rightarrow> time \<Rightarrow> string \<Rightarrow> World \<Rightarrow> reader \<Rightarrow> response \<times> World" where
  "Create h s now newUUID w body =
     (case decode_request body of
        None \<Rightarrow> (writeError 400 ''invalid request body'', w)
      | Some req \<Rightarrow>
          case CreateJob s now newUUID w req of
            (Inl e, w') \<Rightarrow> (handleCreateError e, w')
          | (Inr j, w') \<Rightarrow>
              (writeJSON 202 (CreatedBody
                 \<lparr>cr_JobID = j_ID j, cr_Status = status_text (j_Status j),
                  cr_EventsURL = ah_baseURL h @ ''/archives/'' @ j_ID j @ ''/events'',
                  cr_ExpiresIn = whole_seconds (ah_expiry h)\<rparr>), w'))"

section \<open>Downloading\<close>

definition fallback_rune :: "nat \<Rightarrow> nat" where
  "fallback_rune r = (if r < 0x20 \<or> 0x7e < r \<or> r = 0x22 \<or> r = 0x5C then 0x5F else r)"

definition contentDisposition :: "string \<Rightarrow> string" where
  "contentDisposition name =
     (let fallback = strings_Map fallback_rune name;
          fallback = (if fallback = [] then ''archive.zip'' else fallback)
      in ''attachment; filename='' @ [CHR 0x22] @ fallback @ [CHR 0x22]
         @ ''; filename*=UTF-8'' @ [CHR 0x27, CHR 0x27] @ PathEscape name)"

definition Download ::
  "ArchiveService \<Rightarrow> time \<Rightarrow> os_error option \<Rightarrow> World \<Rightarrow> string \<Rightarrow> string \<Rightarrow> response" where
  "Download s now fault w jobID tok =
     (if tok = [] then writeError 401 ''missing download token''
      else case GetJob w jobID of
        Inl ErrNotFound \<Rightarrow> writeError 404 ''job not found''
      | Inl _ \<Rightarrow> writeError 500 ''download failed''
      | Inr j \<Rightarrow>
          if j_Status j \<noteq> JobStatusCompleted then writeError 409 ''archive is not ready for download''
          else case ValidateDownloadToken w now jobID tok of
            Inl ErrTokenExpired \<Rightarrow> writeError 401 ''download token expired''
          | Inl _ \<Rightarrow> writeError 401 ''invalid download token''
          | Inr _ \<Rightarrow>
              case OpenArchive s fault w (j_ID j) of
                Inl e \<Rightarrow> writeError 500 ''download failed''
              | Inr f \<Rightarrow>
                  let modTime = (case j_CompletedAt j of Some t \<Rightarrow> t | None \<Rightarrow> 0)
                  in \<lparr>rp_status = 200,
                      rp_header = [(''Content-Type'', ContentType (j_ExportType j)),
                                   (''Content-Disposition'', contentDisposition (j_ArchiveName j))],
                      rp_body = Content (j_ArchiveName j) modTime f\<rparr>)"

section \<open>The event stream\<close>

record SSEHandler =
  sh_baseURL :: string

definition NewSSEHandler :: "string \<Rightarrow> SSEHandler" where
  "NewSSEHandler baseURL = \<lparr>sh_baseURL = baseURL\<rparr>"

record send_state =
  ss_sentAny :: bool
  ss_lastProgress :: ProgressEvent

definition progress_event :: "Job \<Rightarrow> ProgressEvent" where
  "progress_event j = \<lparr>pe_ProcessedFiles = j_ProcessedFiles j, pe_TotalFiles = j_TotalFiles j,
     pe_ProcessedBytes = j_ProcessedBytes j, pe_TotalBytes = j_TotalBytes j\<rparr>"

text \<open>One call of \<open>send\<close>: what it writes, the variables it keeps, and whether the stream is done.\<close>

definition send :: "SSEHandler \<Rightarrow> time \<Rightarrow> send_state \<Rightarrow> Job \<Rightarrow> sse_event list \<times> send_state \<times> bool" where
  "send h now st current =
     (case j_Status current of
        JobStatusCompleted \<Rightarrow>
          ([SSECompleted \<lparr>ce_JobID = j_ID current,
              ce_DownloadURL = sh_baseURL h @ ''/archives/'' @ j_ID current @ ''/download'',
              ce_DownloadToken = j_DownloadToken current,
              ce_ExpiresInSecs = whole_seconds (time_Sub (j_ExpiresAt current) now)\<rparr>], st, True)
      | JobStatusFailed \<Rightarrow>
          ([SSEError \<lparr>ee_Message = (if j_ErrorMessage current = [] then ''archive job failed''
              else j_ErrorMessage current)\<rparr>], st, True)
      | JobStatusExpired \<Rightarrow>
          ([SSEError \<lparr>ee_Message = (if j_ErrorMessage current = [] then ''archive job failed''
              else j_ErrorMessage current)\<rparr>], st, True)
      | _ \<Rightarrow>
          (let progress = progress_event current
           in if \<not> ss_sentAny st \<or> progress \<noteq> ss_lastProgress st
              then ([SSEProgress progress], \<lparr>ss_sentAny = True, ss_lastProgress = progress\<rparr>, False)
              else ([], st, False)))"

text \<open>The polling loop; the list of polls ends when the client disconnects or the server shuts down.\<close>

fun poll_loop :: "SSEHandler \<Rightarrow> (time \<times> (store_error, Job) result) list \<Rightarrow> send_state \<Rightarrow> sse_event list" where
  "poll_loop h [] st = []"
| "poll_loop h ((now, Inl e) # polls) st =
     (if e = ErrNotFound then [SSEError \<lparr>ee_Message = ''job no longer available''\<rparr>] else poll_loop h polls st)"
| "poll_loop h ((now, Inr current) # polls) st =
     (case send h now st current of (evs, st', d) \<Rightarrow> if d then evs else evs @ poll_loop h polls st')"

definition Events ::
  "SSEHandler \<Rightarrow> bool \<Rightarrow> time \<Rightarrow> (store_error, Job) result \<Rightarrow> (time \<times> (store_error, Job) result) list \<Rightarrow> response" where
  "Events h canFlush now first polls =
     (case first of
        Inl e \<Rightarrow> (if e = ErrNotFound then writeError 404 ''job not found''
                  else writeError 500 ''failed to open event stream'')
      | Inr j \<Rightarrow>
          if \<not> canFlush then writeError 500 ''streaming unsupported''
          else
            let st = \<lparr>ss_sentAny = False, ss_lastProgress = \<lparr>pe_ProcessedFiles = 0, pe_TotalFiles = 0,
                      pe_ProcessedBytes = 0, pe_TotalBytes = 0\<rparr>\<rparr>
            in \<lparr>rp_status = 200,
                rp_header = [(''Content-Type'', ''text/event-stream''), (''Cache-Control'', ''no-cache''),
                             (''Connection'', ''keep-alive'')],
                rp_body = EventStream (case send h now st j of (evs, st', d) \<Rightarrow>
                  if d then evs else evs @ poll_loop h polls st')\<rparr>)"

text \<open>The bytes of one event, with its payload as \<open>json.Marshal\<close> writes it.\<close>

fun event_name :: "sse_event \<Rightarrow> string" where
  "event_name (SSEProgress e) = ''progress''"
| "event_name (SSECompleted e) = ''completed''"
| "event_name (SSEError e) = ''error''"

fun event_data :: "sse_event \<Rightarrow> string" where
  "event_data (SSEProgress e) = json_object
     [(''processed_files'', FormatInt (pe_ProcessedFiles e)), (''total_files'', FormatInt (pe_TotalFiles e)),
      (''processed_bytes'', FormatInt (pe_ProcessedBytes e)), (''total_bytes'', FormatInt (pe_TotalBytes e))]"
| "event_data (SSECompleted e) = json_object
     [(''job_id'', json_string (ce_JobID e)), (''download_url'', json_string (ce_DownloadURL e)),
      (''download_token'', json_string (ce_DownloadToken e)), (''expires_in'', FormatInt (ce_ExpiresInSecs e))]"
| "event_data (SSEError e) = json_object [(''message'', json_string (ee_Message e))]"

definition newline :: char where
  "newline = CHR 0x0A"

definition writeSSEEvent :: "sse_event \<Rightarrow> bytes" where
  "writeSSEEvent e = ''event: '' @ event_name e @ newline # ''data: '' @ event_data e @ [newline, newline]"

section \<open>The stream's specification\<close>

text \<open>A client that reads the stream line by line: an event's name, its data, an empty line.\<close>

fun read_events :: "string list \<Rightarrow> (string \<times> string) list" where
  "read_events (a # b # c # ls) =
     (if HasPrefix a ''event: '' \<and> HasPrefix b ''data: '' \<and> c = []
      then (drop 7 a, drop 6 b) # read_events ls else [])"
| "read_events ls = []"

lemma event_printable: "printable (event_name e)" "printable (event_data e)"
  by (cases e; simp add: json_object_printable json_string_printable FormatInt_printable byte_def)+

lemma split_event: "split_on newline (writeSSEEvent e @ r) =
    (''event: '' @ event_name e) # (''data: '' @ event_data e) # [] # split_on newline r"
proof -
  have no: "newline \<notin> set s" if "printable s" for s
    using that by (auto simp: printable_def list_all_iff newline_def byte_def)
  have n: "newline \<notin> set (''event: '' @ event_name e)" "newline \<notin> set (''data: '' @ event_data e)"
    by (rule no, simp add: event_printable byte_def)+
  have "writeSSEEvent e @ r = (''event: '' @ event_name e) @ newline # ((''data: '' @ event_data e) @ newline # ([] @ newline # r))"
    by (simp add: writeSSEEvent_def)
  then show ?thesis
    by (simp only: split_on_append_sep [OF n(1)] split_on_append_sep [OF n(2)])
      (simp add: split_on_append_sep)
qed

text \<open>The running jobs that the polls saw before the stream ended, and the event that ended it.\<close>

fun running :: "(time \<times> (store_error, Job) result) list \<Rightarrow> Job list" where
  "running [] = []"
| "running ((now, Inl e) # polls) = (if e = ErrNotFound then [] else running polls)"
| "running ((now, Inr j) # polls) = (if terminal (j_Status j) then [] else j # running polls)"

fun ending :: "SSEHandler \<Rightarrow> (time \<times> (store_error, Job) result) list \<Rightarrow> sse_event list" where
  "ending h [] = []"
| "ending h ((now, Inl e) # polls) =
     (if e = ErrNotFound then [SSEError \<lparr>ee_Message = ''job no longer available''\<rparr>] else ending h polls)"
| "ending h ((now, Inr j) # polls) =
     (if j_Status j = JobStatusCompleted then
        [SSECompleted \<lparr>ce_JobID = j_ID j, ce_DownloadURL = sh_baseURL h @ ''/archives/'' @ j_ID j @ ''/download'',
           ce_DownloadToken = j_DownloadToken j, ce_ExpiresInSecs = whole_seconds (time_Sub (j_ExpiresAt j) now)\<rparr>]
      else if terminal (j_Status j) then
        [SSEError \<lparr>ee_Message = (if j_ErrorMessage j = [] then ''archive job failed'' else j_ErrorMessage j)\<rparr>]
      else ending h polls)"

lemma ending_no_progress: "SSEProgress p \<notin> set (ending h polls)"
  by (induction h polls rule: ending.induct) auto

lemma length_ending: "length (ending h polls) \<le> 1"
  by (induction h polls rule: ending.induct) auto

lemma send_terminal:
  "terminal (j_Status j) \<Longrightarrow> send h now st j = (ending h [(now, Inr j)], st, True)"
  by (cases "j_Status j") (simp_all add: send_def terminal_def)

lemma send_running:
  "\<not> terminal (j_Status j) \<Longrightarrow> send h now st j =
     (if \<not> ss_sentAny st \<or> progress_event j \<noteq> ss_lastProgress st
      then ([SSEProgress (progress_event j)], \<lparr>ss_sentAny = True, ss_lastProgress = progress_event j\<rparr>, False)
      else ([], st, False))"
  by (cases "j_Status j") (simp_all add: send_def terminal_def Let_def)

lemma remdups_adj_hd: "p # tl (remdups_adj (p # xs)) = remdups_adj (p # xs)"
  by (induction xs arbitrary: p) auto

lemma map_remdups_adj_hd: "f p # map f (tl (remdups_adj (p # xs))) = map f (remdups_adj (p # xs))"
  by (metis list.simps(9) remdups_adj_hd)

lemma poll_loop_spec:
  "poll_loop h polls \<lparr>ss_sentAny = True, ss_lastProgress = p\<rparr>
     = map SSEProgress (tl (remdups_adj (p # map progress_event (running polls)))) @ ending h polls"
proof (induction polls arbitrary: p)
  case Nil
  then show ?case by simp
next
  case (Cons a polls)
  obtain now r where a: "a = (now, r)" by (cases a)
  show ?case
  proof (cases r)
    case (Inl e)
    then show ?thesis using Cons a by simp
  next
    case (Inr j)
    show ?thesis
    proof (cases "terminal (j_Status j)")
      case True
      then show ?thesis using a Inr by (simp add: send_terminal)
    next
      case False
      then have "j_Status j \<noteq> JobStatusCompleted" by (auto simp: terminal_def)
      then show ?thesis using a Inr Cons False by (simp add: send_running map_remdups_adj_hd)
    qed
  qed
qed

lemma event_stream_body:
  "rp_body (Events h True now (Ok j) polls) = EventStream
     (map SSEProgress (remdups_adj (map progress_event (running ((now, Ok j) # polls))))
      @ ending h ((now, Ok j) # polls))"
proof (cases "terminal (j_Status j)")
  case True
  then show ?thesis by (simp add: Events_def Let_def send_terminal)
next
  case False
  then have "j_Status j \<noteq> JobStatusCompleted" by (auto simp: terminal_def)
  with False show ?thesis
    by (simp add: Events_def Let_def send_running poll_loop_spec map_remdups_adj_hd)
qed

section \<open>What the create handler reads\<close>

text \<open>The value of the last member that belongs to a field, or a default.\<close>

definition last_member :: "string \<Rightarrow> string \<Rightarrow> (string \<times> string) list \<Rightarrow> string" where
  "last_member dflt name fs = fold (\<lambda>(k, v) x. if json_fold k = json_fold name then v else x) fs dflt"

lemma json_fold_names:
  "json_fold ''root_folder_id'' = ''ROOT_FOLDER_ID''" "json_fold ''archive_name'' = ''ARCHIVE_NAME''"
  "json_fold ''export_type'' = ''EXPORT_TYPE''"
  by (simp_all add: json_fold_def byte_def char_of_eq_iff)

lemma store_members_strings:
  "store_members (map (\<lambda>(k, v). (k, JString v)) fs) req =
     Some \<lparr>req_RootFolderID = last_member (req_RootFolderID req) ''root_folder_id'' fs,
       req_ArchiveName = last_member (req_ArchiveName req) ''archive_name'' fs,
       req_ExportType = last_member (req_ExportType req) ''export_type'' fs\<rparr>"
proof (induction fs arbitrary: req)
  case Nil
  then show ?case by (simp add: last_member_def)
next
  case (Cons f fs)
  obtain k v where "f = (k, v)" by (cases f)
  then show ?case using Cons by (simp add: last_member_def request_field_def json_fold_names)
qed

lemma MaxBytes_prefix:
  assumes "body_bytes body = bs @ rest" "length bs \<le> n"
  shows "\<exists>t e. MaxBytes n body = (bs @ t, e)"
  using assms by (auto simp: MaxBytes_def)

lemma decode_request_object:
  assumes "fs \<noteq> []" "list_all (\<lambda>(k, v). utf8_valid k \<and> utf8_valid v) fs"
    "body_bytes body = json_object (map (\<lambda>(k, v). (k, json_string v)) fs) @ rest"
    "length (json_object (map (\<lambda>(k, v). (k, json_string v)) fs)) \<le> maxCreateBodyBytes"
  shows "decode_request body = Some \<lparr>req_RootFolderID = last_member [] ''root_folder_id'' fs,
    req_ArchiveName = last_member [] ''archive_name'' fs, req_ExportType = last_member [] ''export_type'' fs\<rparr>"
proof -
  obtain t e where m: "MaxBytes maxCreateBodyBytes body = (json_object (map (\<lambda>(k, v). (k, json_string v)) fs) @ t, e)"
    using MaxBytes_prefix [OF assms(3,4)] by blast
  have v: "map (\<lambda>(k, v). (to_valid k, JString (to_valid v))) fs = map (\<lambda>(k, v). (k, JString v)) fs"
    using assms(2) by (auto simp: list_all_iff to_valid_id)
  have "read_value (MaxBytes maxCreateBodyBytes body) = Some (JObject (map (\<lambda>(k, v). (k, JString v)) fs))"
    unfolding m read_value_object [OF assms(1) refl] v ..
  then show ?thesis by (simp add: decode_request_def store_members_strings)
qed

section \<open>Claims\<close>

text \<open>
  C16. A request that a client marshals reaches the service as it was meant. When the body starts
  with a JSON object of strings as \<open>json.Marshal\<close> writes it, within the limit of 1 MiB and in valid
  UTF-8, the handler runs \<open>CreateJob\<close> on the request whose fields are the last members of their
  names, whatever bytes were escaped, in whatever order and letter case the members come, with
  other members ignored, missing ones empty, and the bytes after the object not looked at. It
  answers 202 exactly when \<open>CreateJob\<close> accepts, and the state changes as \<open>CreateJob\<close> says.
\<close>

theorem create_reads_request:
  assumes "fs \<noteq> []" "list_all (\<lambda>(k, v). utf8_valid k \<and> utf8_valid v) fs"
    "body_bytes body = json_object (map (\<lambda>(k, v). (k, json_string v)) fs) @ rest"
    "length (json_object (map (\<lambda>(k, v). (k, json_string v)) fs)) \<le> maxCreateBodyBytes"
    "CreateJob s now i w \<lparr>req_RootFolderID = last_member [] ''root_folder_id'' fs,
       req_ArchiveName = last_member [] ''archive_name'' fs, req_ExportType = last_member [] ''export_type'' fs\<rparr> = (res, w')"
  shows "snd (Create h s now i w body) = w' \<and> (rp_status (fst (Create h s now i w body)) = 202 \<longleftrightarrow> (\<exists>j. res = Ok j))
    \<and> (\<forall>j. res = Ok j \<longrightarrow> (\<exists>cr. rp_body (fst (Create h s now i w body)) = CreatedBody cr \<and> cr_JobID cr = j_ID j
        \<and> cr_EventsURL cr = ah_baseURL h @ ''/archives/'' @ j_ID j @ ''/events''))"
proof (cases res)
  case (Inl e)
  then show ?thesis
    using decode_request_object [OF assms(1-4)] assms(5)
    by (cases e) (simp_all add: Create_def handleCreateError_def writeError_def writeJSON_def)
next
  case (Inr j)
  then show ?thesis
    using decode_request_object [OF assms(1-4)] assms(5) by (simp add: Create_def writeJSON_def)
qed

text \<open>The fields in another order, one in capitals, a quote in the name, an extra member and bytes after the object.\<close>

definition wit_members :: "(string \<times> string) list" where
  "wit_members = [(''Archive_Name'', ''Q: x.zip''), (''note'', [CHR ''x'', CHR 0x22]), (''root_folder_id'', ''r'')]"

definition wit_body :: "(string \<times> string) list \<Rightarrow> reader" where
  "wit_body fs = \<lparr>rd_chunks = [json_object (map (\<lambda>(k, v). (k, json_string v)) fs), ''garbage''], rd_end = EOF, rd_eager = False\<rparr>"

lemma wit_members_ok:
  "wit_members \<noteq> []" "list_all (\<lambda>(k, v). utf8_valid k \<and> utf8_valid v) wit_members"
  "body_bytes (wit_body wit_members) = json_object (map (\<lambda>(k, v). (k, json_string v)) wit_members) @ ''garbage''"
  "length (json_object (map (\<lambda>(k, v). (k, json_string v)) wit_members)) \<le> maxCreateBodyBytes"
  by (simp_all add: wit_members_def utf8_valid_def byte_def RuneError_def wit_body_def body_bytes_def)
    (simp add: json_object_def json_string_def json_rune_def byte_def maxCreateBodyBytes_def)

lemma wit_last_members:
  "last_member [] ''root_folder_id'' wit_members = ''r''" "last_member [] ''archive_name'' wit_members = ''Q: x.zip''"
  "last_member [] ''export_type'' wit_members = []"
proof -
  have "json_fold ''Archive_Name'' = ''ARCHIVE_NAME''" "json_fold ''note'' = ''NOTE''"
    by (simp_all add: json_fold_def byte_def char_of_eq_iff)
  then show "last_member [] ''root_folder_id'' wit_members = ''r''" "last_member [] ''archive_name'' wit_members = ''Q: x.zip''"
    "last_member [] ''export_type'' wit_members = []"
    by (simp_all add: last_member_def wit_members_def json_fold_names)
qed

lemma wit_decoded:
  "decode_request (wit_body wit_members) = Some \<lparr>req_RootFolderID = ''r'', req_ArchiveName = ''Q: x.zip'', req_ExportType = []\<rparr>"
  using decode_request_object [OF wit_members_ok] by (simp only: wit_last_members)

theorem create_reads_request_witness:
  "decode_request (wit_body wit_members) = Some \<lparr>req_RootFolderID = ''r'', req_ArchiveName = ''Q: x.zip'', req_ExportType = []\<rparr>
   \<and> (\<exists>j w'. snd (Create \<lparr>ah_expiry = 60, ah_baseURL = []\<rparr> wit_svc 9 ''job2'' (wit_world\<lparr>w_queue := []\<rparr>) (wit_body wit_members)) = w'
       \<and> GetJob w' ''job2'' = Ok j \<and> w_queue w' = [''job2'']
       \<and> rp_status (fst (Create \<lparr>ah_expiry = 60, ah_baseURL = []\<rparr> wit_svc 9 ''job2'' (wit_world\<lparr>w_queue := []\<rparr>) (wit_body wit_members))) = 202)"
proof -
  let ?w = "wit_world\<lparr>w_queue := []\<rparr>" and ?req = "\<lparr>req_RootFolderID = ''r'', req_ArchiveName = ''Q: x.zip'', req_ExportType = []\<rparr>"
  obtain j w' where c: "CreateJob wit_svc 9 ''job2'' ?w ?req = (Ok j, w')" "GetJob w' ''job2'' = Ok j" "w_queue w' = [''job2'']"
    using wit_drive_name(1)
    by (simp add: CreateJob_def wit_svc_def wit_cfg_def wit_repo_def wit_world_def validateRootFolderID_def validateExportType_def
        store_Create_def store_Get_def GetJob_def Let_def wit_job_def)
  then have "CreateJob wit_svc 9 ''job2'' ?w \<lparr>req_RootFolderID = last_member [] ''root_folder_id'' wit_members,
      req_ArchiveName = last_member [] ''archive_name'' wit_members, req_ExportType = last_member [] ''export_type'' wit_members\<rparr> = (Ok j, w')"
    by (simp only: wit_last_members)
  from create_reads_request [OF wit_members_ok this] c(2,3) wit_decoded show ?thesis by blast
qed


text \<open>
  C39. The content disposition header cannot be broken out of, whatever bytes the archive name
  has: the quoted fallback is a non-empty text of printable ASCII without quotes and
  backslashes, the extended form has only characters that need no quoting, and decoding it
  gives the name back byte for byte.
\<close>

theorem content_disposition_safe:
  "\<exists>fb. contentDisposition name = ''attachment; filename='' @ [CHR 0x22] @ fb @ [CHR 0x22]
      @ ''; filename*=UTF-8'' @ [CHR 0x27, CHR 0x27] @ PathEscape name
    \<and> fb \<noteq> [] \<and> list_all (\<lambda>c. 0x20 \<le> byte c \<and> byte c \<le> 0x7e \<and> c \<noteq> CHR 0x22 \<and> c \<noteq> backslash) fb
    \<and> list_all (\<lambda>c. unreserved c \<or> c \<in> set ''$&+:=@%'') (PathEscape name)
    \<and> PathUnescape (PathEscape name) = Some name"
proof -
  have f: "fallback_rune r < 0x80 \<and> 0x20 \<le> fallback_rune r \<and> fallback_rune r \<le> 0x7e
      \<and> fallback_rune r \<noteq> 0x22 \<and> fallback_rune r \<noteq> 0x5C" for r
    by (auto simp: fallback_rune_def)
  let ?ok = "\<lambda>c. 0x20 \<le> byte c \<and> byte c \<le> 0x7e \<and> c \<noteq> CHR 0x22 \<and> c \<noteq> backslash"
  have "?ok c" if c: "c \<in> set (strings_Map fallback_rune name)" for c
  proof -
    obtain r where r: "c = char_of (fallback_rune r)"
      using c f by (auto simp: strings_Map_def)
    have "byte c = fallback_rune r" using f [of r] by (simp add: r byte_char_of)
    with f [of r] show ?thesis by (auto simp: byte_def)
  qed
  moreover have "list_all ?ok ''archive.zip''" by (simp add: byte_def)
  ultimately show ?thesis
    using PathEscape_chars [of _ name] PathUnescape_PathEscape [of name]
    by (intro exI [of _ "if strings_Map fallback_rune name = [] then ''archive.zip'' else strings_Map fallback_rune name"])
      (auto simp: contentDisposition_def Let_def list_all_iff path_char_def)
qed

text \<open>
  The status of the create handler's answer tells what happened: 202 exactly when a job was
  created, 400 for an undecodable body or a validation error, 404 for a missing root folder, 503
  for a full queue or a service that is shutting down, and 500 with a fixed text, which tells
  nothing about the cause, for everything else.
\<close>

lemma create_status:
  "\<exists>status payload. fst (Create h s now i w body) = writeJSON status payload \<and>
     (case decode_request body of
        None \<Rightarrow> status = 400 \<and> snd (Create h s now i w body) = w
      | Some req \<Rightarrow> snd (Create h s now i w body) = snd (CreateJob s now i w req) \<and>
          (status = 202 \<longleftrightarrow> (\<exists>j. fst (CreateJob s now i w req) = Ok j)) \<and>
          (status = 400 \<longleftrightarrow> (\<exists>m. fst (CreateJob s now i w req) = Err (ErrValidation m))) \<and>
          (status = 404 \<longleftrightarrow> fst (CreateJob s now i w req) = Err ErrFolderNotFound) \<and>
          (status = 503 \<longleftrightarrow> fst (CreateJob s now i w req) \<in> {Err ErrQueueFull, Err ErrNotAccepting}) \<and>
          (status \<in> {202, 400, 404, 503} \<or> status = 500 \<and> payload = ErrorBody ''archive creation failed''))"
  by (auto simp: Create_def handleCreateError_def writeError_def writeJSON_def
      split: option.splits prod.splits sum.splits service_error.splits)

text \<open>
  C25. The event stream reports every change and nothing twice: its progress events are the
  progress of the running job at the polls, with consecutive repetitions left out, starting
  with the state at connection; then comes the one event that ends the stream (completed with
  the download token, an error, or the job's disappearance), or none if the client left first.
\<close>

theorem event_stream_exact:
  "rp_body (Events h True now (Ok j) polls) = EventStream
     (map SSEProgress (remdups_adj (map progress_event (running ((now, Ok j) # polls))))
      @ ending h ((now, Ok j) # polls))
   \<and> length (ending h ((now, Ok j) # polls)) \<le> 1"
  using event_stream_body length_ending by blast

text \<open>
  C38. The bytes of the event stream carry the events and nothing else: whatever job ids, tokens,
  URLs and error messages they hold, a client that reads the stream line by line gets back every
  event's name and payload, in order. No text in a payload can end an event or start another.
\<close>

theorem event_stream_framed:
  "read_events (split_on newline (concat (map writeSSEEvent evs))) = map (\<lambda>e. (event_name e, event_data e)) evs"
  by (induction evs) (simp_all add: split_event HasPrefix_def)

end
