(* ===== verification/Config.thy ===== *)
theory Config
  imports ArchiveService GoText
begin

text \<open>
  \<open>internal/config\<close>: the configuration from environment variables. The environment is a map from
  names to values. The third-party \<open>godotenv.Load\<close> is a parameter that takes the environment and
  gives an error or the environment with the variables of the \<open>.env\<close> file; \<open>url.Parse\<close> is a
  parameter that gives the scheme and the host. Conversions from \<open>int\<close> to \<open>int32\<close> wrap.
\<close>

section \<open>The configuration\<close>

record AppConfig =
  ap_Env :: string

record ServerConfig =
  sc_Host :: string
  sc_Port :: int
  sc_ReadTimeout :: duration
  sc_WriteTimeout :: duration
  sc_IdleTimeout :: duration
  sc_ShutdownTimeout :: duration
  sc_PublicBaseURL :: string
  sc_SelfAPIToken :: string

definition Addr :: "ServerConfig \<Rightarrow> string" where
  "Addr s = sc_Host s @ '':'' @ FormatInt (sc_Port s)"

record DatabaseConfig =
  db_URL :: string
  db_MaxConns :: int
  db_MinConns :: int
  db_MaxConnLifetime :: duration
  db_MaxConnIdleTime :: duration

definition LogOutputStdout :: string where
  "LogOutputStdout = ''stdout''"

definition LogOutputStderr :: string where
  "LogOutputStderr = ''stderr''"

definition LogOutputFile :: string where
  "LogOutputFile = ''file''"

record LogConfig =
  lg_Level :: string
  lg_Output :: string
  lg_File :: string
  lg_MaxSizeMB :: int
  lg_MaxBackups :: int
  lg_MaxAgeDays :: int
  lg_Compress :: bool

record StorageConfig =
  st_RequestTimeout :: duration

record Config =
  c_App :: AppConfig
  c_Server :: ServerConfig
  c_Database :: DatabaseConfig
  c_Log :: LogConfig
  c_Archive :: ArchiveConfig
  c_Storage :: StorageConfig

section \<open>Reading variables\<close>

type_synonym environment = "string \<rightharpoonup> string"

datatype config_error =
    LoadDotenv string
  | InvalidInt string num_error
  | InvalidInt64 string num_error
  | InvalidBool string
  | InvalidDuration string
  | Required string
  | MustBePositive string
  | InvalidPublicBaseURL string
  | LogFileRequired

definition getString :: "environment \<Rightarrow> string \<Rightarrow> string \<Rightarrow> string" where
  "getString env key def = (case env key of Some v \<Rightarrow> if v \<noteq> [] then v else def | None \<Rightarrow> def)"

definition getInt :: "environment \<Rightarrow> string \<Rightarrow> int \<Rightarrow> (config_error, int) result" where
  "getInt env key def =
     (case env key of
        None \<Rightarrow> Ok def
      | Some v \<Rightarrow> if v = [] then Ok def
          else case ParseInt v of Inl e \<Rightarrow> Err (InvalidInt key e) | Inr n \<Rightarrow> Ok n)"

definition getInt64 :: "environment \<Rightarrow> string \<Rightarrow> int \<Rightarrow> (config_error, int) result" where
  "getInt64 env key def =
     (case env key of
        None \<Rightarrow> Ok def
      | Some v \<Rightarrow> if v = [] then Ok def
          else case ParseInt v of Inl e \<Rightarrow> Err (InvalidInt64 key e) | Inr n \<Rightarrow> Ok n)"

definition getBool :: "environment \<Rightarrow> string \<Rightarrow> bool \<Rightarrow> (config_error, bool) result" where
  "getBool env key def =
     (case env key of
        None \<Rightarrow> Ok def
      | Some v \<Rightarrow> if v = [] then Ok def
          else case ParseBool v of None \<Rightarrow> Err (InvalidBool key) | Some b \<Rightarrow> Ok b)"

definition getDuration :: "environment \<Rightarrow> string \<Rightarrow> duration \<Rightarrow> (config_error, duration) result" where
  "getDuration env key def =
     (case env key of
        None \<Rightarrow> Ok def
      | Some v \<Rightarrow> if v = [] then Ok def
          else case ParseDuration v of None \<Rightarrow> Err (InvalidDuration key) | Some d \<Rightarrow> Ok d)"

section \<open>Validation and loading\<close>

definition validate :: "(string \<Rightarrow> (string \<times> string) option) \<Rightarrow> Config \<Rightarrow> config_error option" where
  "validate url_Parse c =
     (if db_URL (c_Database c) = [] then Some (Required ''DATABASE_URL'')
      else if sc_SelfAPIToken (c_Server c) = [] then Some (Required ''SELF_API_TOKEN'')
      else if cfg_TempDir (c_Archive c) = [] then Some (Required ''ARCHIVE_TEMP_DIR'')
      else if cfg_MaxSizeBytes (c_Archive c) \<le> 0 then Some (MustBePositive ''ARCHIVE_MAX_SIZE_BYTES'')
      else if cfg_Workers (c_Archive c) \<le> 0 then Some (MustBePositive ''ARCHIVE_WORKERS'')
      else if cfg_QueueSize (c_Archive c) \<le> 0 then Some (MustBePositive ''ARCHIVE_QUEUE_SIZE'')
      else if sc_PublicBaseURL (c_Server c) \<noteq> []
              \<and> (case url_Parse (sc_PublicBaseURL (c_Server c)) of
                   None \<Rightarrow> True
                 | Some (scheme, host) \<Rightarrow> scheme \<noteq> ''http'' \<and> scheme \<noteq> ''https'' \<or> host = [])
           then Some (InvalidPublicBaseURL (sc_PublicBaseURL (c_Server c)))
      else if lg_Output (c_Log c) = LogOutputFile \<and> lg_File (c_Log c) = [] then Some LogFileRequired
      else None)"

definition second :: duration where
  "second = 1000000000"

definition wrap32 :: "int \<Rightarrow> int" where
  "wrap32 x = (x + 2 ^ 31) mod 2 ^ 32 - 2 ^ 31"

text \<open>Go's early return on an error.\<close>

definition bind :: "('e, 'a) result \<Rightarrow> ('a \<Rightarrow> ('e, 'b) result) \<Rightarrow> ('e, 'b) result" where
  "bind r f = (case r of Inl e \<Rightarrow> Err e | Inr a \<Rightarrow> f a)"

lemma bind_Ok_iff [simp]: "bind r f = Ok b \<longleftrightarrow> (\<exists>a. r = Ok a \<and> f a = Ok b)"
  by (cases r) (auto simp: bind_def)

definition loadServer :: "environment \<Rightarrow> (config_error, ServerConfig) result" where
  "loadServer env =
     bind (getInt env ''SERVER_PORT'' 8080) (\<lambda>port.
     bind (getDuration env ''SERVER_READ_TIMEOUT'' (15 * second)) (\<lambda>readT.
     bind (getDuration env ''SERVER_WRITE_TIMEOUT'' (15 * second)) (\<lambda>writeT.
     bind (getDuration env ''SERVER_IDLE_TIMEOUT'' (60 * second)) (\<lambda>idleT.
     bind (getDuration env ''SERVER_SHUTDOWN_TIMEOUT'' (30 * second)) (\<lambda>shutdownT.
     Ok \<lparr>sc_Host = getString env ''SERVER_HOST'' ''0.0.0.0'', sc_Port = port, sc_ReadTimeout = readT,
         sc_WriteTimeout = writeT, sc_IdleTimeout = idleT, sc_ShutdownTimeout = shutdownT,
         sc_PublicBaseURL = TrimRightByte (getString env ''SERVER_PUBLIC_BASE_URL'' []) slash,
         sc_SelfAPIToken = getString env ''SELF_API_TOKEN'' []\<rparr>)))))"

definition loadDatabase :: "environment \<Rightarrow> (config_error, DatabaseConfig) result" where
  "loadDatabase env =
     bind (getInt env ''DATABASE_MAX_CONNS'' 20) (\<lambda>maxConns.
     bind (getInt env ''DATABASE_MIN_CONNS'' 5) (\<lambda>minConns.
     bind (getDuration env ''DATABASE_MAX_CONN_LIFETIME'' (30 * 60 * second)) (\<lambda>lifetime.
     bind (getDuration env ''DATABASE_MAX_CONN_IDLE_TIME'' (5 * 60 * second)) (\<lambda>idle.
     Ok \<lparr>db_URL = getString env ''DATABASE_URL'' [], db_MaxConns = wrap32 maxConns, db_MinConns = wrap32 minConns,
         db_MaxConnLifetime = lifetime, db_MaxConnIdleTime = idle\<rparr>))))"

definition loadLog :: "environment \<Rightarrow> (config_error, LogConfig) result" where
  "loadLog env =
     bind (getInt env ''LOG_MAX_SIZE_MB'' 100) (\<lambda>size.
     bind (getInt env ''LOG_MAX_BACKUPS'' 10) (\<lambda>backups.
     bind (getInt env ''LOG_MAX_AGE_DAYS'' 30) (\<lambda>age.
     bind (getBool env ''LOG_COMPRESS'' True) (\<lambda>compress.
     Ok \<lparr>lg_Level = getString env ''LOG_LEVEL'' ''info'', lg_Output = getString env ''LOG_OUTPUT'' ''stdout'',
         lg_File = getString env ''LOG_FILE'' [], lg_MaxSizeMB = size, lg_MaxBackups = backups,
         lg_MaxAgeDays = age, lg_Compress = compress\<rparr>))))"

definition loadArchive :: "environment \<Rightarrow> (config_error, ArchiveConfig) result" where
  "loadArchive env =
     bind (getInt64 env ''ARCHIVE_MAX_SIZE_BYTES'' (4 * 1024 * 1024 * 1024)) (\<lambda>maxSize.
     bind (getDuration env ''ARCHIVE_EXPIRY'' (3600 * second)) (\<lambda>expiry.
     bind (getInt env ''ARCHIVE_WORKERS'' 4) (\<lambda>workers.
     bind (getInt env ''ARCHIVE_QUEUE_SIZE'' 100) (\<lambda>queueSize.
     bind (getDuration env ''ARCHIVE_CLEANUP_INTERVAL'' (10 * 60 * second)) (\<lambda>interval.
     bind (getInt env ''ARCHIVE_FILE_CONCURRENCY'' 4) (\<lambda>concurrency.
     Ok \<lparr>cfg_TempDir = getString env ''ARCHIVE_TEMP_DIR'' [], cfg_MaxSizeBytes = maxSize, cfg_Expiry = expiry,
         cfg_Workers = workers, cfg_QueueSize = queueSize, cfg_CleanupInterval = interval,
         cfg_FileConcurrency = concurrency\<rparr>))))))"

definition loadStorage :: "environment \<Rightarrow> (config_error, StorageConfig) result" where
  "loadStorage env =
     bind (getDuration env ''STORAGE_REQUEST_TIMEOUT'' (30 * second)) (\<lambda>timeout.
     Ok \<lparr>st_RequestTimeout = timeout\<rparr>)"

text \<open>\<open>godotenv.Load\<close>: the file is absent, cannot be read, or sets variables.\<close>

datatype dotenv = DotenvAbsent | DotenvFailed string | DotenvLoaded environment

definition Load ::
  "(environment \<Rightarrow> dotenv) \<Rightarrow> (string \<Rightarrow> (string \<times> string) option) \<Rightarrow> environment
     \<Rightarrow> (config_error, Config) result" where
  "Load godotenv url_Parse env0 =
     (case godotenv env0 of
        DotenvFailed e \<Rightarrow> Err (LoadDotenv e)
      | d \<Rightarrow>
          let env = (case d of DotenvLoaded env1 \<Rightarrow> env1 | _ \<Rightarrow> env0)
          in bind (loadServer env) (\<lambda>srv.
             bind (loadDatabase env) (\<lambda>db.
             bind (loadLog env) (\<lambda>log.
             bind (loadArchive env) (\<lambda>arch.
             bind (loadStorage env) (\<lambda>stor.
             let cfg = \<lparr>c_App = \<lparr>ap_Env = getString env ''APP_ENV'' ''development''\<rparr>, c_Server = srv,
                        c_Database = db, c_Log = log, c_Archive = arch, c_Storage = stor\<rparr>
             in case validate url_Parse cfg of Some e \<Rightarrow> Err e | None \<Rightarrow> Ok cfg))))))"

section \<open>What a loaded configuration satisfies\<close>

definition is_int32 :: "int \<Rightarrow> bool" where
  "is_int32 x \<longleftrightarrow> - (2 ^ 31) \<le> x \<and> x < 2 ^ 31"

lemma is_int32_wrap32 [simp]: "is_int32 (wrap32 x)"
proof -
  have "0 \<le> (x + 2 ^ 31) mod 2 ^ 32" "(x + 2 ^ 31) mod 2 ^ 32 < (2 ^ 32 :: int)" by simp_all
  then show ?thesis by (simp add: wrap32_def is_int32_def)
qed

lemma getInt_range: "getInt env key d = Ok n \<Longrightarrow> is_int64 d \<Longrightarrow> is_int64 n"
  by (auto simp: getInt_def dest: ParseInt_range split: option.splits if_splits sum.splits)

lemma getInt64_range: "getInt64 env key d = Ok n \<Longrightarrow> is_int64 d \<Longrightarrow> is_int64 n"
  by (auto simp: getInt64_def dest: ParseInt_range split: option.splits if_splits sum.splits)

lemma getDuration_range: "getDuration env key d = Ok n \<Longrightarrow> is_int64 d \<Longrightarrow> is_int64 n"
  by (auto simp: getDuration_def dest: ParseDuration_range split: option.splits if_splits)

lemma TrimRightByte_last: "TrimRightByte s c = [] \<or> last (TrimRightByte s c) \<noteq> c"
proof -
  have "dropWhile P xs = [] \<or> \<not> P (hd (dropWhile P xs))" for P and xs :: string
    by (metis hd_dropWhile)
  from this [of "\<lambda>x. x = c" "rev s"] show ?thesis by (auto simp: TrimRightByte_def last_rev)
qed

text \<open>The environment that \<open>Load\<close> reads.\<close>

definition effective_env :: "(environment \<Rightarrow> dotenv) \<Rightarrow> environment \<Rightarrow> environment" where
  "effective_env godotenv env0 = (case godotenv env0 of DotenvLoaded env1 \<Rightarrow> env1 | _ \<Rightarrow> env0)"

lemma Load_Ok:
  assumes "Load godotenv url_Parse env0 = Ok c"
  shows "loadServer (effective_env godotenv env0) = Ok (c_Server c)"
    "loadDatabase (effective_env godotenv env0) = Ok (c_Database c)"
    "loadLog (effective_env godotenv env0) = Ok (c_Log c)"
    "loadArchive (effective_env godotenv env0) = Ok (c_Archive c)"
    "loadStorage (effective_env godotenv env0) = Ok (c_Storage c)"
    "validate url_Parse c = None"
  using assms
  by (auto simp: Load_def effective_env_def Let_def split: dotenv.splits option.splits)

lemma validate_None:
  assumes "validate url_Parse c = None"
  shows "db_URL (c_Database c) \<noteq> []" "sc_SelfAPIToken (c_Server c) \<noteq> []" "cfg_TempDir (c_Archive c) \<noteq> []"
    "0 < cfg_MaxSizeBytes (c_Archive c)" "0 < cfg_Workers (c_Archive c)" "0 < cfg_QueueSize (c_Archive c)"
    "sc_PublicBaseURL (c_Server c) = [] \<or> (\<exists>scheme host. url_Parse (sc_PublicBaseURL (c_Server c)) = Some (scheme, host)
       \<and> scheme \<in> {''http'', ''https''} \<and> host \<noteq> [])"
    "lg_Output (c_Log c) = LogOutputFile \<Longrightarrow> lg_File (c_Log c) \<noteq> []"
  using assms by (auto simp: validate_def split: if_splits option.splits)

lemma loadServer_values:
  assumes "loadServer env = Ok c"
  shows "getInt env ''SERVER_PORT'' 8080 = Ok (sc_Port c)"
    "getDuration env ''SERVER_SHUTDOWN_TIMEOUT'' (30 * second) = Ok (sc_ShutdownTimeout c)"
    "sc_PublicBaseURL c = TrimRightByte (getString env ''SERVER_PUBLIC_BASE_URL'' []) slash"
    "sc_SelfAPIToken c = getString env ''SELF_API_TOKEN'' []"
  using assms by (auto simp: loadServer_def)

lemma loadDatabase_values:
  assumes "loadDatabase env = Ok c"
  shows "is_int32 (db_MaxConns c)" "is_int32 (db_MinConns c)" "db_URL c = getString env ''DATABASE_URL'' []"
  using assms by (auto simp: loadDatabase_def)

lemma loadArchive_values:
  assumes "loadArchive env = Ok c"
  shows "getInt64 env ''ARCHIVE_MAX_SIZE_BYTES'' (4 * 1024 * 1024 * 1024) = Ok (cfg_MaxSizeBytes c)"
    "getDuration env ''ARCHIVE_EXPIRY'' (3600 * second) = Ok (cfg_Expiry c)"
    "getInt env ''ARCHIVE_WORKERS'' 4 = Ok (cfg_Workers c)"
    "getInt env ''ARCHIVE_QUEUE_SIZE'' 100 = Ok (cfg_QueueSize c)"
    "getString env ''ARCHIVE_TEMP_DIR'' [] = cfg_TempDir c"
  using assms by (auto simp: loadArchive_def)

section \<open>Claims\<close>


definition wit_env :: environment where
  "wit_env = [''DATABASE_URL'' \<mapsto> ''postgres://db'', ''SELF_API_TOKEN'' \<mapsto> ''secret'', ''ARCHIVE_TEMP_DIR'' \<mapsto> ''/a'',
     ''ARCHIVE_WORKERS'' \<mapsto> ''8'', ''ARCHIVE_EXPIRY'' \<mapsto> ''1h30m'', ''SERVER_PUBLIC_BASE_URL'' \<mapsto> ''https://x/'',
     ''ARCHIVE_CLEANUP_INTERVAL'' \<mapsto> ''0'']"

definition wit_url_Parse :: "string \<Rightarrow> (string \<times> string) option" where
  "wit_url_Parse u = (if u = ''https://x'' then Some (''https'', ''x'') else None)"

lemma wit_load:
  "\<exists>c. Load (\<lambda>_. DotenvAbsent) wit_url_Parse wit_env = Ok c \<and> c_Server c = \<lparr>sc_Host = ''0.0.0.0'', sc_Port = 8080,
     sc_ReadTimeout = 15000000000, sc_WriteTimeout = 15000000000, sc_IdleTimeout = 60000000000,
     sc_ShutdownTimeout = 30000000000, sc_PublicBaseURL = ''https://x'', sc_SelfAPIToken = ''secret''\<rparr>
   \<and> c_Archive c = \<lparr>cfg_TempDir = ''/a'', cfg_MaxSizeBytes = 4294967296, cfg_Expiry = 5400000000000, cfg_Workers = 8,
     cfg_QueueSize = 100, cfg_CleanupInterval = 0, cfg_FileConcurrency = 4\<rparr>"
proof -
  have "ParseInt ''8'' = Ok 8" "ParseDuration ''1h30m'' = Some 5400000000000" "ParseDuration ''0'' = Some 0"
    "TrimRightByte ''https://x/'' slash = ''https://x''"
    by code_simp+
  note p = this
  have env: "loadServer wit_env = Ok \<lparr>sc_Host = ''0.0.0.0'', sc_Port = 8080, sc_ReadTimeout = 15000000000,
      sc_WriteTimeout = 15000000000, sc_IdleTimeout = 60000000000, sc_ShutdownTimeout = 30000000000,
      sc_PublicBaseURL = ''https://x'', sc_SelfAPIToken = ''secret''\<rparr>"
    using p(4) by (simp add: loadServer_def bind_def getInt_def getDuration_def getString_def wit_env_def second_def)
  have arch: "loadArchive wit_env = Ok \<lparr>cfg_TempDir = ''/a'', cfg_MaxSizeBytes = 4294967296, cfg_Expiry = 5400000000000,
      cfg_Workers = 8, cfg_QueueSize = 100, cfg_CleanupInterval = 0, cfg_FileConcurrency = 4\<rparr>"
    using p by (simp add: loadArchive_def bind_def getInt_def getInt64_def getDuration_def getString_def wit_env_def second_def)
  obtain db where db: "loadDatabase wit_env = Ok db" "db_URL db = ''postgres://db''"
    by (simp add: loadDatabase_def bind_def getInt_def getDuration_def getString_def wit_env_def)
  obtain lg where lg: "loadLog wit_env = Ok lg" "lg_Output lg = ''stdout''"
    by (simp add: loadLog_def bind_def getInt_def getBool_def getString_def wit_env_def)
  obtain st where st: "loadStorage wit_env = Ok st"
    by (simp add: loadStorage_def bind_def getDuration_def wit_env_def)
  show ?thesis
    using env arch db lg st
    by (simp add: Load_def bind_def Let_def validate_def wit_url_Parse_def LogOutputFile_def)
qed


end
