(* ===== verification/Server.thy ===== *)
theory Server
  imports Handlers Config
begin

text \<open>
  \<open>internal/server\<close>: the three routes, the API token check, CORS and the request log, composed as
  \<open>New\<close> composes them, and the part of \<open>http.ServeMux\<close> that decides which handler a request
  reaches. A request is its method, its escaped path, its header values (the empty string for an
  absent header), the \<open>token\<close> of its query and its body.
\<close>

section \<open>Requests\<close>

record request =
  rq_method :: string
  rq_path :: string
  rq_header :: "string \<Rightarrow> string"
  rq_token :: string
  rq_body :: reader

text \<open>What a handler reads from outside: the clock, a new UUID, a fault when it opens the archive, and
  the times and results of its polls of the job store until the stream ends.\<close>

record http_env =
  hx_now :: time
  hx_uuid :: string
  hx_open :: "os_error option"
  hx_polls :: "(time \<times> (store_error, Job) result) list"

type_synonym http_handler = "http_env \<Rightarrow> World \<Rightarrow> request \<Rightarrow> response \<times> World"

section \<open>Routing in \<open>net/http\<close>\<close>

definition cleanPath :: "string \<Rightarrow> string" where
  "cleanPath p0 =
     (if p0 = [] then ''/''
      else let p = (if hd p0 = slash then p0 else slash # p0); np = Clean p
           in if last p = slash \<and> np \<noteq> ''/'' then np @ [slash] else np)"

text \<open>The segments that the routing tree sees: unescaped if they can be, and a last empty one as \<open>"/"\<close>.\<close>

definition unescape_segment :: "string \<Rightarrow> string" where
  "unescape_segment s = (case PathUnescape s of Some t \<Rightarrow> t | None \<Rightarrow> s)"

definition route_segments :: "string \<Rightarrow> string list" where
  "route_segments p =
     (if p = [] then []
      else let segs = tl (split_on slash p)
           in if segs \<noteq> [] \<and> last segs = [] then map unescape_segment (butlast segs) @ [''/'']
              else map unescape_segment segs)"

datatype route =
    CreateRoute
  | EventsRoute string
  | DownloadRoute string

fun match_segments :: "string list \<Rightarrow> route option" where
  "match_segments [a, b] = (if a = ''internal'' \<and> b = ''archives'' then Some CreateRoute else None)"
| "match_segments [a, i, b] =
     (if a = ''archives'' \<and> i \<noteq> ''/'' \<and> b = ''events'' then Some (EventsRoute i)
      else if a = ''archives'' \<and> i \<noteq> ''/'' \<and> b = ''download'' then Some (DownloadRoute i)
      else None)"
| "match_segments _ = None"

definition match_route :: "string \<Rightarrow> route option" where
  "match_route p = match_segments (route_segments p)"

fun route_methods :: "route \<Rightarrow> string list" where
  "route_methods CreateRoute = [''POST'']"
| "route_methods (EventsRoute i) = [''GET'', ''HEAD'']"
| "route_methods (DownloadRoute i) = [''GET'', ''HEAD'']"

fun join_comma :: "string list \<Rightarrow> string" where
  "join_comma [] = []"
| "join_comma [s] = s"
| "join_comma (s # ss) = s @ '', '' @ join_comma ss"

definition http_Error :: "int \<Rightarrow> (string \<times> string) list \<Rightarrow> string \<Rightarrow> response" where
  "http_Error status extra text =
     \<lparr>rp_status = status,
      rp_header = extra @ [(''Content-Type'', ''text/plain; charset=utf-8''), (''X-Content-Type-Options'', ''nosniff'')],
      rp_body = TextBody text\<rparr>"

text \<open>
  \<open>ServeMux.ServeHTTP\<close>: a path that is not clean is answered with a redirect (its location and
  text are left out), a path without a pattern with 404, and a pattern with other methods with 405.
\<close>

definition ServeMux :: "(route \<Rightarrow> http_handler) \<Rightarrow> http_handler" where
  "ServeMux handlers hx w r =
     (let path = (if rq_method r = ''CONNECT'' then rq_path r else cleanPath (rq_path r))
      in if rq_path r = ''*'' then (\<lparr>rp_status = 400, rp_header = [], rp_body = NoPayload\<rparr>, w)
         else if path \<noteq> rq_path r
         then (\<lparr>rp_status = 301, rp_header = [], rp_body = NoPayload\<rparr>, w)
         else case match_route path of
                None \<Rightarrow> (http_Error 404 [] ''404 page not found'', w)
              | Some rt \<Rightarrow>
                  if rq_method r \<in> set (route_methods rt) then handlers rt hx w r
                  else (http_Error 405 [(''Allow'', join_comma (route_methods rt))] ''Method Not Allowed'', w))"

section \<open>Middleware\<close>

text \<open>\<open>subtle.ConstantTimeCompare\<close>: the differences of all bytes are collected before they are looked at.\<close>

definition byte_word :: "char \<Rightarrow> 8 word" where
  "byte_word c = word_of_nat (byte c)"

definition ConstantTimeCompare :: "bytes \<Rightarrow> bytes \<Rightarrow> int" where
  "ConstantTimeCompare x y =
     (if length x \<noteq> length y then 0
      else if foldl (\<lambda>v (a, b). or v (xor (byte_word a) (byte_word b))) 0 (zip x y) = 0 then 1 else 0)"

definition apiTokenHeader :: string where
  "apiTokenHeader = ''X-API-Token''"

definition requireAPIToken :: "string \<Rightarrow> http_handler \<Rightarrow> http_handler" where
  "requireAPIToken want next hx w r =
     (if length want = 0 \<or> ConstantTimeCompare (rq_header r apiTokenHeader) want \<noteq> 1
      then (writeJSON 401 (ErrorBody ''unauthorized''), w)
      else next hx w r)"

definition cors_headers :: "request \<Rightarrow> (string \<times> string) list" where
  "cors_headers r =
     (let origin = rq_header r ''Origin''
      in (if origin \<noteq> []
          then [(''Access-Control-Allow-Origin'', origin), (''Access-Control-Allow-Credentials'', ''true''),
                (''Vary'', ''Origin'')]
          else [(''Access-Control-Allow-Origin'', ''*'')])
         @ [(''Access-Control-Expose-Headers'',
             ''Accept-Ranges, Content-Disposition, Content-Length, Content-Range, Content-Type, Last-Modified'')])"

definition preflight_headers :: "request \<Rightarrow> (string \<times> string) list" where
  "preflight_headers r =
     (let reqHeaders = rq_header r ''Access-Control-Request-Headers''
      in [(''Access-Control-Allow-Methods'', ''GET, POST, PUT, PATCH, DELETE, OPTIONS'')]
         @ (if reqHeaders \<noteq> []
            then [(''Access-Control-Allow-Headers'', reqHeaders), (''Vary'', ''Access-Control-Request-Headers'')]
            else [(''Access-Control-Allow-Headers'', ''*'')])
         @ [(''Access-Control-Max-Age'', ''86400'')])"

definition cors :: "http_handler \<Rightarrow> http_handler" where
  "cors next hx w r =
     (if rq_method r = ''OPTIONS''
      then (\<lparr>rp_status = 204, rp_header = cors_headers r @ preflight_headers r, rp_body = NoPayload\<rparr>, w)
      else case next hx w r of (resp, w') \<Rightarrow> (resp\<lparr>rp_header := cors_headers r @ rp_header resp\<rparr>, w'))"

text \<open>\<open>requestLogger\<close> sees the status through \<open>statusWriter\<close>, which starts at 200 and forwards every call.\<close>

record log_entry =
  le_method :: string
  le_path :: string
  le_status :: int

record statusWriter =
  sw_status :: int

definition WriteHeader :: "int \<Rightarrow> statusWriter \<Rightarrow> statusWriter" where
  "WriteHeader status sw = sw\<lparr>sw_status := status\<rparr>"

definition requestLogger ::
  "http_handler \<Rightarrow> http_env \<Rightarrow> World \<Rightarrow> request \<Rightarrow> response \<times> World \<times> log_entry" where
  "requestLogger next hx w r =
     (case next hx w r of (resp, w') \<Rightarrow>
        let sw = WriteHeader (rp_status resp) \<lparr>sw_status = 200\<rparr>
        in (resp, w', \<lparr>le_method = rq_method r, le_path = unescape_segment (rq_path r), le_status = sw_status sw\<rparr>))"

section \<open>The server\<close>

text \<open>The handlers behind the routes. \<open>statusWriter\<close> has a \<open>Flush\<close>, so streaming is always supported.\<close>

fun handlers :: "ServerConfig \<Rightarrow> ArchiveService \<Rightarrow> duration \<Rightarrow> route \<Rightarrow> http_handler" where
  "handlers c s expiry CreateRoute =
     requireAPIToken (sc_SelfAPIToken c)
       (\<lambda>hx w r. Create (NewArchiveHandler expiry (sc_PublicBaseURL c)) s (hx_now hx) (hx_uuid hx) w (rq_body r))"
| "handlers c s expiry (EventsRoute i) =
     (\<lambda>hx w r. (Events (NewSSEHandler (sc_PublicBaseURL c)) True (hx_now hx) (GetJob w i) (hx_polls hx), w))"
| "handlers c s expiry (DownloadRoute i) =
     (\<lambda>hx w r. (Download s (hx_now hx) (hx_open hx) w i (rq_token r), w))"

definition serve ::
  "ServerConfig \<Rightarrow> ArchiveService \<Rightarrow> duration \<Rightarrow> http_env \<Rightarrow> World \<Rightarrow> request \<Rightarrow> response \<times> World \<times> log_entry" where
  "serve c s expiry = requestLogger (cors (ServeMux (handlers c s expiry)))"

section \<open>Lemmas\<close>

lemma byte_word_inject: "byte_word a = byte_word b \<longleftrightarrow> a = b"
proof -
  have "unat (byte_word c) = byte c" for c
    using byte_lt_256 [of c] by (simp add: byte_word_def unat_of_nat)
  then show ?thesis by (metis byte_inject)
qed

lemma xor_zero_iff: "xor a b = 0 \<longleftrightarrow> a = (b :: 8 word)"
  by (metis xor.assoc xor.left_neutral xor_self_eq xor.right_neutral)

lemma ConstantTimeCompare_eq: "ConstantTimeCompare x y = 1 \<longleftrightarrow> x = y"
proof -
  have fold: "foldl (\<lambda>v (a, b). or v (xor (byte_word a) (byte_word b))) u (zip x y) = 0 \<longleftrightarrow> u = 0 \<and> x = y"
    if "length x = length y" for u
    using that
    by (induction x y arbitrary: u rule: list_induct2) (auto simp: or_eq_0_iff xor_zero_iff byte_word_inject)
  show ?thesis by (simp add: ConstantTimeCompare_def fold)
qed

text \<open>Every answer but that of a handler leaves the state alone and carries no content of the service.\<close>

definition mux_answer :: "response \<Rightarrow> bool" where
  "mux_answer resp \<longleftrightarrow> rp_status resp \<in> {301, 400, 404, 405} \<and> (rp_body resp = NoPayload \<or> (\<exists>t. rp_body resp = TextBody t))"

lemma ServeMux_cases:
  assumes "ServeMux hs hx w r = (resp, w')"
  obtains (own) "mux_answer resp" "w' = w"
  | (handler) rt where "match_route (rq_path r) = Some rt" "rq_method r \<in> set (route_methods rt)" "hs rt hx w r = (resp, w')"
  using assms
  by (auto simp: ServeMux_def mux_answer_def http_Error_def Let_def split: if_splits option.splits)

lemma serve_cases:
  assumes "serve c s expiry hx w r = (resp, w', le)"
  obtains (preflight) "rq_method r = ''OPTIONS''" "rp_status resp = 204" "rp_body resp = NoPayload" "w' = w"
    "rp_header resp = cors_headers r @ preflight_headers r"
  | (own) "rq_method r \<noteq> ''OPTIONS''" "rp_status resp \<in> {301, 400, 404, 405}"
      "rp_body resp = NoPayload \<or> (\<exists>t. rp_body resp = TextBody t)" "w' = w"
  | (handler) rt resp0 where "match_route (rq_path r) = Some rt" "rq_method r \<in> set (route_methods rt)"
      "handlers c s expiry rt hx w r = (resp0, w')" "resp = resp0\<lparr>rp_header := cors_headers r @ rp_header resp0\<rparr>"
proof (cases "rq_method r = ''OPTIONS''")
  case True
  then show ?thesis using preflight assms by (auto simp: serve_def requestLogger_def cors_def Let_def)
next
  case False
  obtain resp0 w0 where m: "ServeMux (handlers c s expiry) hx w r = (resp0, w0)" by (cases "ServeMux (handlers c s expiry) hx w r")
  then have e: "resp = resp0\<lparr>rp_header := cors_headers r @ rp_header resp0\<rparr>" "w0 = w'"
    using False assms by (auto simp: serve_def requestLogger_def cors_def Let_def)
  from m show ?thesis
  proof (cases rule: ServeMux_cases)
    case own
    then show ?thesis using that(2) [OF False] e by (simp add: mux_answer_def)
  next
    case (handler rt)
    then show ?thesis using that(3) e by blast
  qed
qed

lemma Events_no_content: "rp_body (Events h f now first polls) \<noteq> Content n t a" "rp_status (Events h f now first polls) \<noteq> 202"
  by (auto simp: Events_def writeError_def writeJSON_def Let_def split: sum.splits)

lemma Create_no_content: "rp_body (fst (Create h s now i w body)) \<noteq> Content n t a"
  by (auto simp: Create_def handleCreateError_def writeError_def writeJSON_def
      split: option.splits prod.splits sum.splits service_error.splits)

lemma Create_effect:
  assumes "Create h s now i w body = (resp, w')" "w' \<noteq> w \<or> rp_status resp = 202"
  shows "\<exists>req. decode_request body = Some req \<and> w' = snd (CreateJob s now i w req)"
  using assms by (auto simp: Create_def writeError_def writeJSON_def split: option.splits prod.splits sum.splits)

lemma Create_accepted:
  assumes "Create h s now i w body = (resp, w')" "rp_status resp = 202"
  shows "\<exists>req j. decode_request body = Some req \<and> CreateJob s now i w req = (Ok j, w')"
  using assms
  by (auto simp: Create_def writeError_def writeJSON_def handleCreateError_def
      split: option.splits prod.splits sum.splits service_error.splits)

lemma Download_content:
  "rp_body (Download s now fault w i tok) = Content n t f \<Longrightarrow>
     ValidateDownloadToken w now i tok = Ok () \<and> (\<exists>j. GetJob w i = Ok j \<and> j_Status j = JobStatusCompleted)"
  "rp_status (Download s now fault w i tok) \<noteq> 202"
  by (auto simp: Download_def writeError_def writeJSON_def Let_def
      split: if_splits sum.splits store_error.splits token_error.splits)

lemma match_segments_SomeD:
  "match_segments segs = Some CreateRoute \<Longrightarrow> segs = [''internal'', ''archives'']"
  "match_segments segs = Some (DownloadRoute i) \<Longrightarrow> segs = [''archives'', i, ''download'']"
  by (cases segs rule: match_segments.cases; auto split: if_splits)+

lemma create_route_guard:
  assumes "handlers c s expiry CreateRoute hx w r = (resp, w')"
  shows "w' \<noteq> w \<or> rp_status resp = 202 \<Longrightarrow> (rq_header r ''X-API-Token'' = sc_SelfAPIToken c \<and> sc_SelfAPIToken c \<noteq> [])
      \<and> (\<exists>req. decode_request (rq_body r) = Some req \<and> w' = snd (CreateJob s (hx_now hx) (hx_uuid hx) w req))"
    "rp_body resp \<noteq> Content n t f"
proof -
  let ?h = "NewArchiveHandler expiry (sc_PublicBaseURL c)"
  let ?ok = "rq_header r ''X-API-Token'' = sc_SelfAPIToken c \<and> sc_SelfAPIToken c \<noteq> []"
  have "Create ?h s (hx_now hx) (hx_uuid hx) w (rq_body r) = (resp, w')" if ?ok
    using assms that by (simp add: requireAPIToken_def apiTokenHeader_def ConstantTimeCompare_eq)
  moreover have "resp = writeJSON 401 (ErrorBody ''unauthorized'') \<and> w' = w" if "\<not> ?ok"
    using assms that by (auto simp: requireAPIToken_def apiTokenHeader_def ConstantTimeCompare_eq split: if_splits)
  ultimately consider (created) ?ok "Create ?h s (hx_now hx) (hx_uuid hx) w (rq_body r) = (resp, w')"
    | (refused) "resp = writeJSON 401 (ErrorBody ''unauthorized'')" "w' = w" by blast
  note cases = this
  show "rp_body resp \<noteq> Content n t f"
    using Create_no_content [of ?h s "hx_now hx" "hx_uuid hx" w "rq_body r" n t f]
    by (cases rule: cases) (simp_all add: writeJSON_def)
  assume e: "w' \<noteq> w \<or> rp_status resp = 202"
  show "?ok \<and> (\<exists>req. decode_request (rq_body r) = Some req \<and> w' = snd (CreateJob s (hx_now hx) (hx_uuid hx) w req))"
  proof (cases rule: cases)
    case created
    then show ?thesis using Create_effect [OF created(2) e] by blast
  next
    case refused
    then show ?thesis using e by (simp add: writeJSON_def)
  qed
qed

text \<open>A request that is answered with 202 went to the create handler and was accepted.\<close>

lemma serve_accepted:
  assumes "serve c s expiry hx w r = (resp, w', le)" "rp_status resp = 202"
  shows "\<exists>req j. decode_request (rq_body r) = Some req \<and> CreateJob s (hx_now hx) (hx_uuid hx) w req = (Ok j, w')"
  using assms(1)
proof (cases rule: serve_cases)
  case (handler rt resp0)
  then have st: "rp_status resp0 = 202" using assms(2) by simp
  have "rt = CreateRoute" using handler(3) st Events_no_content(2) Download_content(2) by (cases rt) auto
  with handler(3) st show ?thesis
    by (auto simp: requireAPIToken_def writeJSON_def dest: Create_accepted split: if_splits)
qed (use assms(2) in auto)

text \<open>What the outer middleware does for every request, whatever the inner handlers answer.\<close>

lemma serve_every_answer:
  assumes "serve c s expiry hx w r = (resp, w', le)"
  shows "(''Access-Control-Allow-Origin'', if rq_header r ''Origin'' = [] then ''*'' else rq_header r ''Origin'') \<in> set (rp_header resp)"
    "le_status le = rp_status resp"
  using assms
  by (auto simp: serve_def requestLogger_def cors_def cors_headers_def WriteHeader_def Let_def split: prod.splits if_splits)

section \<open>Claims\<close>

text \<open>
  C8. What a request can do at the server. The state changes, and a request is answered with 202,
  only for a POST to \<open>/internal/archives\<close> that carries the configured API token, which is then
  not empty; the change is that of \<open>CreateJob\<close>. An archive is served only to a GET or HEAD of
  \<open>/archives/{id}/download\<close> whose token is valid for exactly that job, which is completed. A
  preflight request is answered with 204 and reaches no handler. Every answer allows the
  request's origin, and the log records its status.
\<close>

theorem server_guards:
  assumes "serve c s expiry hx w r = (resp, w', le)"
  shows "(w' \<noteq> w \<or> rp_status resp = 202 \<longrightarrow>
      rq_method r = ''POST'' \<and> route_segments (rq_path r) = [''internal'', ''archives'']
      \<and> rq_header r ''X-API-Token'' = sc_SelfAPIToken c \<and> sc_SelfAPIToken c \<noteq> []
      \<and> (\<exists>req. decode_request (rq_body r) = Some req \<and> w' = snd (CreateJob s (hx_now hx) (hx_uuid hx) w req)))
    \<and> (\<forall>n t f. rp_body resp = Content n t f \<longrightarrow>
      (\<exists>i j. rq_method r \<in> {''GET'', ''HEAD''} \<and> route_segments (rq_path r) = [''archives'', i, ''download'']
        \<and> ValidateDownloadToken w (hx_now hx) i (rq_token r) = Ok ()
        \<and> GetJob w i = Ok j \<and> j_Status j = JobStatusCompleted))
    \<and> (rq_method r = ''OPTIONS'' \<longrightarrow> rp_status resp = 204 \<and> rp_body resp = NoPayload \<and> w' = w)
    \<and> (''Access-Control-Allow-Origin'', if rq_header r ''Origin'' = [] then ''*'' else rq_header r ''Origin'')
        \<in> set (rp_header resp)
    \<and> le_status le = rp_status resp"
proof -
  note h = serve_every_answer(1) [OF assms] and l = serve_every_answer(2) [OF assms]
  from assms show ?thesis
  proof (cases rule: serve_cases)
    case preflight
    with h l show ?thesis by simp
  next
    case own
    with h l show ?thesis by auto
  next
    case (handler rt resp0)
    have no: "rq_method r \<noteq> ''OPTIONS''" using handler(2) by (cases rt) auto
    show ?thesis
    proof (cases rt)
      case CreateRoute
      note g = create_route_guard [OF handler(3) [unfolded CreateRoute]]
      have "route_segments (rq_path r) = [''internal'', ''archives'']" "rq_method r = ''POST''"
        using handler(1,2) CreateRoute match_segments_SomeD(1) by (auto simp: match_route_def)
      then show ?thesis using g handler(4) h l no by simp
    next
      case (EventsRoute i)
      then show ?thesis using handler h l no Events_no_content by auto
    next
      case (DownloadRoute i)
      have d: "resp0 = Download s (hx_now hx) (hx_open hx) w i (rq_token r)" "w' = w"
        using handler(3) DownloadRoute by auto
      have "route_segments (rq_path r) = [''archives'', i, ''download'']" "rq_method r \<in> {''GET'', ''HEAD''}"
        using handler(1,2) DownloadRoute match_segments_SomeD(2) by (auto simp: match_route_def)
      then show ?thesis using Download_content [of s "hx_now hx" "hx_open hx" w i "rq_token r"] d handler(4) h l no by auto
    qed
  qed
qed

definition wit_scfg :: ServerConfig where
  "wit_scfg = \<lparr>sc_Host = ''0.0.0.0'', sc_Port = 8080, sc_ReadTimeout = 15, sc_WriteTimeout = 15, sc_IdleTimeout = 60,
     sc_ShutdownTimeout = 30, sc_PublicBaseURL = [], sc_SelfAPIToken = ''secret''\<rparr>"

definition wit_hx :: http_env where
  "wit_hx = \<lparr>hx_now = 9, hx_uuid = ''job2'', hx_open = None, hx_polls = []\<rparr>"

text \<open>A request without the token, one with it that creates a job, and a preflight.\<close>

definition wit_rq :: "string \<Rightarrow> string \<Rightarrow> request" where
  "wit_rq method tok = \<lparr>rq_method = method, rq_path = ''/internal/archives'',
     rq_header = (\<lambda>k. if k = ''X-API-Token'' then tok else []), rq_token = [],
     rq_body = wit_body wit_members\<rparr>"

lemma wit_route: "cleanPath ''/internal/archives'' = ''/internal/archives''" "match_route ''/internal/archives'' = Some CreateRoute"
  by code_simp+

theorem server_guards_witness:
  "(\<exists>resp w' le. serve wit_scfg wit_svc 60 wit_hx (wit_world\<lparr>w_queue := []\<rparr>) (wit_rq ''POST'' ''secret'') = (resp, w', le)
      \<and> rp_status resp = 202 \<and> le_status le = 202
      \<and> w' = snd (CreateJob wit_svc 9 ''job2'' (wit_world\<lparr>w_queue := []\<rparr>)
           \<lparr>req_RootFolderID = ''r'', req_ArchiveName = ''Q: x.zip'', req_ExportType = []\<rparr>))
   \<and> (\<exists>resp w' le. serve wit_scfg wit_svc 60 wit_hx wit_world (wit_rq ''POST'' ''guess'') = (resp, w', le)
      \<and> rp_status resp = 401 \<and> w' = wit_world)
   \<and> (\<exists>resp w' le. serve wit_scfg wit_svc 60 wit_hx wit_world (wit_rq ''OPTIONS'' []) = (resp, w', le)
      \<and> rp_status resp = 204 \<and> w' = wit_world)"
proof (intro conjI)
  let ?r = "wit_rq ''POST'' ''secret''" and ?w = "wit_world\<lparr>w_queue := []\<rparr>"
  obtain resp w' le where s: "serve wit_scfg wit_svc 60 wit_hx ?w ?r = (resp, w', le)" by (metis prod_cases3)
  have "rp_status resp = 202"
    using s wit_drive_name(1) wit_route wit_decoded
    by (auto simp: serve_def requestLogger_def cors_def ServeMux_def wit_rq_def wit_scfg_def wit_hx_def requireAPIToken_def
        apiTokenHeader_def ConstantTimeCompare_eq Create_def CreateJob_def wit_svc_def wit_cfg_def wit_repo_def wit_world_def
        validateRootFolderID_def validateExportType_def store_Create_def Let_def writeJSON_def)
  with server_guards [OF s] s show "\<exists>resp w' le. serve wit_scfg wit_svc 60 wit_hx ?w ?r = (resp, w', le)
      \<and> rp_status resp = 202 \<and> le_status le = 202
      \<and> w' = snd (CreateJob wit_svc 9 ''job2'' ?w
           \<lparr>req_RootFolderID = ''r'', req_ArchiveName = ''Q: x.zip'', req_ExportType = []\<rparr>)"
    using wit_decoded by (auto simp: wit_rq_def wit_hx_def)
next
  let ?r = "wit_rq ''POST'' ''guess''"
  obtain resp w' le where s: "serve wit_scfg wit_svc 60 wit_hx wit_world ?r = (resp, w', le)" by (metis prod_cases3)
  have "rp_status resp = 401"
    using s wit_route
    by (auto simp: serve_def requestLogger_def cors_def ServeMux_def wit_rq_def wit_scfg_def requireAPIToken_def
        apiTokenHeader_def ConstantTimeCompare_eq Let_def writeJSON_def)
  with server_guards [OF s] s show "\<exists>resp w' le. serve wit_scfg wit_svc 60 wit_hx wit_world ?r = (resp, w', le)
      \<and> rp_status resp = 401 \<and> w' = wit_world"
    by (auto simp: wit_rq_def wit_scfg_def)
next
  let ?r = "wit_rq ''OPTIONS'' []"
  obtain resp w' le where s: "serve wit_scfg wit_svc 60 wit_hx wit_world ?r = (resp, w', le)" by (metis prod_cases3)
  with server_guards [OF s] show "\<exists>resp w' le. serve wit_scfg wit_svc 60 wit_hx wit_world ?r = (resp, w', le)
      \<and> rp_status resp = 204 \<and> w' = wit_world"
    by (auto simp: wit_rq_def)
qed

end
