(* ===== verification/Steps.thy ===== *)
theory Steps
  imports Main
begin

text \<open>
  Programs and systems in steps, independent of the service: a goroutine as a partial step
  function that runs until it has no step, and a transition system with an invariant, an
  abstraction, or a rank. The locales hold what the worker, the cleanup and the whole service
  have in common; they are interpreted in \<open>WorkerPool\<close>, \<open>CleanupWorker\<close>, \<open>Lifecycle\<close>,
  \<open>Interference\<close>, \<open>Delivery\<close>, \<open>Progress\<close>, \<open>Drain\<close> and \<open>Turn\<close>.
\<close>

section \<open>A goroutine\<close>

text \<open>Steps until there is none: at most \<open>n\<close>, with \<^term>\<open>None\<close> when that is not enough.\<close>

fun run_for :: "('p \<Rightarrow> 'w \<Rightarrow> ('p \<times> 'w) option) \<Rightarrow> nat \<Rightarrow> 'p \<Rightarrow> 'w \<Rightarrow> ('p \<times> 'w) option" where
  "run_for step 0 pc w = (case step pc w of None \<Rightarrow> Some (pc, w) | Some _ \<Rightarrow> None)"
| "run_for step (Suc n) pc w =
     (case step pc w of None \<Rightarrow> Some (pc, w) | Some (pc', w') \<Rightarrow> run_for step n pc' w')"

definition run_ends :: "('p \<Rightarrow> 'w \<Rightarrow> ('p \<times> 'w) option) \<Rightarrow> 'p \<Rightarrow> 'w \<Rightarrow> 'p \<Rightarrow> 'w \<Rightarrow> bool" where
  "run_ends step pc w pc' w' \<longleftrightarrow> (\<exists>n. run_for step n pc w = Some (pc', w'))"

lemma run_ends_step:
  "step pc w = Some (pc1, w1) \<Longrightarrow> run_ends step pc w pc' w' \<longleftrightarrow> run_ends step pc1 w1 pc' w'"
proof -
  assume s: "step pc w = Some (pc1, w1)"
  have "run_for step n pc w = Some (pc', w') \<longleftrightarrow> (\<exists>k. n = Suc k \<and> run_for step k pc1 w1 = Some (pc', w'))" for n
    using s by (cases n) auto
  then show ?thesis by (auto simp: run_ends_def)
qed

lemma run_ends_stop: "step pc w = None \<Longrightarrow> run_ends step pc w pc' w' \<longleftrightarrow> pc' = pc \<and> w' = w"
proof -
  assume s: "step pc w = None"
  then have "run_for step n pc w = Some (pc, w)" for n by (cases n) auto
  then show ?thesis by (auto simp: run_ends_def)
qed

text \<open>A goroutine whose every step goes down in a well-founded order of its places.\<close>

locale goroutine =
  fixes step :: "'p \<Rightarrow> 'w \<Rightarrow> ('p \<times> 'w) option"
    and below :: "('p \<times> 'p) set"
  assumes below_wf: "wf below"
    and step_below: "step pc w = Some (pc', w') \<Longrightarrow> (pc', pc) \<in> below"
begin

lemma run_ends_exists: "\<exists>pc' w'. run_ends step pc w pc' w'"
proof (induction pc arbitrary: w rule: wf_induct_rule [OF below_wf])
  case (1 pc)
  show ?case
  proof (cases "step pc w")
    case None
    then show ?thesis by (auto simp: run_ends_stop)
  next
    case (Some p)
    then show ?thesis using 1 [OF step_below] by (cases p) (simp add: run_ends_step)
  qed
qed

lemma run_unique: "run_ends step pc w p1 w1 \<Longrightarrow> run_ends step pc w p2 w2 \<Longrightarrow> p1 = p2 \<and> w1 = w2"
proof (induction pc arbitrary: w rule: wf_induct_rule [OF below_wf])
  case (1 pc)
  show ?case
  proof (cases "step pc w")
    case None
    then show ?thesis using "1.prems" by (simp add: run_ends_stop)
  next
    case (Some p)
    then show ?thesis using "1.IH" [OF step_below] "1.prems" by (cases p) (simp add: run_ends_step)
  qed
qed

end

section \<open>A system\<close>

locale transition_system =
  fixes start :: "'s \<Rightarrow> bool"
    and step :: "'s \<Rightarrow> 's \<Rightarrow> bool"
    and inv :: "'s \<Rightarrow> bool"
  assumes start_inv: "start y \<Longrightarrow> inv y"
    and step_inv: "inv y \<Longrightarrow> step y y' \<Longrightarrow> inv y'"
begin

lemma steps_inv: "step\<^sup>*\<^sup>* y y' \<Longrightarrow> inv y \<Longrightarrow> inv y'"
  by (induction rule: rtranclp_induct) (simp_all add: step_inv)

lemma from_start_inv: "start y \<Longrightarrow> step\<^sup>*\<^sup>* y y' \<Longrightarrow> inv y'"
  using steps_inv start_inv by blast

lemma run_inv: "inv (f 0) \<Longrightarrow> (\<And>n. step (f n) (f (Suc n))) \<Longrightarrow> inv (f n)"
  by (induction n) (simp_all add: step_inv)

end

text \<open>The system implements another one: the abstraction of a step is a step.\<close>

locale simulation = transition_system start step inv
  for start :: "'s \<Rightarrow> bool" and step :: "'s \<Rightarrow> 's \<Rightarrow> bool" and inv :: "'s \<Rightarrow> bool" +
  fixes abs :: "'s \<Rightarrow> 'a"
    and astart :: "'a \<Rightarrow> bool"
    and astep :: "'a \<Rightarrow> 'a \<Rightarrow> bool"
  assumes abs_start: "start y \<Longrightarrow> astart (abs y)"
    and abs_step: "inv y \<Longrightarrow> step y y' \<Longrightarrow> astep (abs y) (abs y')"
begin

lemma steps_abs: "step\<^sup>*\<^sup>* y y' \<Longrightarrow> inv y \<Longrightarrow> astep\<^sup>*\<^sup>* (abs y) (abs y')"
proof (induction rule: rtranclp_induct)
  case (step y' y'')
  then have "astep (abs y') (abs y'')" using steps_inv abs_step by blast
  then show ?case using step by (meson rtranclp.rtrancl_into_rtrancl)
qed simp

lemma from_start_abs: "start y \<Longrightarrow> step\<^sup>*\<^sup>* y y' \<Longrightarrow> astart (abs y) \<and> astep\<^sup>*\<^sup>* (abs y) (abs y')"
  using abs_start steps_abs start_inv by blast

end

text \<open>Two levels of abstraction compose.\<close>

locale refinement_chain =
  lower: simulation start step inv abs astart astep + upper: simulation astart astep ainv top tstart tstep
  for start :: "'s \<Rightarrow> bool" and step :: "'s \<Rightarrow> 's \<Rightarrow> bool" and inv :: "'s \<Rightarrow> bool"
    and abs :: "'s \<Rightarrow> 'a" and astart :: "'a \<Rightarrow> bool" and astep :: "'a \<Rightarrow> 'a \<Rightarrow> bool" and ainv :: "'a \<Rightarrow> bool"
    and top :: "'a \<Rightarrow> 't" and tstart :: "'t \<Rightarrow> bool" and tstep :: "'t \<Rightarrow> 't \<Rightarrow> bool" +
  assumes inv_abs: "inv y \<Longrightarrow> ainv (abs y)"

sublocale refinement_chain \<subseteq> composed: simulation start step inv "\<lambda>y. top (abs y)" tstart tstep
  by unfold_locales (simp_all add: lower.abs_start upper.abs_start lower.abs_step upper.abs_step inv_abs)

text \<open>A system in which a rank goes down or stays: in an endless run it settles.\<close>

locale settling = transition_system start step inv
  for start :: "'s \<Rightarrow> bool" and step :: "'s \<Rightarrow> 's \<Rightarrow> bool" and inv :: "'s \<Rightarrow> bool" +
  fixes rank :: "'s \<Rightarrow> 'r"
    and below :: "('r \<times> 'r) set"
  assumes below_wf: "wf below"
    and step_rank: "inv y \<Longrightarrow> step y y' \<Longrightarrow> rank y' = rank y \<or> (rank y', rank y) \<in> below"
begin

lemma run_settles:
  assumes "inv (f 0)" "\<And>n. step (f n) (f (Suc n))"
  shows "\<exists>N. \<forall>n \<ge> N. rank (f n) = rank (f N)"
proof -
  have "rank (f 0) \<in> range (\<lambda>n. rank (f n))" by simp
  from wfE_min [OF below_wf this] obtain r where "r \<in> range (\<lambda>n. rank (f n))"
    "\<And>r'. (r', r) \<in> below \<Longrightarrow> r' \<notin> range (\<lambda>n. rank (f n))" by metis
  then obtain N where N: "\<And>n. (rank (f n), rank (f N)) \<notin> below" by auto
  have "rank (f (N + d)) = rank (f N)" for d
  proof (induction d)
    case (Suc d)
    have "inv (f (N + d))" using run_inv [of f] assms by blast
    from step_rank [OF this assms(2)] show ?case using Suc N [of "N + Suc d"] by auto
  qed simp
  then show ?thesis by (metis le_Suc_ex)
qed

end

end
