(* ===== verification/WorkerPool.thy ===== *)
theory WorkerPool
  imports ArchiveService Steps
begin

text \<open>
  A worker's run of \<open>ProcessJob\<close> (\<open>internal/service/archive.go\<close>), cut at every operation on a
  store and after every entry of the archive, so that other goroutines can come in between.
  Undisturbed, the steps end and are exactly \<^const>\<open>ProcessJob\<close>. No operation of the program
  reads a temporary file, so its bytes may arrive when \<open>Generate\<close> returns.
\<close>

section \<open>The steps of a job\<close>

datatype job_pc =
    WIdle
  | WTaken string
  | WMark Job
  | WManifest Job
  | WTotals Job ArchiveManifest
  | WCreate Job ArchiveManifest
  | WFiles Job "ArchiveFile list" "ArchiveFolder list" archive_out int int
  | WReport Job "ArchiveFile list" "ArchiveFolder list" archive_out int int
  | WDirs Job "ArchiveFolder list" archive_out
  | WGenerated Job "gen_error option"
  | WClose Job
  | WRename Job
  | WUndo Job
  | WIssue Job
  | WPersist Job
  | WStopped

text \<open>
  In the loops of \<open>Generate\<close> a worker holds the files and folders to come, the writer, and the bytes
  and files processed; at \<open>WReport\<close> it is about to call \<open>onProgress\<close> with these numbers.
\<close>

definition failed_job :: "time \<Rightarrow> Job \<Rightarrow> string \<Rightarrow> Job" where
  "failed_job now j safeMessage = j\<lparr>j_Status := JobStatusFailed, j_ErrorMessage := safeMessage, j_UpdatedAt := now\<rparr>"

definition returns :: "ArchiveService \<Rightarrow> Job \<Rightarrow> archive_out \<Rightarrow> gen_error option \<Rightarrow> World \<Rightarrow> job_pc \<times> World" where
  "returns s j out genErr w = (WGenerated j genErr, w\<lparr>w_files := local_Write (temp_dir s) (w_files w) (j_ID j) out\<rparr>)"

text \<open>No step: the worker waits, has stopped, is in a query that never ends, or has panicked.\<close>

fun job_step :: "ArchiveService \<Rightarrow> process_env \<Rightarrow> job_pc \<Rightarrow> World \<Rightarrow> (job_pc \<times> World) option" where
  "job_step s px (WTaken i) w =
     (case store_Get (w_jobs w) i of
        Inl e \<Rightarrow> Some (WIdle, w)
      | Inr j \<Rightarrow> Some (WMark (j\<lparr>j_StartedAt := px_started px, j_Status := JobStatusProcessing,
                              j_UpdatedAt := px_started px\<rparr>), w))"
| "job_step s px (WMark j) w =
     (case store_Update (w_jobs w) j of
        Inl e \<Rightarrow> Some (WIdle, w)
      | Inr jobs \<Rightarrow> Some (WManifest j, w\<lparr>w_jobs := jobs\<rparr>))"
| "job_step s px (WManifest j) w =
     (case buildManifest (sv_upper_lower s) (sv_repo s) j of
        None \<Rightarrow> None
      | Some (Inl e) \<Rightarrow>
          Some (WPersist (failed_job (px_fail px) j ''failed to read archive manifest from database''), w)
      | Some (Inr m) \<Rightarrow>
          Some (WTotals (j\<lparr>j_TotalFiles := mf_TotalFiles m, j_TotalBytes := mf_TotalBytes m,
                           j_UpdatedAt := px_totals px\<rparr>) m, w))"
| "job_step s px (WTotals j m) w =
     (case store_Update (w_jobs w) j of
        Inl e \<Rightarrow> Some (WIdle, w)
      | Inr jobs \<Rightarrow>
          Some (if cfg_MaxSizeBytes (sv_cfg s) < mf_TotalBytes m
                then WPersist (failed_job (px_fail px) j ''archive exceeds maximum allowed size'')
                else WCreate j m, w\<lparr>w_jobs := jobs\<rparr>))"
| "job_step s px (WCreate j m) w =
     (case local_Create (temp_dir s) (px_create px) (w_files w) (j_ID j) of
        Inl e \<Rightarrow> Some (WPersist (failed_job (px_fail px) j ''failed to generate archive''), w)
      | Inr fs \<Rightarrow> Some (WFiles j (mf_Files m) (mf_EmptyFolders m) (newArchiveWriter (mf_ExportType m)) 0 0, w\<lparr>w_files := fs\<rparr>))"
| "job_step s px (WFiles j (f # fs) ds aw b n) w =
     (case gen_file (NewGenerator (cfg_MaxSizeBytes (sv_cfg s))) (px_gen px) f aw b n of
        (aw', b', Some e) \<Rightarrow> Some (returns s j aw' (Some e) w)
      | (aw', b', None) \<Rightarrow> Some (WReport j fs ds aw' b' (n + 1), w))"
| "job_step s px (WFiles j [] ds aw b n) w = Some (WDirs j ds aw, w)"
| "job_step s px (WReport j fs ds aw b n) w =
     (let j' = j\<lparr>j_ProcessedFiles := n, j_ProcessedBytes := b, j_UpdatedAt := px_progress px n\<rparr>
      in Some (WFiles j' fs ds aw b n, persist j' w))"
| "job_step s px (WDirs j (d # ds) aw) w =
     (case gen_dir (px_gen px) d aw of
        (aw', Some e) \<Rightarrow> Some (returns s j aw' (Some e) w)
      | (aw', None) \<Rightarrow> Some (WDirs j ds aw', w))"
| "job_step s px (WDirs j [] aw) w =
     Some (case aw_Close (ge_fault (px_gen px)) aw of
             Inl e \<Rightarrow> returns s j aw (Some (CloseArchiveWriter e)) w
           | Inr aw' \<Rightarrow> returns s j aw' None w)"
| "job_step s px (WGenerated j (Some e)) w = (if slice_panic e then None else Some (WUndo j, w))"
| "job_step s px (WGenerated j None) w = Some (WClose j, w)"
| "job_step s px (WClose j) w = Some (case px_close px of Some e \<Rightarrow> WUndo j | None \<Rightarrow> WRename j, w)"
| "job_step s px (WRename j) w =
     (case local_RenameTemp (temp_dir s) (px_rename px) (w_files w) (j_ID j) of
        Inl e \<Rightarrow> Some (WUndo j, w)
      | Inr fs \<Rightarrow> Some (WIssue j, w\<lparr>w_files := fs\<rparr>))"
| "job_step s px (WUndo j) w =
     Some (WPersist (failed_job (px_fail px) j ''failed to generate archive''),
           w\<lparr>w_files := snd (local_Delete (temp_dir s) (px_delete px) (w_files w) (j_ID j))\<rparr>)"
| "job_step s px (WIssue j) w =
     (case token_Issue (w_tokens w) (px_rand px) (px_issue px) (j_ID j) (cfg_Expiry (sv_cfg s)) of
        Inl e \<Rightarrow> Some (WPersist (failed_job (px_fail px) j ''failed to issue download token''), w)
      | Inr (tok, tokens) \<Rightarrow>
          Some (WPersist (completed_job (cfg_Expiry (sv_cfg s)) (px_now px) tok j), w\<lparr>w_tokens := tokens\<rparr>))"
| "job_step s px (WPersist j) w = Some (WIdle, persist j w)"
| "job_step s px WIdle w = None"
| "job_step s px WStopped w = None"

section \<open>Undisturbed, the steps are \<open>ProcessJob\<close>\<close>

lemmas job_run_step = run_ends_step [of "job_step s px" for s px]

lemma run_persist: "run_ends (job_step s px) (WPersist j) w pc' w' \<longleftrightarrow> pc' = WIdle \<and> w' = persist j w"
  by (subst run_ends_step) (auto simp: run_ends_stop)

text \<open>\<open>Generate\<close> from any of its rounds on, and its steps.\<close>

definition generate_rest ::
  "Generator \<Rightarrow> gen_env \<Rightarrow> ArchiveFile list \<Rightarrow> ArchiveFolder list \<Rightarrow> archive_out \<Rightarrow> int \<Rightarrow> int
     \<Rightarrow> archive_out \<times> (int \<times> int) list \<times> gen_error option" where
  "generate_rest g env fs ds aw b n =
     (case gen_files g env fs aw b n [] of
        (aw, progress, Some e) \<Rightarrow> (aw, progress, Some e)
      | (aw, progress, None) \<Rightarrow>
          case gen_dirs env ds aw of
            (aw, Some e) \<Rightarrow> (aw, progress, Some e)
          | (aw, None) \<Rightarrow>
              case aw_Close (ge_fault env) aw of
                Inl e \<Rightarrow> (aw, progress, Some (CloseArchiveWriter e))
              | Inr aw' \<Rightarrow> (aw', progress, None))"

lemma gen_files_progress:
  "gen_files g env fs aw b n pr = (case gen_files g env fs aw b n [] of (aw', ps, e) \<Rightarrow> (aw', pr @ ps, e))"
proof (induction fs arbitrary: aw b n pr)
  case (Cons f fs)
  show ?case
    using Cons [of _ _ "n + 1" "pr @ [(n + 1, b')]" for b'] Cons [of _ _ "n + 1" "[(n + 1, b')]" for b']
    by (auto split: prod.splits option.splits)
qed simp

lemma generate_rest_Cons:
  "generate_rest g env (f # fs) ds aw b n =
     (case gen_file g env f aw b n of
        (aw', b', Some e) \<Rightarrow> (aw', [], Some e)
      | (aw', b', None) \<Rightarrow> (case generate_rest g env fs ds aw' b' (n + 1) of (out, ps, e) \<Rightarrow> (out, (n + 1, b') # ps, e)))"
  using gen_files_progress [of g env fs _ _ "n + 1" "[(n + 1, b')]" for b']
  by (auto simp: generate_rest_def split: prod.splits option.splits sum.splits)

lemma run_dirs:
  "run_ends (job_step s px) (WDirs j ds aw) w pc' w' \<longleftrightarrow>
     (case generate_rest g (px_gen px) [] ds aw b n of (out, ps, e) \<Rightarrow>
        (case returns s j out e w of (pc1, w1) \<Rightarrow> run_ends (job_step s px) pc1 w1 pc' w'))"
proof (induction ds arbitrary: aw)
  case Nil
  show ?case
    by (cases "aw_Close (ge_fault (px_gen px)) aw"; subst run_ends_step)
      (simp_all add: generate_rest_def returns_def)
next
  case (Cons d ds)
  obtain aw1 e where g: "gen_dir (px_gen px) d aw = (aw1, e)" by force
  show ?case
  proof (cases e)
    case None
    then have "job_step s px (WDirs j (d # ds) aw) w = Some (WDirs j ds aw1, w)" using g by simp
    then show ?thesis using Cons [of aw1] g None by (simp add: run_ends_step generate_rest_def)
  next
    case (Some x)
    then show ?thesis using g by (subst run_ends_step) (simp_all add: generate_rest_def returns_def)
  qed
qed

lemma run_files:
  "run_ends (job_step s px) (WFiles j fs ds aw b n) w pc' w' \<longleftrightarrow>
     (case generate_rest (NewGenerator (cfg_MaxSizeBytes (sv_cfg s))) (px_gen px) fs ds aw b n of (out, ps, e) \<Rightarrow>
        (case record_progress (px_progress px) ps (j, w) of (j1, w1) \<Rightarrow>
           (case returns s j1 out e w1 of (pc2, w2) \<Rightarrow> run_ends (job_step s px) pc2 w2 pc' w')))"
proof (induction fs arbitrary: j aw b n w)
  case Nil
  let ?g = "NewGenerator (cfg_MaxSizeBytes (sv_cfg s))"
  have "job_step s px (WFiles j [] ds aw b n) w = Some (WDirs j ds aw, w)" by simp
  moreover have "fst (snd (generate_rest ?g (px_gen px) [] ds aw b n)) = []"
    by (auto simp: generate_rest_def split: prod.splits option.splits sum.splits)
  ultimately show ?case using run_dirs [of s px j ds aw w pc' w' ?g b n] by (auto simp: run_ends_step split: prod.splits)
next
  case (Cons f fs)
  let ?g = "NewGenerator (cfg_MaxSizeBytes (sv_cfg s))"
  obtain aw1 b1 e where g: "gen_file ?g (px_gen px) f aw b n = (aw1, b1, e)" by (metis prod_cases3)
  show ?case
  proof (cases e)
    case None
    let ?j = "j\<lparr>j_ProcessedFiles := n + 1, j_ProcessedBytes := b1, j_UpdatedAt := px_progress px (n + 1)\<rparr>"
    have f: "job_step s px (WFiles j (f # fs) ds aw b n) w = Some (WReport j fs ds aw1 b1 (n + 1), w)" using g None by simp
    have p: "job_step s px (WReport j fs ds aw1 b1 (n + 1)) w = Some (WFiles ?j fs ds aw1 b1 (n + 1), persist ?j w)"
      by (simp add: Let_def)
    show ?thesis
      unfolding job_run_step [OF f] job_run_step [OF p] Cons [of ?j]
      by (simp add: generate_rest_Cons g None Let_def split: prod.split)
  next
    case (Some x)
    then show ?thesis using g by (subst run_ends_step) (simp_all add: generate_rest_Cons returns_def)
  qed
qed

lemma record_progress_files:
  "record_progress clock ps (j, w\<lparr>w_files := fs\<rparr>) = (case record_progress clock ps (j, w) of (j1, w1) \<Rightarrow> (j1, w1\<lparr>w_files := fs\<rparr>))"
proof (induction clock ps "(j, w)" arbitrary: j w rule: record_progress.induct)
  case (2 clock n b ps j w)
  have c: "w\<lparr>w_files := fs, w_jobs := jobs\<rparr> = w\<lparr>w_jobs := jobs, w_files := fs\<rparr>" for jobs by simp
  from 2 show ?case by (simp add: Let_def c)
qed simp

lemma record_progress_keeps: "record_progress clock ps (j, w) = (j1, w1) \<Longrightarrow> j_ID j1 = j_ID j \<and> w_files w1 = w_files w"
  by (induction clock ps "(j, w)" arbitrary: j w rule: record_progress.induct) (auto simp: Let_def)

text \<open>What the steps reach when \<open>ProcessJob\<close> does not return.\<close>

definition stuck_outcome :: "World run \<Rightarrow> job_pc \<Rightarrow> World \<Rightarrow> bool" where
  "stuck_outcome r pc w \<longleftrightarrow>
     (case r of
        Returned w' \<Rightarrow> pc = WIdle \<and> w = w'
      | Diverges \<Rightarrow> (\<exists>j. pc = WManifest j)
      | Panics \<Rightarrow> (\<exists>j e. pc = WGenerated j (Some e) \<and> slice_panic e))"

lemma run_undo:
  "run_ends (job_step s px) (WUndo j) w pc' w' \<longleftrightarrow> pc' = WIdle \<and>
     w' = failJob (px_fail px) j ''failed to generate archive''
       (w\<lparr>w_files := snd (local_Delete (temp_dir s) (px_delete px) (w_files w) (j_ID j))\<rparr>)"
  by (subst run_ends_step) (auto simp: run_persist failJob_def failed_job_def)

lemma run_issue: "run_ends (job_step s px) (WIssue j) w pc' w' \<longleftrightarrow> pc' = WIdle \<and> w' = completeJob s px j w"
proof (cases "token_Issue (w_tokens w) (px_rand px) (px_issue px) (j_ID j) (cfg_Expiry (sv_cfg s))")
  case (Inl e)
  then show ?thesis
    by (subst run_ends_step) (auto simp: run_persist completeJob_def failJob_def failed_job_def)
next
  case (Inr p)
  then show ?thesis
    by (cases p, subst run_ends_step) (auto simp: run_persist completeJob_def)
qed

text \<open>The end of a run, once the progress calls are made.\<close>

definition after_progress :: "ArchiveService \<Rightarrow> process_env \<Rightarrow> Job \<Rightarrow> World \<Rightarrow> gen_error option \<Rightarrow> World run" where
  "after_progress s px j w genErr =
     (let undone = Returned (failJob (px_fail px) j ''failed to generate archive''
            (w\<lparr>w_files := snd (local_Delete (temp_dir s) (px_delete px) (w_files w) (j_ID j))\<rparr>))
      in case genErr of
           Some e \<Rightarrow> if slice_panic e then Panics else undone
         | None \<Rightarrow>
             case px_close px of
               Some e \<Rightarrow> undone
             | None \<Rightarrow>
                 case local_RenameTemp (temp_dir s) (px_rename px) (w_files w) (j_ID j) of
                   Inl e \<Rightarrow> undone
                 | Inr fs \<Rightarrow> Returned (completeJob s px j (w\<lparr>w_files := fs\<rparr>)))"

lemma run_rename:
  assumes "run_ends (job_step s px) (WRename j) w pc' w'" "px_close px = None"
  shows "stuck_outcome (after_progress s px j w None) pc' w'"
proof (cases "local_RenameTemp (temp_dir s) (px_rename px) (w_files w) (j_ID j)")
  case (Inl e)
  then have "job_step s px (WRename j) w = Some (WUndo j, w)" by simp
  then show ?thesis using assms Inl by (simp add: run_ends_step run_undo stuck_outcome_def after_progress_def)
next
  case (Inr fs)
  then have "job_step s px (WRename j) w = Some (WIssue j, w\<lparr>w_files := fs\<rparr>)" by simp
  then show ?thesis using assms Inr by (simp add: run_ends_step run_issue stuck_outcome_def after_progress_def Let_def)
qed

lemma run_after_progress:
  assumes "run_ends (job_step s px) (WGenerated j e) w pc' w'"
  shows "stuck_outcome (after_progress s px j w e) pc' w'"
proof (cases e)
  case (Some ge)
  show ?thesis
  proof (cases "slice_panic ge")
    case True
    then have "job_step s px (WGenerated j e) w = None" using Some by simp
    then show ?thesis using assms Some True by (simp add: run_ends_stop stuck_outcome_def after_progress_def Let_def)
  next
    case False
    then have "job_step s px (WGenerated j e) w = Some (WUndo j, w)" using Some by simp
    then show ?thesis using assms Some False by (simp add: run_ends_step run_undo stuck_outcome_def after_progress_def)
  qed
next
  case None
  then have "job_step s px (WGenerated j e) w = Some (WClose j, w)" by simp
  then have r: "run_ends (job_step s px) (WClose j) w pc' w'" using assms by (simp only: run_ends_step)
  show ?thesis
  proof (cases "px_close px")
    case (Some ce)
    then have "job_step s px (WClose j) w = Some (WUndo j, w)" by simp
    then show ?thesis using r None Some by (simp add: run_ends_step run_undo stuck_outcome_def after_progress_def)
  next
    case cn: None
    then have "job_step s px (WClose j) w = Some (WRename j, w)" by simp
    then have "run_ends (job_step s px) (WRename j) w pc' w'" using r by (simp only: run_ends_step)
    from run_rename [OF this cn] show ?thesis using None by simp
  qed
qed

definition generate_outcome :: "ArchiveService \<Rightarrow> process_env \<Rightarrow> Job \<Rightarrow> ArchiveManifest \<Rightarrow> World \<Rightarrow> World run" where
  "generate_outcome s px j m w = (case generateArchive s px j m w of
     (j3, w3, Some e) \<Rightarrow> if is_panic e then Panics else Returned (failJob (px_fail px) j3 ''failed to generate archive'' w3)
   | (j3, w3, None) \<Rightarrow> Returned (completeJob s px j3 w3))"

lemma run_create:
  assumes r: "run_ends (job_step s px) (WCreate j m) w pc' w'"
  shows "stuck_outcome (generate_outcome s px j m w) pc' w'"
proof (cases "local_Create (temp_dir s) (px_create px) (w_files w) (j_ID j)")
  case (Inl e)
  with r show ?thesis
    by (subst (asm) run_ends_step)
      (auto simp: run_persist stuck_outcome_def generate_outcome_def generateArchive_def is_panic_def failJob_def failed_job_def)
next
  case (Inr fs)
  obtain out ps e where g: "Generate (NewGenerator (cfg_MaxSizeBytes (sv_cfg s))) (px_gen px) m = (out, ps, e)"
    by (metis prod_cases3)
  obtain j1 w1 where p: "record_progress (px_progress px) ps (j, w) = (j1, w1)" by force
  let ?w = "w1\<lparr>w_files := local_Write (temp_dir s) fs (j_ID j) out\<rparr>"
  have c: "job_step s px (WCreate j m) w =
      Some (WFiles j (mf_Files m) (mf_EmptyFolders m) (newArchiveWriter (mf_ExportType m)) 0 0, w\<lparr>w_files := fs\<rparr>)"
    using Inr by simp
  have k: "j_ID j1 = j_ID j" using record_progress_keeps [OF p] by simp
  have "run_ends (job_step s px) (WGenerated j1 e) ?w pc' w'"
    using r g p k unfolding job_run_step [OF c] run_files
    by (simp add: generate_rest_def Generate_def [symmetric] record_progress_files returns_def)
  note t = run_after_progress [OF this]
  have "generate_outcome s px j m w = after_progress s px j1 ?w e"
    using Inr g p k
    by (simp add: generate_outcome_def generateArchive_def after_progress_def is_panic_def record_progress_files Let_def
        split: option.split sum.split)
  with t show ?thesis by simp
qed

text \<open>What follows the marking of the record.\<close>

definition manifest_outcome :: "ArchiveService \<Rightarrow> process_env \<Rightarrow> Job \<Rightarrow> World \<Rightarrow> World run" where
  "manifest_outcome s px j w =
     (case buildManifest (sv_upper_lower s) (sv_repo s) j of
        None \<Rightarrow> Diverges
      | Some (Inl e) \<Rightarrow> Returned (failJob (px_fail px) j ''failed to read archive manifest from database'' w)
      | Some (Inr m) \<Rightarrow>
          let j2 = j\<lparr>j_TotalFiles := mf_TotalFiles m, j_TotalBytes := mf_TotalBytes m, j_UpdatedAt := px_totals px\<rparr>
          in case store_Update (w_jobs w) j2 of
               Inl e \<Rightarrow> Returned w
             | Inr jobs \<Rightarrow>
                 let w2 = w\<lparr>w_jobs := jobs\<rparr>
                 in if cfg_MaxSizeBytes (sv_cfg s) < mf_TotalBytes m
                    then Returned (failJob (px_fail px) j2 ''archive exceeds maximum allowed size'' w2)
                    else generate_outcome s px j2 m w2)"

lemma run_totals:
  assumes "run_ends (job_step s px) (WTotals j m) w pc' w'"
  shows "stuck_outcome (case store_Update (w_jobs w) j of
       Inl e \<Rightarrow> Returned w
     | Inr jobs \<Rightarrow> if cfg_MaxSizeBytes (sv_cfg s) < mf_TotalBytes m
         then Returned (failJob (px_fail px) j ''archive exceeds maximum allowed size'' (w\<lparr>w_jobs := jobs\<rparr>))
         else generate_outcome s px j m (w\<lparr>w_jobs := jobs\<rparr>)) pc' w'"
proof (cases "store_Update (w_jobs w) j")
  case (Inl e)
  then show ?thesis using assms by (simp add: run_ends_step run_ends_stop stuck_outcome_def)
next
  case (Inr jobs)
  show ?thesis
  proof (cases "cfg_MaxSizeBytes (sv_cfg s) < mf_TotalBytes m")
    case True
    then show ?thesis
      using assms Inr by (simp add: run_ends_step run_persist stuck_outcome_def failJob_def failed_job_def)
  next
    case False
    then have "job_step s px (WTotals j m) w = Some (WCreate j m, w\<lparr>w_jobs := jobs\<rparr>)" using Inr by simp
    then have "run_ends (job_step s px) (WCreate j m) (w\<lparr>w_jobs := jobs\<rparr>) pc' w'" using assms by (simp only: run_ends_step)
    from run_create [OF this] show ?thesis using Inr False by simp
  qed
qed

lemma run_manifest:
  assumes "run_ends (job_step s px) (WManifest j) w pc' w'"
  shows "stuck_outcome (manifest_outcome s px j w) pc' w'"
proof (cases "buildManifest (sv_upper_lower s) (sv_repo s) j")
  case None
  then show ?thesis using assms by (simp add: run_ends_stop stuck_outcome_def manifest_outcome_def)
next
  case (Some res)
  show ?thesis
  proof (cases res)
    case (Inl e)
    then show ?thesis
      using assms Some by (simp add: run_ends_step run_persist stuck_outcome_def manifest_outcome_def failJob_def failed_job_def)
  next
    case (Inr m)
    let ?j2 = "j\<lparr>j_TotalFiles := mf_TotalFiles m, j_TotalBytes := mf_TotalBytes m, j_UpdatedAt := px_totals px\<rparr>"
    have "job_step s px (WManifest j) w = Some (WTotals ?j2 m, w)" using Some Inr by simp
    then have "run_ends (job_step s px) (WTotals ?j2 m) w pc' w'" using assms by (simp only: run_ends_step)
    from run_totals [OF this] show ?thesis using Some Inr by (auto simp: manifest_outcome_def Let_def split: sum.splits)
  qed
qed

lemma ProcessJob_outcome:
  "ProcessJob s px w i =
     (case store_Get (w_jobs w) i of
        Inl e \<Rightarrow> Returned w
      | Inr j \<Rightarrow>
          let j1 = j\<lparr>j_StartedAt := px_started px, j_Status := JobStatusProcessing, j_UpdatedAt := px_started px\<rparr>
          in case store_Update (w_jobs w) j1 of
               Inl e \<Rightarrow> Returned w
             | Inr jobs \<Rightarrow> manifest_outcome s px j1 (w\<lparr>w_jobs := jobs\<rparr>))"
  by (simp add: ProcessJob_def manifest_outcome_def generate_outcome_def Let_def split: sum.split option.split)

lemma run_taken:
  assumes "run_ends (job_step s px) (WTaken i) w pc' w'"
  shows "stuck_outcome (ProcessJob s px w i) pc' w'"
proof (cases "store_Get (w_jobs w) i")
  case (Inl e)
  then have "job_step s px (WTaken i) w = Some (WIdle, w)" by simp
  then show ?thesis using assms Inl by (simp add: run_ends_step run_ends_stop stuck_outcome_def ProcessJob_def)
next
  case g: (Inr j)
  let ?j = "j\<lparr>j_StartedAt := px_started px, j_Status := JobStatusProcessing, j_UpdatedAt := px_started px\<rparr>"
  have t: "job_step s px (WTaken i) w = Some (WMark ?j, w)" using g by simp
  have r: "run_ends (job_step s px) (WMark ?j) w pc' w'" using assms by (simp only: job_run_step [OF t])
  show ?thesis
  proof (cases "store_Update (w_jobs w) ?j")
    case (Inl e)
    then have "job_step s px (WMark ?j) w = Some (WIdle, w)" by simp
    then show ?thesis using r g Inl by (simp add: run_ends_step run_ends_stop stuck_outcome_def ProcessJob_def Let_def)
  next
    case (Inr jobs)
    then have m: "job_step s px (WMark ?j) w = Some (WManifest ?j, w\<lparr>w_jobs := jobs\<rparr>)" by simp
    have "run_ends (job_step s px) (WManifest ?j) (w\<lparr>w_jobs := jobs\<rparr>) pc' w'" using r by (simp only: job_run_step [OF m])
    from run_manifest [OF this] show ?thesis using g Inr by (simp add: ProcessJob_outcome Let_def)
  qed
qed

text \<open>The steps end, since each one moves the worker on or shortens what is left to write.\<close>

fun phase :: "job_pc \<Rightarrow> nat" where
  "phase (WTaken i) = 13" | "phase (WMark j) = 12" | "phase (WManifest j) = 11" | "phase (WTotals j m) = 10"
| "phase (WCreate j m) = 9" | "phase (WFiles j fs ds aw b n) = 8" | "phase (WReport j fs ds aw b n) = 8"
| "phase (WDirs j ds aw) = 7" | "phase (WGenerated j e) = 6" | "phase (WClose j) = 5"
| "phase (WRename j) = 4" | "phase (WUndo j) = 3" | "phase (WIssue j) = 3" | "phase (WPersist j) = 2"
| "phase WIdle = 1" | "phase WStopped = 0"

fun calls_left :: "job_pc \<Rightarrow> nat" where
  "calls_left (WFiles j fs ds aw b n) = 2 * length fs"
| "calls_left (WReport j fs ds aw b n) = 2 * length fs + 1"
| "calls_left (WDirs j ds aw) = length ds"
| "calls_left _ = 0"

lemma job_step_decreases: "job_step s px pc w = Some (pc', w') \<Longrightarrow> (pc', pc) \<in> measures [phase, calls_left]"
  by (cases "(s, px, pc, w)" rule: job_step.cases)
    (auto simp: Let_def returns_def split: sum.splits option.splits if_splits prod.splits)

interpretation job: goroutine "job_step s px" "measures [phase, calls_left]"
  by unfold_locales (simp_all only: wf_measures job_step_decreases)

text \<open>
  C11. The small steps of a worker implement \<open>ProcessJob\<close>: run without interference they end, after
  finitely many steps, in the outcome of \<open>ProcessJob\<close>: idle with the same state when it returns,
  inside the manifest query when that never ends, and at the panic when the TAR writer panics.
\<close>

theorem job_steps_implement_ProcessJob:
  "\<exists>n pc' w'. run_for (job_step s px) n (WTaken i) w = Some (pc', w') \<and> stuck_outcome (ProcessJob s px w i) pc' w'"
proof -
  obtain pc' w' where r: "run_ends (job_step s px) (WTaken i) w pc' w'" using job.run_ends_exists by blast
  then obtain n where "run_for (job_step s px) n (WTaken i) w = Some (pc', w')" by (auto simp: run_ends_def)
  with run_taken [OF r] show ?thesis by blast
qed

end
