(* ===== verification/CleanupWorker.thy ===== *)
theory CleanupWorker
  imports ArchiveService Steps
begin

text \<open>
  \<open>internal/worker/cleanup.go\<close>: the sweep that removes expired jobs and files without a job. The
  sweep first takes a snapshot of the job records and lists the files afterwards; \<open>sweep_from\<close>
  is everything after the snapshot, so that other goroutines may have moved the world on
  between the two. Faults of the file system are given per job id, for the removal of an
  expired job and for that of an orphan. \<open>sweep_step\<close> is the same sweep cut at every operation
  on a store; undisturbed, its steps end and are exactly \<open>sweep\<close>.
\<close>

section \<open>The sweep\<close>

record Cleanup =
  cl_dir :: string
  cl_ttlFallback :: duration

definition NewCleanup :: "string \<Rightarrow> duration \<Rightarrow> Cleanup" where
  "NewCleanup dir ttlFallback = \<lparr>cl_dir = dir, cl_ttlFallback = ttlFallback\<rparr>"

record sweep_env =
  sx_now :: time
  sx_remove :: "string \<Rightarrow> os_error option \<times> os_error option"
  sx_list :: "os_error option"
  sx_orphan :: "string \<Rightarrow> os_error option \<times> os_error option"

definition isExpired :: "Cleanup \<Rightarrow> Job \<Rightarrow> time \<Rightarrow> bool" where
  "isExpired c j now =
     (let deadline = (if j_ExpiresAt j = 0 then j_CreatedAt j + cl_ttlFallback c else j_ExpiresAt j)
      in deadline < now)"

definition removeJob :: "Cleanup \<Rightarrow> sweep_env \<Rightarrow> string \<Rightarrow> World \<Rightarrow> World" where
  "removeJob c sx jobID w =
     w\<lparr>w_files := snd (local_Delete (cl_dir c) (sx_remove sx jobID) (w_files w) jobID),
       w_tokens := token_Revoke (w_tokens w) jobID,
       w_jobs := store_Delete (w_jobs w) jobID\<rparr>"

fun expire_jobs :: "Cleanup \<Rightarrow> sweep_env \<Rightarrow> Job list \<Rightarrow> string list \<Rightarrow> World \<Rightarrow> string list \<times> World" where
  "expire_jobs c sx [] tracked w = (tracked, w)"
| "expire_jobs c sx (j # js) tracked w =
     (if isExpired c j (sx_now sx) then expire_jobs c sx js tracked (removeJob c sx (j_ID j) w)
      else expire_jobs c sx js (tracked @ [j_ID j]) w)"

fun remove_orphans :: "Cleanup \<Rightarrow> sweep_env \<Rightarrow> string list \<Rightarrow> string list \<Rightarrow> World \<Rightarrow> World" where
  "remove_orphans c sx tracked [] w = w"
| "remove_orphans c sx tracked (i # is) w =
     (if i \<in> set tracked then remove_orphans c sx tracked is w
      else remove_orphans c sx tracked is
             (w\<lparr>w_files := snd (local_Delete (cl_dir c) (sx_orphan sx i) (w_files w) i)\<rparr>))"

definition sweep_from :: "Cleanup \<Rightarrow> sweep_env \<Rightarrow> Job list \<Rightarrow> World \<Rightarrow> World" where
  "sweep_from c sx jobs w =
     (case expire_jobs c sx jobs [] w of (tracked, w1) \<Rightarrow>
        case local_ListJobIDs (cl_dir c) (sx_list sx) (w_files w1) of
          Inl e \<Rightarrow> w1
        | Inr ids \<Rightarrow> remove_orphans c sx tracked ids w1)"

definition sweep :: "Cleanup \<Rightarrow> sweep_env \<Rightarrow> World \<Rightarrow> World" where
  "sweep c sx w = sweep_from c sx (store_List (w_jobs w)) w"

text \<open>\<open>Run\<close>: a sweep at the start and one per tick, until the context is done.\<close>

fun cleanup_Run :: "Cleanup \<Rightarrow> sweep_env list \<Rightarrow> World \<Rightarrow> World" where
  "cleanup_Run c [] w = w"
| "cleanup_Run c (sx # sxs) w = cleanup_Run c sxs (sweep c sx w)"

section \<open>The sweep in steps\<close>

text \<open>
  Where the cleanup goroutine is: waiting for a tick, about to list the records, at the next
  record of its snapshot (with the time of the sweep and the ids it keeps), about to revoke the
  tokens or to delete the record of an expired job, at the next file of its listing, or stopped.
\<close>

datatype sweep_pc =
    SwIdle
  | SwSnapshot
  | SwExpire time "Job list" "string list"
  | SwRevoke time string "Job list" "string list"
  | SwForget time string "Job list" "string list"
  | SwOrphans "string list" "string list"
  | SwStopped

fun sweep_step :: "Cleanup \<Rightarrow> sweep_env \<Rightarrow> sweep_pc \<Rightarrow> World \<Rightarrow> (sweep_pc \<times> World) option" where
  "sweep_step c sx SwSnapshot w = Some (SwExpire (sx_now sx) (store_List (w_jobs w)) [], w)"
| "sweep_step c sx (SwExpire now (j # js) tracked) w =
     (if isExpired c j now
      then Some (SwRevoke now (j_ID j) js tracked,
                 w\<lparr>w_files := snd (local_Delete (cl_dir c) (sx_remove sx (j_ID j)) (w_files w) (j_ID j))\<rparr>)
      else Some (SwExpire now js (tracked @ [j_ID j]), w))"
| "sweep_step c sx (SwRevoke now i js tracked) w =
     Some (SwForget now i js tracked, w\<lparr>w_tokens := token_Revoke (w_tokens w) i\<rparr>)"
| "sweep_step c sx (SwForget now i js tracked) w =
     Some (SwExpire now js tracked, w\<lparr>w_jobs := store_Delete (w_jobs w) i\<rparr>)"
| "sweep_step c sx (SwExpire now [] tracked) w =
     (case local_ListJobIDs (cl_dir c) (sx_list sx) (w_files w) of
        Inl e \<Rightarrow> Some (SwIdle, w)
      | Inr ids \<Rightarrow> Some (SwOrphans tracked ids, w))"
| "sweep_step c sx (SwOrphans tracked (i # is)) w =
     Some (SwOrphans tracked is,
           if i \<in> set tracked then w
           else w\<lparr>w_files := snd (local_Delete (cl_dir c) (sx_orphan sx i) (w_files w) i)\<rparr>)"
| "sweep_step c sx (SwOrphans tracked []) w = Some (SwIdle, w)"
| "sweep_step c sx SwIdle w = None"
| "sweep_step c sx SwStopped w = None"

text \<open>Each step moves the sweep on to a later stage or shortens its lists.\<close>

fun stage :: "sweep_pc \<Rightarrow> nat" where
  "stage SwSnapshot = 3" | "stage (SwExpire now js tracked) = 2" | "stage (SwRevoke now i js tracked) = 2"
| "stage (SwForget now i js tracked) = 2" | "stage (SwOrphans tracked is) = 1" | "stage SwIdle = 0" | "stage SwStopped = 0"

fun items_left :: "sweep_pc \<Rightarrow> nat" where
  "items_left (SwExpire now js tracked) = 3 * length js"
| "items_left (SwRevoke now i js tracked) = 3 * length js + 2"
| "items_left (SwForget now i js tracked) = 3 * length js + 1"
| "items_left (SwOrphans tracked is) = length is"
| "items_left _ = 0"

lemma sweep_step_decreases:
  "sweep_step c sx pc w = Some (pc', w') \<Longrightarrow> (pc', pc) \<in> measures [stage, items_left]"
  by (cases "(c, sx, pc, w)" rule: sweep_step.cases) (auto split: if_splits sum.splits)

interpretation cleanup: goroutine "sweep_step c sx" "measures [stage, items_left]"
  by unfold_locales (simp_all only: wf_measures sweep_step_decreases)

text \<open>The three steps of a removal are \<open>removeJob\<close>, and the stages are the loops of \<open>sweep\<close>.\<close>

lemma run_remove:
  assumes "isExpired c j now"
  shows "run_ends (sweep_step c sx) (SwExpire now (j # js) tracked) w pc' w'
    \<longleftrightarrow> run_ends (sweep_step c sx) (SwExpire now js tracked) (removeJob c sx (j_ID j) w) pc' w'"
  using assms by (simp add: run_ends_step removeJob_def)

lemma run_orphans:
  "run_ends (sweep_step c sx) (SwOrphans tracked is) w pc' w' \<longleftrightarrow> pc' = SwIdle \<and> w' = remove_orphans c sx tracked is w"
  by (induction "is" arbitrary: w) (simp_all add: run_ends_step run_ends_stop)

lemma run_list:
  "run_ends (sweep_step c sx) (SwExpire now [] tracked) w pc' w' \<longleftrightarrow> pc' = SwIdle \<and>
     w' = (case local_ListJobIDs (cl_dir c) (sx_list sx) (w_files w) of
             Inl e \<Rightarrow> w | Inr ids \<Rightarrow> remove_orphans c sx tracked ids w)"
  by (cases "local_ListJobIDs (cl_dir c) (sx_list sx) (w_files w)") (simp_all add: run_ends_step run_ends_stop run_orphans)

lemma run_expire:
  "run_ends (sweep_step c sx) (SwExpire (sx_now sx) js tracked) w pc' w' \<longleftrightarrow>
     (case expire_jobs c sx js tracked w of (tracked1, w1) \<Rightarrow>
        run_ends (sweep_step c sx) (SwExpire (sx_now sx) [] tracked1) w1 pc' w')"
proof (induction js arbitrary: tracked w)
  case (Cons j js)
  show ?case
  proof (cases "isExpired c j (sx_now sx)")
    case True
    then show ?thesis using Cons by (simp add: run_remove)
  next
    case False
    then show ?thesis using Cons by (simp add: run_ends_step)
  qed
qed simp

lemma run_sweep: "run_ends (sweep_step c sx) SwSnapshot w SwIdle (sweep c sx w)"
  by (simp add: run_ends_step run_expire run_list sweep_def sweep_from_def split: prod.split)

section \<open>What a sweep does\<close>

definition sx_quiet :: "sweep_env \<Rightarrow> bool" where
  "sx_quiet sx \<longleftrightarrow> sx_remove sx = (\<lambda>_. (None, None)) \<and> sx_list sx = None \<and> sx_orphan sx = (\<lambda>_. (None, None))"

definition live_ids :: "Cleanup \<Rightarrow> sweep_env \<Rightarrow> Job list \<Rightarrow> string set" where
  "live_ids c sx js = {j_ID j | j. j \<in> set js \<and> \<not> isExpired c j (sx_now sx)}"

definition dead_ids :: "Cleanup \<Rightarrow> sweep_env \<Rightarrow> Job list \<Rightarrow> string set" where
  "dead_ids c sx js = {j_ID j | j. j \<in> set js \<and> isExpired c j (sx_now sx)}"

text \<open>Removing a set of ids from the three stores.\<close>

definition files_removed :: "string \<Rightarrow> string set \<Rightarrow> archive_out filesystem \<Rightarrow> archive_out filesystem \<Rightarrow> bool" where
  "files_removed dir D fs fs' \<longleftrightarrow> storage_wf dir fs' \<and> (\<forall>k. valid_id k \<longrightarrow>
     temp_of dir fs' k = (if k \<in> D then None else temp_of dir fs k)
     \<and> final_of dir fs' k = (if k \<in> D then None else final_of dir fs k))"

definition state_removed :: "string set \<Rightarrow> World \<Rightarrow> World \<Rightarrow> bool" where
  "state_removed D w w' \<longleftrightarrow> store_wf (w_jobs w')
     \<and> (\<forall>k. store_Get (w_jobs w') k = (if k \<in> D then Err ErrNotFound else store_Get (w_jobs w) k))
     \<and> (\<forall>t k tok. token_Validate (w_tokens w') t k tok
          = (if k \<in> D then Err ErrInvalidToken else token_Validate (w_tokens w) t k tok))
     \<and> w_queue w' = w_queue w \<and> w_accepting w' = w_accepting w"

lemma delete_removed:
  assumes "storage_wf dir fs" "valid_id i"
  shows "files_removed dir {i} fs (snd (local_Delete dir (None, None) fs i))"
proof -
  let ?fs = "snd (local_Delete dir (None, None) fs i)"
  have d: "local_Delete dir (None, None) fs i = (None, ?fs)"
    using loc.remove_none [OF assms] by (metis prod.collapse)
  have s: "temp_of dir ?fs i = None \<and> final_of dir ?fs i = None"
    by (rule loc.remove_self [OF assms d]) simp_all
  have "storage_wf dir ?fs" by (rule loc.wf_remove [OF assms])
  then show ?thesis
    unfolding files_removed_def
  proof (intro conjI allI impI)
    fix k assume k: "valid_id k"
    show "temp_of dir ?fs k = (if k \<in> {i} then None else temp_of dir fs k)"
      using s loc.remove_other [OF assms k, of "(None, None)"] by (cases "k = i") simp_all
    show "final_of dir ?fs k = (if k \<in> {i} then None else final_of dir fs k)"
      using s loc.remove_other [OF assms k, of "(None, None)"] by (cases "k = i") simp_all
  qed
qed

lemma files_removed_trans:
  "files_removed dir D fs fs1 \<Longrightarrow> files_removed dir E fs1 fs2 \<Longrightarrow> files_removed dir (D \<union> E) fs fs2"
  by (simp add: files_removed_def)

lemma state_removed_trans:
  "state_removed D w w1 \<Longrightarrow> state_removed E w1 w2 \<Longrightarrow> state_removed (D \<union> E) w w2"
  by (simp add: state_removed_def)

lemma removeJob_state:
  assumes "store_wf (w_jobs w)"
  shows "state_removed {i} w (removeJob c sx i w)"
  using mem.wf_remove [OF assms]
  by (simp add: state_removed_def removeJob_def mem.get_remove [OF assms] tok.revoke_same tok.revoke_other)

lemma expire_jobs_state:
  assumes "store_wf (w_jobs w)" "expire_jobs c sx js tr w = (tr', w')"
  shows "set tr' = set tr \<union> live_ids c sx js \<and> state_removed (dead_ids c sx js) w w'"
  using assms
proof (induction js arbitrary: tr w)
  case Nil
  then show ?case by (simp add: state_removed_def live_ids_def dead_ids_def)
next
  case (Cons j js)
  show ?case
  proof (cases "isExpired c j (sx_now sx)")
    case True
    note r = removeJob_state [OF Cons.prems(1), of "j_ID j" c sx]
    have "set tr' = set tr \<union> live_ids c sx js \<and> state_removed (dead_ids c sx js) (removeJob c sx (j_ID j) w) w'"
      using Cons.IH [of "removeJob c sx (j_ID j) w" tr] r Cons.prems(2) True by (simp add: state_removed_def)
    moreover have "live_ids c sx (j # js) = live_ids c sx js" "dead_ids c sx (j # js) = {j_ID j} \<union> dead_ids c sx js"
      using True by (auto simp: live_ids_def dead_ids_def)
    ultimately show ?thesis using state_removed_trans [OF r] by simp
  next
    case False
    have "live_ids c sx (j # js) = insert (j_ID j) (live_ids c sx js)" "dead_ids c sx (j # js) = dead_ids c sx js"
      using False by (auto simp: live_ids_def dead_ids_def)
    then show ?thesis using Cons.IH [of w "tr @ [j_ID j]"] Cons.prems False by simp
  qed
qed

lemma expire_jobs_files:
  assumes "sx_quiet sx" "storage_wf (cl_dir c) (w_files w)" "\<forall>j \<in> set js. valid_id (j_ID j)"
    "expire_jobs c sx js tr w = (tr', w')"
  shows "files_removed (cl_dir c) (dead_ids c sx js) (w_files w) (w_files w')"
  using assms(2-4)
proof (induction js arbitrary: tr w)
  case Nil
  then show ?case by (simp add: files_removed_def dead_ids_def)
next
  case (Cons j js)
  show ?case
  proof (cases "isExpired c j (sx_now sx)")
    case True
    have r: "files_removed (cl_dir c) {j_ID j} (w_files w) (w_files (removeJob c sx (j_ID j) w))"
      using delete_removed [OF Cons.prems(1), of "j_ID j"] Cons.prems(2) assms(1)
      by (simp add: removeJob_def sx_quiet_def)
    have "files_removed (cl_dir c) (dead_ids c sx js) (w_files (removeJob c sx (j_ID j) w)) (w_files w')"
      by (rule Cons.IH [of _ tr]) (use r Cons.prems True in \<open>simp_all add: files_removed_def\<close>)
    moreover have "dead_ids c sx (j # js) = {j_ID j} \<union> dead_ids c sx js" using True by (auto simp: dead_ids_def)
    ultimately show ?thesis using files_removed_trans [OF r] by simp
  next
    case False
    have "dead_ids c sx (j # js) = dead_ids c sx js" using False by (auto simp: dead_ids_def)
    then show ?thesis using Cons.IH [of w "tr @ [j_ID j]"] Cons.prems False by simp
  qed
qed

lemma remove_orphans_frame:
  "w_jobs (remove_orphans c sx tr is w) = w_jobs w" "w_tokens (remove_orphans c sx tr is w) = w_tokens w"
  "w_queue (remove_orphans c sx tr is w) = w_queue w" "w_accepting (remove_orphans c sx tr is w) = w_accepting w"
  by (induction "is" arbitrary: w) simp_all

lemma remove_orphans_files:
  assumes "sx_quiet sx" "storage_wf (cl_dir c) (w_files w)" "\<forall>i \<in> set is. valid_id i"
  shows "files_removed (cl_dir c) (set is - set tr) (w_files w) (w_files (remove_orphans c sx tr is w))"
  using assms(2,3)
proof (induction "is" arbitrary: w)
  case Nil
  then show ?case by (simp add: files_removed_def)
next
  case (Cons i "is")
  show ?case
  proof (cases "i \<in> set tr")
    case True
    then have "set (i # is) - set tr = set is - set tr" by auto
    then show ?thesis using Cons True by simp
  next
    case False
    let ?fs = "snd (local_Delete (cl_dir c) (sx_orphan sx i) (w_files w) i)"
    have r: "files_removed (cl_dir c) {i} (w_files w) ?fs"
      using delete_removed [OF Cons.prems(1), of i] Cons.prems(2) assms(1) by (simp add: sx_quiet_def)
    have "files_removed (cl_dir c) (set is - set tr) (w_files (w\<lparr>w_files := ?fs\<rparr>))
        (w_files (remove_orphans c sx tr is (w\<lparr>w_files := ?fs\<rparr>)))"
      by (rule Cons.IH) (use r Cons.prems in \<open>simp_all add: files_removed_def\<close>)
    moreover have "set (i # is) - set tr = {i} \<union> (set is - set tr)" using False by auto
    ultimately show ?thesis using files_removed_trans [OF r] False by simp
  qed
qed

text \<open>A sweep with an arbitrary snapshot: records and tokens of its expired jobs go, and so does every file of a job that is not live in it.\<close>

lemma sweep_from_quiet:
  assumes q: "sx_quiet sx" and wf: "storage_wf (cl_dir c) (w_files w)" "store_wf (w_jobs w)"
    and v: "\<forall>j \<in> set js. valid_id (j_ID j)"
  shows "state_removed (dead_ids c sx js) w (sweep_from c sx js w)"
    and "files_removed (cl_dir c) (- live_ids c sx js \<union> dead_ids c sx js) (w_files w) (w_files (sweep_from c sx js w))"
proof -
  let ?d = "cl_dir c"
  obtain tr w1 where e: "expire_jobs c sx js [] w = (tr, w1)" by force
  note st = expire_jobs_state [OF wf(2) e] and fl = expire_jobs_files [OF q wf(1) v e]
  have tr: "set tr = live_ids c sx js" using st by auto
  have wf1: "storage_wf ?d (w_files w1)" using fl by (simp add: files_removed_def)
  obtain ids where ids: "local_ListJobIDs ?d None (w_files w1) = Ok ids" using loc.list_none [OF wf1] by blast
  note lv = loc.list_views [OF wf1 ids]
  have s: "sweep_from c sx js w = remove_orphans c sx tr ids w1"
    using e ids q by (simp add: sweep_from_def sx_quiet_def)
  show "state_removed (dead_ids c sx js) w (sweep_from c sx js w)"
    using st unfolding s by (simp add: state_removed_def remove_orphans_frame)
  have "files_removed ?d (set ids - set tr) (w_files w1) (w_files (remove_orphans c sx tr ids w1))"
    using lv by (intro remove_orphans_files [OF q wf1]) blast
  from files_removed_trans [OF fl this]
  have fr: "files_removed ?d (dead_ids c sx js \<union> (set ids - live_ids c sx js)) (w_files w) (w_files (sweep_from c sx js w))"
    unfolding s tr .
  have gone: "temp_of ?d (w_files w) k = None \<and> final_of ?d (w_files w) k = None"
    if "valid_id k" "k \<notin> set ids" "k \<notin> dead_ids c sx js" for k
    using lv [of k] that fl by (auto simp: files_removed_def)
  show "files_removed ?d (- live_ids c sx js \<union> dead_ids c sx js) (w_files w) (w_files (sweep_from c sx js w))"
    unfolding files_removed_def
  proof (intro conjI allI impI)
    show "storage_wf ?d (w_files (sweep_from c sx js w))" using fr by (simp add: files_removed_def)
    fix k assume k: "valid_id k"
    note f = fr [unfolded files_removed_def, THEN conjunct2, rule_format, OF k] and g = gone [OF k]
    show "temp_of ?d (w_files (sweep_from c sx js w)) k
        = (if k \<in> - live_ids c sx js \<union> dead_ids c sx js then None else temp_of ?d (w_files w) k)"
      using f g by (cases "k \<in> set ids"; cases "k \<in> dead_ids c sx js"; cases "k \<in> live_ids c sx js") simp_all
    show "final_of ?d (w_files (sweep_from c sx js w)) k
        = (if k \<in> - live_ids c sx js \<union> dead_ids c sx js then None else final_of ?d (w_files w) k)"
      using f g by (cases "k \<in> set ids"; cases "k \<in> dead_ids c sx js"; cases "k \<in> live_ids c sx js") simp_all
  qed
qed

lemma list_ids:
  assumes "world_wf s w"
  shows "live_ids c sx (store_List (w_jobs w)) = {i. \<exists>j. store_Get (w_jobs w) i = Ok j \<and> \<not> isExpired c j (sx_now sx)}"
    "dead_ids c sx (store_List (w_jobs w)) = {i. \<exists>j. store_Get (w_jobs w) i = Ok j \<and> isExpired c j (sx_now sx)}"
    "\<forall>j \<in> set (store_List (w_jobs w)). valid_id (j_ID j)"
proof -
  note W = world_wfD [OF assms]
  have m: "j \<in> set (store_List (w_jobs w)) \<longleftrightarrow> store_Get (w_jobs w) (j_ID j) = Ok j" for j
    by (rule mem.jobs_of_iff [OF W(1)])
  show "live_ids c sx (store_List (w_jobs w)) = {i. \<exists>j. store_Get (w_jobs w) i = Ok j \<and> \<not> isExpired c j (sx_now sx)}"
    "dead_ids c sx (store_List (w_jobs w)) = {i. \<exists>j. store_Get (w_jobs w) i = Ok j \<and> isExpired c j (sx_now sx)}"
    using m mem.get_id [OF W(1)] by (auto simp: live_ids_def dead_ids_def)
  show "\<forall>j \<in> set (store_List (w_jobs w)). valid_id (j_ID j)" using m W(4) by blast
qed

lemma valid_keys_iff:
  "store_wf jobs \<Longrightarrow> list_all (\<lambda>(i, _). valid_id i) jobs \<longleftrightarrow> (\<forall>i j. store_Get jobs i = Ok j \<longrightarrow> valid_id i)"
  by (auto simp: store_wf_def store_Get_def list_all_iff dest: map_of_SomeD split: option.splits)

section \<open>Claims\<close>

text \<open>
  C19. A sweep that runs alone, on a file system that obeys, removes exactly what it should: the
  record, the tokens and the files of every job past its deadline, and every archive file that
  belongs to no job; the records, tokens and files of the other jobs stay as they are.
\<close>

theorem sweep_exact:
  assumes "world_wf s w" "sx_quiet sx" "c = NewCleanup (temp_dir s) ttl" "valid_id k"
  shows "GetJob (sweep c sx w) k =
      (case GetJob w k of Inl e \<Rightarrow> Err e | Inr j \<Rightarrow> if isExpired c j (sx_now sx) then Err ErrNotFound else Ok j)
    \<and> temp_of (temp_dir s) (w_files (sweep c sx w)) k =
      (case GetJob (sweep c sx w) k of Inl e \<Rightarrow> None | Inr j \<Rightarrow> temp_of (temp_dir s) (w_files w) k)
    \<and> final_of (temp_dir s) (w_files (sweep c sx w)) k =
      (case GetJob (sweep c sx w) k of Inl e \<Rightarrow> None | Inr j \<Rightarrow> final_of (temp_dir s) (w_files w) k)
    \<and> ValidateDownloadToken (sweep c sx w) t k tok =
      (case GetJob w k of Inl e \<Rightarrow> ValidateDownloadToken w t k tok
       | Inr j \<Rightarrow> if isExpired c j (sx_now sx) then Err ErrInvalidToken else ValidateDownloadToken w t k tok)
    \<and> world_wf s (sweep c sx w)"
proof (intro conjI)
  note W = world_wfD [OF assms(1)] and L = list_ids [OF assms(1)]
  have c: "cl_dir c = temp_dir s" by (simp add: assms(3) NewCleanup_def)
  have wfs: "storage_wf (cl_dir c) (w_files w)" using W(2) c by simp
  note sf = sweep_from_quiet [OF assms(2) wfs W(1) L(3), folded sweep_def]
  have g: "store_Get (w_jobs (sweep c sx w)) k = (if \<exists>j. store_Get (w_jobs w) k = Ok j \<and> isExpired c j (sx_now sx)
      then Err ErrNotFound else store_Get (w_jobs w) k)"
    and tk: "token_Validate (w_tokens (sweep c sx w)) t k tok = (if \<exists>j. store_Get (w_jobs w) k = Ok j \<and> isExpired c j (sx_now sx)
      then Err ErrInvalidToken else token_Validate (w_tokens w) t k tok)" for k t tok
    using sf(1) unfolding state_removed_def L(2) by auto
  have f: "temp_of (temp_dir s) (w_files (sweep c sx w)) k = (if \<exists>j. store_Get (w_jobs w) k = Ok j \<and> \<not> isExpired c j (sx_now sx)
      then temp_of (temp_dir s) (w_files w) k else None)"
    "final_of (temp_dir s) (w_files (sweep c sx w)) k = (if \<exists>j. store_Get (w_jobs w) k = Ok j \<and> \<not> isExpired c j (sx_now sx)
      then final_of (temp_dir s) (w_files w) k else None)"
    using sf(2) assms(4) unfolding files_removed_def L(1,2) c by auto
  show G: "GetJob (sweep c sx w) k =
      (case GetJob w k of Inl e \<Rightarrow> Err e | Inr j \<Rightarrow> if isExpired c j (sx_now sx) then Err ErrNotFound else Ok j)"
    using g [of k] by (auto simp: GetJob_def split: sum.splits)
  show "temp_of (temp_dir s) (w_files (sweep c sx w)) k =
      (case GetJob (sweep c sx w) k of Inl e \<Rightarrow> None | Inr j \<Rightarrow> temp_of (temp_dir s) (w_files w) k)"
    "final_of (temp_dir s) (w_files (sweep c sx w)) k =
      (case GetJob (sweep c sx w) k of Inl e \<Rightarrow> None | Inr j \<Rightarrow> final_of (temp_dir s) (w_files w) k)"
    using f G by (auto simp: GetJob_def split: sum.splits if_splits)
  show "ValidateDownloadToken (sweep c sx w) t k tok =
      (case GetJob w k of Inl e \<Rightarrow> ValidateDownloadToken w t k tok
       | Inr j \<Rightarrow> if isExpired c j (sx_now sx) then Err ErrInvalidToken else ValidateDownloadToken w t k tok)"
    using tk [of t k tok] by (auto simp: GetJob_def ValidateDownloadToken_def split: sum.splits)
  have "valid_id i" if "store_Get (w_jobs (sweep c sx w)) i = Ok j" for i j
    using that g [of i] W(4) by (auto split: if_splits)
  moreover have "store_wf (w_jobs (sweep c sx w))" "w_queue (sweep c sx w) = w_queue w"
    using sf(1) by (simp_all add: state_removed_def)
  ultimately show "world_wf s (sweep c sx w)"
    using sf(2) W(3) c by (simp add: world_wf_def files_removed_def valid_keys_iff)
qed

definition wit_sx :: sweep_env where
  "wit_sx = \<lparr>sx_now = 100, sx_remove = (\<lambda>_. (None, None)), sx_list = None, sx_orphan = (\<lambda>_. (None, None))\<rparr>"

lemma wit_sx_quiet: "sx_quiet wit_sx"
  by (simp add: sx_quiet_def wit_sx_def)

lemma wit_valid: "valid_id ''job1''"
  by (simp add: valid_id_def)

theorem sweep_exact_witness:
  "GetJob (sweep (NewCleanup ''/a'' 60) wit_sx wit_world) ''job1'' = Err ErrNotFound"
proof -
  have d: "temp_dir wit_svc = ''/a''" by (simp add: wit_svc_def wit_cfg_def)
  have e: "isExpired (NewCleanup ''/a'' 60) wit_job (sx_now wit_sx)"
    by (simp add: isExpired_def NewCleanup_def wit_job_def wit_sx_def)
  show ?thesis
    using sweep_exact [OF wit_world_wf wit_sx_quiet refl wit_valid, of 60] wit_get e by (simp add: d GetJob_def)
qed

text \<open>
  C20. The small steps of the cleanup implement \<open>sweep\<close>: started at its snapshot and run without
  interference, they end after finitely many steps with the goroutine waiting for the next tick,
  in exactly the state that \<open>sweep\<close> computes, whatever faults the file system has.
\<close>

theorem sweep_steps_implement_sweep:
  "\<exists>n. run_for (sweep_step c sx) n SwSnapshot w = Some (SwIdle, sweep c sx w)"
  using run_sweep [of c sx w] by (simp only: run_ends_def)

text \<open>
  C34. A sweep that does not run alone can destroy a live archive: a job that is not in the
  sweep's snapshot, because it was created after the snapshot was taken, keeps its record and
  its tokens but loses its temporary and its published files to the removal of orphans.
\<close>

theorem sweep_race_deletes_new_archive:
  assumes "world_wf s w" "sx_quiet sx" "c = NewCleanup (temp_dir s) ttl" "valid_id i"
    "\<forall>j \<in> set snapshot. valid_id (j_ID j) \<and> j_ID j \<noteq> i" "GetJob w i = Ok j"
  shows "GetJob (sweep_from c sx snapshot w) i = Ok j
    \<and> ValidateDownloadToken (sweep_from c sx snapshot w) t i tok = ValidateDownloadToken w t i tok
    \<and> temp_of (temp_dir s) (w_files (sweep_from c sx snapshot w)) i = None
    \<and> OpenArchive s None (sweep_from c sx snapshot w) i = Err (OpenArchiveErr ENOENT)"
proof -
  note W = world_wfD [OF assms(1)]
  have c: "cl_dir c = temp_dir s" by (simp add: assms(3) NewCleanup_def)
  have wfs: "storage_wf (cl_dir c) (w_files w)" and v: "\<forall>j \<in> set snapshot. valid_id (j_ID j)" using W(2) c assms(5) by simp_all
  note sf = sweep_from_quiet [OF assms(2) wfs W(1) v]
  have n: "i \<notin> live_ids c sx snapshot" "i \<notin> dead_ids c sx snapshot"
    using assms(5) by (auto simp: live_ids_def dead_ids_def)
  have f: "storage_wf (temp_dir s) (w_files (sweep_from c sx snapshot w))"
    "temp_of (temp_dir s) (w_files (sweep_from c sx snapshot w)) i = None"
    "final_of (temp_dir s) (w_files (sweep_from c sx snapshot w)) i = None"
    using sf(2) n assms(4) unfolding files_removed_def c by simp_all
  show ?thesis
    using sf(1) n f assms(6) loc.open_none [OF f(1) assms(4)]
    by (simp add: state_removed_def GetJob_def ValidateDownloadToken_def OpenArchive_def)
qed

theorem sweep_race_deletes_new_archive_witness:
  "\<exists>w'. ProcessJob wit_svc wit_px wit_world ''job1'' = Returned w'
     \<and> (\<exists>out. OpenArchive wit_svc None w' ''job1'' = Ok (FileNode [out]))
     \<and> OpenArchive wit_svc None (sweep_from (NewCleanup ''/a'' 60) wit_sx [] w') ''job1'' = Err (OpenArchiveErr ENOENT)"
proof -
  obtain w' j' where r: "ProcessJob wit_svc wit_px wit_world ''job1'' = Returned w'"
    "store_Get (w_jobs w') ''job1'' = Ok j'" "j_Status j' = JobStatusCompleted" using wit_run by blast
  obtain jr where j: "run_frame wit_svc wit_world ''job1'' jr w'"
    "ends_failed wit_svc wit_px wit_world ''job1'' jr w' \<or> ends_completed wit_svc wit_px wit_world ''job1'' wit_job jr w'"
    using ProcessJob_run [OF wit_world_wf wit_get r(1)] by blast
  have "jr = j'" using j(1) r(2) by (simp add: run_frame_def stored_def)
  then obtain out where o: "OpenArchive wit_svc None w' ''job1'' = Ok (FileNode [out])"
    using j(2) r(3) by (auto simp: ends_failed_def ends_completed_def OpenArchive_def)
  have wf: "world_wf wit_svc w'"
    using j(1) wit_world_wf by (auto simp: run_frame_def stored_def world_wf_def)
  have d: "temp_dir wit_svc = ''/a''" by (simp add: wit_svc_def wit_cfg_def)
  have "OpenArchive wit_svc None (sweep_from (NewCleanup (temp_dir wit_svc) 60) wit_sx [] w') ''job1'' = Err (OpenArchiveErr ENOENT)"
    using sweep_race_deletes_new_archive [OF wf wit_sx_quiet refl wit_valid, of "[]" j'] r(2) by (simp add: GetJob_def)
  with r(1) o d show ?thesis by auto
qed

text \<open>
  A removed job stays removed: whatever updates a worker that still holds the job sends to
  the store afterwards, in any number and order, the job is not found any more.
\<close>

lemma removed_job_not_resurrected:
  assumes "world_wf s w"
  shows "store_Get (fold (persist_with store_Update) updates (w_jobs (removeJob c sx i w))) i = Err ErrNotFound"
  using mem.removed_stays_removed [OF world_wfD(1) [OF assms]] by (simp add: removeJob_def)

end
