(* ===== verification/Lifecycle.thy ===== *)
theory Lifecycle
  imports WorkerPool CleanupWorker "HOL-Library.Multiset"
begin

text \<open>
  The running service: the pool's workers (\<open>internal/worker/worker.go\<close>), the cleanup goroutine, the
  requests and the shutdown of \<open>cmd/server/main.go\<close> at the same time, as a step relation over the
  shared state and the place each goroutine is at. A worker takes the steps of
  \<^const>\<open>job_step\<close>, a request those of \<open>CreateJob\<close> cut at the job store, the cleanup those of
  \<^const>\<open>sweep_step\<close>. The steps are shown to implement, through a ledger of who is responsible
  for which job, an abstract life cycle of jobs; both levels are interpretations of the locale
  \<open>simulation\<close>.
\<close>

section \<open>A request in steps\<close>

definition checkRequest ::
  "ArchiveService \<Rightarrow> time \<Rightarrow> string \<Rightarrow> World \<Rightarrow> ArchiveRequest \<Rightarrow> (service_error, Job) result" where
  "checkRequest s now newUUID w req =
     (if \<not> w_accepting w then Err ErrNotAccepting
      else case validateRootFolderID (sv_uuid_parse s) (req_RootFolderID req) of
        Inl e \<Rightarrow> Err e
      | Inr rootFolderID \<Rightarrow>
          case validateArchiveName (req_ArchiveName req) of
            Inl e \<Rightarrow> Err e
          | Inr archiveName \<Rightarrow>
              case validateExportType (req_ExportType req) of
                Inl e \<Rightarrow> Err e
              | Inr exportType \<Rightarrow>
                  case r_FolderExists (sv_repo s) rootFolderID of
                    Inl e \<Rightarrow> Err (VerifyRootFolder e)
                  | Inr False \<Rightarrow> Err ErrFolderNotFound
                  | Inr True \<Rightarrow> Ok (new_job newUUID rootFolderID archiveName exportType now))"

definition enqueue :: "ArchiveService \<Rightarrow> Job \<Rightarrow> World \<Rightarrow> (service_error, Job) result \<times> World" where
  "enqueue s j w =
     (if int (length (w_queue w)) < cfg_QueueSize (sv_cfg s)
      then (Ok j, w\<lparr>w_queue := w_queue w @ [j_ID j]\<rparr>)
      else (Err ErrQueueFull, w\<lparr>w_jobs := store_Delete (w_jobs w) (j_ID j)\<rparr>))"

text \<open>One after the other, the parts are \<^const>\<open>CreateJob\<close>.\<close>

lemma CreateJob_steps:
  "CreateJob s now i w req =
     (case checkRequest s now i w req of
        Inl e \<Rightarrow> (Err e, w)
      | Inr j \<Rightarrow> (case store_Create (w_jobs w) j of
          Inl e \<Rightarrow> (Err (CreateJobRecord (store_error_text e)), w)
        | Inr jobs \<Rightarrow> enqueue s j (w\<lparr>w_jobs := jobs\<rparr>)))"
  by (auto simp: CreateJob_def checkRequest_def enqueue_def Let_def split: sum.splits bool.splits)

lemma checkRequest_job:
  "checkRequest s now i w req = Ok j \<Longrightarrow> j_ID j = i \<and> j_Status j = JobStatusQueued \<and> w_accepting w"
  by (auto simp: checkRequest_def split: if_splits sum.splits bool.splits)

section \<open>The running service\<close>

record System =
  sy_world :: World
  sy_checked :: "Job list"
  sy_created :: "Job list"
  sy_workers :: "job_pc list"
  sy_sweep :: sweep_pc
  sy_done :: bool

definition NewPool :: "int \<Rightarrow> job_pc list" where
  "NewPool workers = replicate (nat workers) WIdle"

definition sys_init :: "ArchiveService \<Rightarrow> archive_out filesystem \<Rightarrow> System" where
  "sys_init s files = \<lparr>sy_world = New NewMemoryStore files NewInMemoryService, sy_checked = [], sy_created = [],
     sy_workers = NewPool (cfg_Workers (sv_cfg s)), sy_sweep = SwSnapshot, sy_done = False\<rparr>"

definition pc_id :: "job_pc \<Rightarrow> string option" where
  "pc_id pc = (case pc of WIdle \<Rightarrow> None | WStopped \<Rightarrow> None | WTaken i \<Rightarrow> Some i | WMark j \<Rightarrow> Some (j_ID j)
     | WManifest j \<Rightarrow> Some (j_ID j) | WTotals j m \<Rightarrow> Some (j_ID j) | WCreate j m \<Rightarrow> Some (j_ID j)
     | WFiles j fs ds aw b n \<Rightarrow> Some (j_ID j) | WReport j fs ds aw b n \<Rightarrow> Some (j_ID j)
     | WDirs j ds aw \<Rightarrow> Some (j_ID j) | WGenerated j e \<Rightarrow> Some (j_ID j) | WClose j \<Rightarrow> Some (j_ID j)
     | WRename j \<Rightarrow> Some (j_ID j) | WUndo j \<Rightarrow> Some (j_ID j) | WIssue j \<Rightarrow> Some (j_ID j) | WPersist j \<Rightarrow> Some (j_ID j))"

text \<open>A new UUID is one that nothing in the service carries.\<close>

definition fresh_id :: "System \<Rightarrow> string \<Rightarrow> bool" where
  "fresh_id y i \<longleftrightarrow> store_Get (w_jobs (sy_world y)) i = Err ErrNotFound \<and> i \<notin> set (w_queue (sy_world y))
     \<and> i \<notin> j_ID ` set (sy_checked y) \<and> i \<notin> j_ID ` set (sy_created y) \<and> Some i \<notin> pc_id ` set (sy_workers y)"

inductive sys_step :: "ArchiveService \<Rightarrow> Cleanup \<Rightarrow> System \<Rightarrow> System \<Rightarrow> bool" for s c where
  request_check: "checkRequest s now i (sy_world y) req = Ok j \<Longrightarrow> fresh_id y i \<Longrightarrow> valid_id i \<Longrightarrow>
    sys_step s c y (y\<lparr>sy_checked := j # sy_checked y\<rparr>)"
| request_create: "j \<in> set (sy_checked y) \<Longrightarrow> store_Create (w_jobs (sy_world y)) j = Ok jobs \<Longrightarrow>
    sys_step s c y (y\<lparr>sy_world := (sy_world y)\<lparr>w_jobs := jobs\<rparr>, sy_checked := remove1 j (sy_checked y),
      sy_created := j # sy_created y\<rparr>)"
| request_enqueue: "j \<in> set (sy_created y) \<Longrightarrow>
    sys_step s c y (y\<lparr>sy_world := snd (enqueue s j (sy_world y)), sy_created := remove1 j (sy_created y)\<rparr>)"
| worker_receive: "k < length (sy_workers y) \<Longrightarrow> sy_workers y ! k = WIdle \<Longrightarrow>
    Queue_receive (sy_world y) = Some (i, w') \<Longrightarrow>
    sys_step s c y (y\<lparr>sy_world := w', sy_workers := (sy_workers y)[k := WTaken i]\<rparr>)"
| worker_stop: "k < length (sy_workers y) \<Longrightarrow> sy_workers y ! k = WIdle \<Longrightarrow> sy_done y \<Longrightarrow>
    sys_step s c y (y\<lparr>sy_workers := (sy_workers y)[k := WStopped]\<rparr>)"
| worker_step: "k < length (sy_workers y) \<Longrightarrow> job_step s px (sy_workers y ! k) (sy_world y) = Some (pc', w') \<Longrightarrow>
    sys_step s c y (y\<lparr>sy_world := w', sy_workers := (sy_workers y)[k := pc']\<rparr>)"
| cleanup_tick: "sy_sweep y = SwIdle \<Longrightarrow> sys_step s c y (y\<lparr>sy_sweep := SwSnapshot\<rparr>)"
| cleanup_step: "sweep_step c sx (sy_sweep y) (sy_world y) = Some (sw', w') \<Longrightarrow>
    sys_step s c y (y\<lparr>sy_world := w', sy_sweep := sw'\<rparr>)"
| cleanup_stop: "sy_sweep y = SwIdle \<Longrightarrow> sy_done y \<Longrightarrow> sys_step s c y (y\<lparr>sy_sweep := SwStopped\<rparr>)"
| shutdown_begin: "sys_step s c y (y\<lparr>sy_world := StopAccepting (sy_world y)\<rparr>)"
| shutdown_cancel: "\<not> w_accepting (sy_world y) \<Longrightarrow> sys_step s c y (y\<lparr>sy_done := True\<rparr>)"

definition reachable :: "ArchiveService \<Rightarrow> Cleanup \<Rightarrow> archive_out filesystem \<Rightarrow> System \<Rightarrow> bool" where
  "reachable s c files y \<longleftrightarrow> (sys_step s c)\<^sup>*\<^sup>* (sys_init s files) y"

section \<open>The ledger of jobs\<close>

text \<open>
  Who is responsible for which job: requests before the record exists, jobs that wait, jobs that
  a worker works on; and the status of each record.
\<close>

record ledger =
  ld_checked :: "string multiset"
  ld_waiting :: "string multiset"
  ld_working :: "string multiset"
  ld_status :: "string \<Rightarrow> JobStatus option"

definition waits :: "job_pc \<Rightarrow> string multiset" where
  "waits pc = (case pc of WTaken i \<Rightarrow> {#i#} | WMark j \<Rightarrow> {#j_ID j#} | _ \<Rightarrow> {#})"

definition works :: "job_pc \<Rightarrow> string multiset" where
  "works pc = (case pc of WTaken i \<Rightarrow> {#} | WMark j \<Rightarrow> {#}
     | _ \<Rightarrow> (case pc_id pc of None \<Rightarrow> {#} | Some i \<Rightarrow> {#i#}))"

definition status_of :: "MemoryStore \<Rightarrow> string \<Rightarrow> JobStatus option" where
  "status_of jobs i = (case store_Get jobs i of Inl e \<Rightarrow> None | Inr j \<Rightarrow> Some (j_Status j))"

definition ledger_of :: "System \<Rightarrow> ledger" where
  "ledger_of y = \<lparr>ld_checked = mset (map j_ID (sy_checked y)),
     ld_waiting = mset (map j_ID (sy_created y)) + mset (w_queue (sy_world y)) + (\<Sum>pc\<in>#mset (sy_workers y). waits pc),
     ld_working = (\<Sum>pc\<in>#mset (sy_workers y). works pc),
     ld_status = status_of (w_jobs (sy_world y))\<rparr>"

inductive move :: "ledger \<Rightarrow> ledger \<Rightarrow> bool" where
  stay: "move v v"
| check: "i \<notin># ld_checked v + ld_waiting v + ld_working v \<Longrightarrow> ld_status v i = None \<Longrightarrow>
    move v (v\<lparr>ld_checked := ld_checked v + {#i#}\<rparr>)"
| create: "i \<in># ld_checked v \<Longrightarrow> ld_status v i = None \<Longrightarrow>
    move v (v\<lparr>ld_checked := ld_checked v - {#i#}, ld_waiting := ld_waiting v + {#i#},
      ld_status := (ld_status v)(i \<mapsto> JobStatusQueued)\<rparr>)"
| refuse: "i \<in># ld_waiting v \<Longrightarrow>
    move v (v\<lparr>ld_waiting := ld_waiting v - {#i#}, ld_status := (ld_status v)(i := None)\<rparr>)"
| start: "i \<in># ld_waiting v \<Longrightarrow> ld_status v i \<noteq> None \<Longrightarrow>
    move v (v\<lparr>ld_waiting := ld_waiting v - {#i#}, ld_working := ld_working v + {#i#},
      ld_status := (ld_status v)(i \<mapsto> JobStatusProcessing)\<rparr>)"
| forget: "i \<in># ld_working v \<Longrightarrow> ld_status v i = None \<Longrightarrow> move v (v\<lparr>ld_working := ld_working v - {#i#}\<rparr>)"
| finish: "i \<in># ld_working v \<Longrightarrow> ld_status v i \<noteq> None \<Longrightarrow> t \<in> {JobStatusCompleted, JobStatusFailed} \<Longrightarrow>
    move v (v\<lparr>ld_working := ld_working v - {#i#}, ld_status := (ld_status v)(i \<mapsto> t)\<rparr>)"
| remove: "move v (v\<lparr>ld_status := (ld_status v)(i := None)\<rparr>)"

text \<open>Nobody shares a job, and the status of a record says who is responsible for it.\<close>

definition id_ok :: "nat \<Rightarrow> nat \<Rightarrow> nat \<Rightarrow> JobStatus option \<Rightarrow> bool" where
  "id_ok checked waiting working st \<longleftrightarrow> checked + waiting + working \<le> 1
     \<and> (0 < checked \<longrightarrow> st = None)
     \<and> (0 < waiting \<longrightarrow> st \<in> {None, Some JobStatusQueued})
     \<and> (0 < working \<longrightarrow> st \<in> {None, Some JobStatusProcessing})
     \<and> (st = Some JobStatusQueued \<longrightarrow> 0 < waiting)
     \<and> (st = Some JobStatusProcessing \<longrightarrow> 0 < working)
     \<and> st \<noteq> Some JobStatusExpired"

definition ledger_ok :: "ledger \<Rightarrow> bool" where
  "ledger_ok v \<longleftrightarrow> (\<forall>i. id_ok (count (ld_checked v) i) (count (ld_waiting v) i) (count (ld_working v) i) (ld_status v i))"

section \<open>The abstract life cycle\<close>

inductive lifecycle :: "(string \<Rightarrow> JobStatus option) \<Rightarrow> (string \<Rightarrow> JobStatus option) \<Rightarrow> bool" where
  submitted: "a i = None \<Longrightarrow> lifecycle a (a(i \<mapsto> JobStatusQueued))"
| started: "a i = Some JobStatusQueued \<Longrightarrow> lifecycle a (a(i \<mapsto> JobStatusProcessing))"
| finished: "a i = Some JobStatusProcessing \<Longrightarrow> t \<in> {JobStatusCompleted, JobStatusFailed} \<Longrightarrow> lifecycle a (a(i \<mapsto> t))"
| removed: "lifecycle a (a(i := None))"
| idle: "lifecycle a a"

text \<open>A job never goes back: while it has a record, its status only grows.\<close>

lemma lifecycle_mono: "lifecycle a a' \<Longrightarrow> a i = Some t \<Longrightarrow> a' i = Some t' \<Longrightarrow> t \<le> t'"
  by (induction rule: lifecycle.induct) (auto simp: less_eq_JobStatus_def split: if_splits)

lemma move_lifecycle:
  assumes "move v v'" "ledger_ok v"
  shows "lifecycle (ld_status v) (ld_status v')"
  using assms
proof (cases rule: move.cases)
  case (start i)
  then have "ld_status v i = Some JobStatusQueued" using assms(2) by (auto simp: ledger_ok_def id_ok_def)
  then show ?thesis using start by (simp add: lifecycle.started)
next
  case (finish i t)
  then have "ld_status v i = Some JobStatusProcessing" using assms(2) by (auto simp: ledger_ok_def id_ok_def)
  then show ?thesis using finish by (simp add: lifecycle.finished)
qed (auto intro: lifecycle.intros)

lemma id_ok_pos:
  "0 < p \<Longrightarrow> id_ok p w k st \<longleftrightarrow> p = 1 \<and> w = 0 \<and> k = 0 \<and> st = None"
  "0 < w \<Longrightarrow> id_ok p w k st \<longleftrightarrow> p = 0 \<and> w = 1 \<and> k = 0 \<and> st \<in> {None, Some JobStatusQueued}"
  "0 < k \<Longrightarrow> id_ok p w k st \<longleftrightarrow> p = 0 \<and> w = 0 \<and> k = 1 \<and> st \<in> {None, Some JobStatusProcessing}"
  by (auto simp: id_ok_def)

lemma id_ok_zero: "id_ok 0 0 0 st \<longleftrightarrow> st \<in> {None, Some JobStatusCompleted, Some JobStatusFailed}"
  by (cases "the st"; cases st; simp add: id_ok_def)

lemma id_ok_remove: "id_ok p w k st \<Longrightarrow> id_ok p w k None"
  by (simp add: id_ok_def)

lemma move_ok:
  assumes "move v v'" "ledger_ok v"
  shows "ledger_ok v'"
  unfolding ledger_ok_def
proof
  fix k
  have k: "id_ok (count (ld_checked v) k) (count (ld_waiting v) k) (count (ld_working v) k) (ld_status v k)"
    using assms(2) by (simp add: ledger_ok_def)
  from assms(1) show "id_ok (count (ld_checked v') k) (count (ld_waiting v') k) (count (ld_working v') k) (ld_status v' k)"
  proof (cases rule: move.cases)
    case stay
    then show ?thesis using k by simp
  next
    case (check i)
    then show ?thesis using k by (cases "k = i") (simp_all add: not_in_iff id_ok_zero id_ok_pos)
  next
    case (create i)
    then have "0 < count (ld_checked v) i" by simp
    with create k show ?thesis by (cases "k = i") (simp_all add: id_ok_pos)
  next
    case (refuse i)
    then have "0 < count (ld_waiting v) i" by simp
    with refuse k show ?thesis by (cases "k = i") (simp_all add: id_ok_pos id_ok_zero)
  next
    case (start i)
    then have "0 < count (ld_waiting v) i" by simp
    with start k show ?thesis by (cases "k = i") (simp_all add: id_ok_pos)
  next
    case (forget i)
    then have "0 < count (ld_working v) i" by simp
    with forget k show ?thesis by (cases "k = i") (simp_all add: id_ok_pos id_ok_zero)
  next
    case (finish i t)
    then have "0 < count (ld_working v) i" by simp
    with finish k show ?thesis by (cases "k = i") (auto simp: id_ok_pos id_ok_zero)
  next
    case (remove i)
    then show ?thesis using k id_ok_remove by (cases "k = i") simp_all
  qed
qed

section \<open>The store's side\<close>

lemma status_simps:
  "status_of jobs i = None \<longleftrightarrow> store_Get jobs i = Err ErrNotFound"
  "status_of jobs i = Some st \<longleftrightarrow> (\<exists>j. store_Get jobs i = Ok j \<and> j_Status j = st)"
  using mem.get_cases [of jobs i] by (auto simp: status_of_def)

lemma status_update:
  assumes "store_Update jobs j = Ok jobs'"
  shows "status_of jobs' = (status_of jobs)(j_ID j \<mapsto> j_Status j)" "status_of jobs (j_ID j) \<noteq> None"
proof -
  show "status_of jobs' = (status_of jobs)(j_ID j \<mapsto> j_Status j)"
    by (rule ext) (simp add: status_of_def mem.get_update [OF assms])
  show "status_of jobs (j_ID j) \<noteq> None"
    using mem.update_iff [of jobs j] assms by (auto simp: status_of_def)
qed

lemma status_update_err: "store_Update jobs j = Err e \<Longrightarrow> status_of jobs (j_ID j) = None"
  using mem.update_iff [of jobs j] mem.get_cases [of jobs "j_ID j"] by (auto simp: status_of_def)

lemma status_persist:
  "status_of (persist_with store_Update j jobs) =
     (if status_of jobs (j_ID j) = None then status_of jobs else (status_of jobs)(j_ID j \<mapsto> j_Status j))"
  by (rule ext) (auto simp: status_of_def mem.get_persist split: sum.splits)

lemma status_create:
  assumes "store_Create jobs j = Ok jobs'"
  shows "status_of jobs' = (status_of jobs)(j_ID j \<mapsto> j_Status j)" "status_of jobs (j_ID j) = None"
proof -
  show "status_of jobs' = (status_of jobs)(j_ID j \<mapsto> j_Status j)"
    by (rule ext) (simp add: status_of_def mem.get_create [OF assms])
  show "status_of jobs (j_ID j) = None" using mem.create_iff [of jobs j] assms by (auto simp: status_of_def)
qed

lemma status_delete: "store_wf jobs \<Longrightarrow> status_of (store_Delete jobs i) = (status_of jobs)(i := None)"
  by (rule ext) (simp add: status_of_def mem.get_remove)

lemma world_wf_persist: "world_wf s w \<Longrightarrow> world_wf s (persist j w)"
  by (simp add: world_wf_def mem.wf_persist valid_keys_persist)

lemma world_wf_update:
  assumes "world_wf s w" "store_Update (w_jobs w) j = Ok jobs"
  shows "world_wf s (w\<lparr>w_jobs := jobs\<rparr>)"
  using world_wf_persist [OF assms(1), of j] assms(2) by (simp add: persist_with_def)

lemma world_wf_delete: "world_wf s w \<Longrightarrow> world_wf s (w\<lparr>w_jobs := store_Delete (w_jobs w) i\<rparr>)"
  by (simp add: world_wf_def mem.wf_remove valid_keys_delete store_Delete_def [symmetric])
    (simp add: store_Delete_def valid_keys_delete)

lemma world_wf_create:
  assumes "world_wf s w" "store_Create (w_jobs w) j = Ok jobs" "valid_id (j_ID j)"
  shows "world_wf s (w\<lparr>w_jobs := jobs\<rparr>)"
  using assms mem.wf_create [OF _ assms(2)] store_Create_keys [OF assms(2)]
  by (simp add: world_wf_def valid_keys_update)

lemma world_wf_files: "world_wf s w \<Longrightarrow> storage_wf (temp_dir s) fs \<Longrightarrow> world_wf s (w\<lparr>w_files := fs\<rparr>)"
  by (simp add: world_wf_def)

lemma world_wf_tokens [simp]: "world_wf s (w\<lparr>w_tokens := ts\<rparr>) \<longleftrightarrow> world_wf s w"
  by (simp add: world_wf_def)

section \<open>A worker's step is a move\<close>

lemma move_start:
  "st i \<noteq> None \<Longrightarrow> move \<lparr>ld_checked = P, ld_waiting = W + {#i#}, ld_working = K, ld_status = st\<rparr>
     \<lparr>ld_checked = P, ld_waiting = W, ld_working = K + {#i#}, ld_status = st(i \<mapsto> JobStatusProcessing)\<rparr>"
  using move.start [of i "\<lparr>ld_checked = P, ld_waiting = W + {#i#}, ld_working = K, ld_status = st\<rparr>"] by simp

lemma move_drop_waiting:
  "st i = None \<Longrightarrow> move \<lparr>ld_checked = P, ld_waiting = W + {#i#}, ld_working = K, ld_status = st\<rparr>
     \<lparr>ld_checked = P, ld_waiting = W, ld_working = K, ld_status = st\<rparr>"
  using move.refuse [of i "\<lparr>ld_checked = P, ld_waiting = W + {#i#}, ld_working = K, ld_status = st\<rparr>"]
  by (simp add: fun_upd_idem)

lemma move_drop_working:
  "st i = None \<Longrightarrow> move \<lparr>ld_checked = P, ld_waiting = W, ld_working = K + {#i#}, ld_status = st\<rparr>
     \<lparr>ld_checked = P, ld_waiting = W, ld_working = K, ld_status = st\<rparr>"
  using move.forget [of i "\<lparr>ld_checked = P, ld_waiting = W, ld_working = K + {#i#}, ld_status = st\<rparr>"] by simp

lemma move_finish:
  "t \<in> {JobStatusCompleted, JobStatusFailed} \<Longrightarrow>
   move \<lparr>ld_checked = P, ld_waiting = W, ld_working = K + {#i#}, ld_status = st\<rparr>
     \<lparr>ld_checked = P, ld_waiting = W, ld_working = K, ld_status = (if st i = None then st else st(i \<mapsto> t))\<rparr>"
  using move.finish [of i "\<lparr>ld_checked = P, ld_waiting = W, ld_working = K + {#i#}, ld_status = st\<rparr>" t]
    move_drop_working [of st i P W K] by simp

text \<open>What a worker holds: a record in progress, or one that is about to be stored as finished.\<close>

definition pc_ok :: "job_pc \<Rightarrow> bool" where
  "pc_ok pc \<longleftrightarrow> (\<forall>i. pc_id pc = Some i \<longrightarrow> valid_id i)
     \<and> (case pc of WIdle \<Rightarrow> True | WStopped \<Rightarrow> True | WTaken i \<Rightarrow> True
        | WPersist j \<Rightarrow> j_Status j \<in> {JobStatusCompleted, JobStatusFailed}
        | WMark j \<Rightarrow> j_Status j = JobStatusProcessing | WManifest j \<Rightarrow> j_Status j = JobStatusProcessing
        | WTotals j m \<Rightarrow> j_Status j = JobStatusProcessing | WCreate j m \<Rightarrow> j_Status j = JobStatusProcessing
        | WFiles j fs ds aw b n \<Rightarrow> j_Status j = JobStatusProcessing | WReport j fs ds aw b n \<Rightarrow> j_Status j = JobStatusProcessing
        | WDirs j ds aw \<Rightarrow> j_Status j = JobStatusProcessing | WGenerated j e \<Rightarrow> j_Status j = JobStatusProcessing
        | WClose j \<Rightarrow> j_Status j = JobStatusProcessing | WRename j \<Rightarrow> j_Status j = JobStatusProcessing
        | WUndo j \<Rightarrow> j_Status j = JobStatusProcessing | WIssue j \<Rightarrow> j_Status j = JobStatusProcessing)"

lemmas pc_defs = pc_ok_def pc_id_def waits_def works_def

definition pc_moves :: "job_pc \<Rightarrow> World \<Rightarrow> job_pc \<Rightarrow> World \<Rightarrow> bool" where
  "pc_moves pc w pc' w' \<longleftrightarrow> (\<forall>P W K. move
     \<lparr>ld_checked = P, ld_waiting = W + waits pc, ld_working = K + works pc, ld_status = status_of (w_jobs w)\<rparr>
     \<lparr>ld_checked = P, ld_waiting = W + waits pc', ld_working = K + works pc', ld_status = status_of (w_jobs w')\<rparr>)"

lemma pc_moves_stay:
  "waits pc' = waits pc \<Longrightarrow> works pc' = works pc \<Longrightarrow> status_of (w_jobs w') = status_of (w_jobs w) \<Longrightarrow> pc_moves pc w pc' w'"
  by (simp add: pc_moves_def move.stay)

text \<open>The steps that touch only files and tokens.\<close>

fun at_store :: "job_pc \<Rightarrow> bool" where
  "at_store (WTaken i) = True" | "at_store (WMark j) = True" | "at_store (WTotals j m) = True"
| "at_store (WReport j fs ds aw b n) = True" | "at_store (WPersist j) = True" | "at_store _ = False"

lemma job_step_files_frame:
  assumes "job_step s px pc w = Some (pc', w')" "\<not> at_store pc"
  shows "w_jobs w' = w_jobs w \<and> w_queue w' = w_queue w \<and> w_accepting w' = w_accepting w"
  using assms
  by (cases "(s, px, pc, w)" rule: job_step.cases) (auto simp: returns_def split: sum.splits option.splits prod.splits if_splits)

lemma job_step_files_wf:
  assumes "job_step s px pc w = Some (pc', w')" "\<not> at_store pc" "storage_wf (temp_dir s) (w_files w)" "pc_ok pc"
  shows "storage_wf (temp_dir s) (w_files w')"
proof -
  have v: "valid_id k" if "pc_id pc = Some k" for k using assms(4) that by (simp add: pc_ok_def)
  note W = loc.wf_create [OF assms(3)] loc.wf_write [OF assms(3)] loc.wf_rename [OF assms(3)] loc.wf_remove [OF assms(3)]
  show ?thesis
    using assms(1-3) v
    by (cases "(s, px, pc, w)" rule: job_step.cases)
      (auto simp: returns_def pc_id_def intro: W split: sum.splits option.splits prod.splits if_splits)
qed

lemma job_step_files_pc:
  assumes "job_step s px pc w = Some (pc', w')" "\<not> at_store pc" "pc_ok pc"
  shows "pc_ok pc' \<and> waits pc' = waits pc \<and> works pc' = works pc"
  using assms
  by (cases "(s, px, pc, w)" rule: job_step.cases)
    (auto simp: pc_defs returns_def failed_job_def completed_job_def split: sum.splits option.splits prod.splits if_splits)

lemma job_step_files:
  assumes "job_step s px pc w = Some (pc', w')" "world_wf s w" "pc_ok pc" "\<not> at_store pc"
  shows "world_wf s w' \<and> pc_ok pc' \<and> pc_moves pc w pc' w' \<and> w_queue w' = w_queue w \<and> w_accepting w' = w_accepting w"
  using job_step_files_frame [OF assms(1,4)] job_step_files_wf [OF assms(1,4) _ assms(3)] job_step_files_pc [OF assms(1,4,3)]
    assms(2) pc_moves_stay [of pc' pc w' w] by (simp add: world_wf_def)

lemma job_step_taken:
  assumes "job_step s px (WTaken i) w = Some (pc', w')" "world_wf s w" "pc_ok (WTaken i)"
  shows "w' = w \<and> pc_ok pc' \<and> pc_moves (WTaken i) w pc' w'"
proof (cases "store_Get (w_jobs w) i")
  case (Inl e)
  then have "pc' = WIdle" "w' = w" "status_of (w_jobs w) i = None" using assms(1) by (auto simp: status_of_def)
  then show ?thesis using move_drop_waiting [of "status_of (w_jobs w)" i] by (simp add: pc_moves_def pc_defs)
next
  case (Inr j)
  have "j_ID j = i" by (rule mem.get_id [OF world_wfD(1) [OF assms(2)] Inr])
  then show ?thesis using assms(1,3) Inr by (auto simp: pc_defs intro!: pc_moves_stay)
qed

lemma job_step_mark:
  assumes "job_step s px (WMark j) w = Some (pc', w')" "world_wf s w" "pc_ok (WMark j)"
  shows "world_wf s w' \<and> pc_ok pc' \<and> pc_moves (WMark j) w pc' w' \<and> w_queue w' = w_queue w \<and> w_accepting w' = w_accepting w"
proof (cases "store_Update (w_jobs w) j")
  case (Inl e)
  then have "pc' = WIdle" "w' = w" using assms(1) by auto
  then show ?thesis
    using assms(2) move_drop_waiting [of "status_of (w_jobs w)" "j_ID j"] status_update_err [OF Inl] by (simp add: pc_moves_def pc_defs)
next
  case (Inr jobs)
  then have e: "pc' = WManifest j" "w' = w\<lparr>w_jobs := jobs\<rparr>" using assms(1) by auto
  have "j_Status j = JobStatusProcessing" using assms(3) by (simp add: pc_ok_def)
  then have "pc_moves (WMark j) w pc' w'"
    using e status_update [OF Inr] move_start [of "status_of (w_jobs w)" "j_ID j"] by (simp add: pc_moves_def pc_defs)
  then show ?thesis using e assms(3) world_wf_update [OF assms(2) Inr] by (simp add: pc_defs)
qed

lemma status_idem: "st i \<in> {None, Some t} \<Longrightarrow> st i \<noteq> None \<Longrightarrow> st(i \<mapsto> t) = st"
  by (auto simp: fun_upd_idem)

lemma job_step_totals:
  assumes "job_step s px (WTotals j m) w = Some (pc', w')" "world_wf s w" "pc_ok (WTotals j m)"
    "status_of (w_jobs w) (j_ID j) \<in> {None, Some JobStatusProcessing}"
  shows "world_wf s w' \<and> pc_ok pc' \<and> pc_moves (WTotals j m) w pc' w' \<and> w_queue w' = w_queue w \<and> w_accepting w' = w_accepting w"
proof (cases "store_Update (w_jobs w) j")
  case (Inl e)
  then have "pc' = WIdle" "w' = w" using assms(1) by auto
  then show ?thesis
    using assms(2) move_drop_working [of "status_of (w_jobs w)" "j_ID j"] status_update_err [OF Inl] by (simp add: pc_moves_def pc_defs)
next
  case (Inr jobs)
  have p: "j_Status j = JobStatusProcessing" using assms(3) by (simp add: pc_ok_def)
  have e: "w' = w\<lparr>w_jobs := jobs\<rparr>" "pc_ok pc'" "waits pc' = waits (WTotals j m)" "works pc' = works (WTotals j m)"
    using assms(1,3) Inr by (auto simp: pc_defs failed_job_def split: if_splits)
  have "status_of jobs = status_of (w_jobs w)"
    using status_update [OF Inr] status_idem [of "status_of (w_jobs w)" "j_ID j" JobStatusProcessing, OF assms(4)] p by simp
  then show ?thesis using e world_wf_update [OF assms(2) Inr] pc_moves_stay [OF e(3,4), of w' w] by simp
qed

lemma job_step_report:
  assumes "job_step s px (WReport j fs ds aw b n) w = Some (pc', w')" "world_wf s w" "pc_ok (WReport j fs ds aw b n)"
    "status_of (w_jobs w) (j_ID j) \<in> {None, Some JobStatusProcessing}"
  shows "world_wf s w' \<and> pc_ok pc' \<and> pc_moves (WReport j fs ds aw b n) w pc' w' \<and> w_queue w' = w_queue w \<and> w_accepting w' = w_accepting w"
proof -
  let ?j = "j\<lparr>j_ProcessedFiles := n, j_ProcessedBytes := b, j_UpdatedAt := px_progress px n\<rparr>"
  have e: "w' = persist ?j w" "pc' = WFiles ?j fs ds aw b n" using assms(1) by (auto simp: Let_def)
  have st: "j_Status j = JobStatusProcessing" using assms(3) by (simp add: pc_ok_def)
  have "status_of (persist_with store_Update ?j (w_jobs w)) = status_of (w_jobs w)"
    using status_persist [of ?j "w_jobs w"] status_idem [of "status_of (w_jobs w)" "j_ID j" JobStatusProcessing, OF assms(4)] st by simp
  then have "pc_moves (WReport j fs ds aw b n) w pc' w'" using e by (intro pc_moves_stay) (simp_all add: pc_defs)
  then show ?thesis using e assms(3) world_wf_persist [OF assms(2), of ?j] by (simp add: pc_defs)
qed

lemma job_step_persist:
  assumes "job_step s px (WPersist j) w = Some (pc', w')" "world_wf s w" "pc_ok (WPersist j)"
  shows "world_wf s w' \<and> pc_ok pc' \<and> pc_moves (WPersist j) w pc' w' \<and> w_queue w' = w_queue w \<and> w_accepting w' = w_accepting w"
proof -
  have e: "w' = persist j w" "pc' = WIdle" using assms(1) by auto
  have "j_Status j \<in> {JobStatusCompleted, JobStatusFailed}" using assms(3) by (simp add: pc_ok_def)
  from move_finish [OF this, of _ _ _ "j_ID j" "status_of (w_jobs w)"]
  have "pc_moves (WPersist j) w pc' w'" unfolding pc_moves_def e by (simp add: status_persist pc_defs)
  then show ?thesis using e world_wf_persist [OF assms(2), of j] by (simp add: pc_defs)
qed

lemma job_step_moves:
  assumes "job_step s px pc w = Some (pc', w')" "world_wf s w" "pc_ok pc"
    "\<And>i. works pc = {#i#} \<Longrightarrow> status_of (w_jobs w) i \<in> {None, Some JobStatusProcessing}"
  shows "world_wf s w' \<and> pc_ok pc' \<and> pc_moves pc w pc' w' \<and> w_queue w' = w_queue w \<and> w_accepting w' = w_accepting w"
proof (cases pc)
  case (WTaken i)
  then show ?thesis using job_step_taken assms(1-3) by blast
next
  case (WMark j)
  then show ?thesis using job_step_mark assms by blast
next
  case (WTotals j m)
  then show ?thesis using job_step_totals [of s px j m w pc' w'] assms by (simp add: pc_defs)
next
  case (WReport j fs ds aw b n)
  then show ?thesis using job_step_report [of s px j fs ds aw b n w pc' w'] assms by (simp add: pc_defs)
next
  case (WPersist j)
  then show ?thesis using job_step_persist assms by blast
qed (use job_step_files [OF assms(1-3)] in simp)+

section \<open>Every step is a move\<close>

fun sweep_ok :: "sweep_pc \<Rightarrow> bool" where
  "sweep_ok (SwExpire now js tracked) = list_all (\<lambda>j. valid_id (j_ID j)) js"
| "sweep_ok (SwRevoke now i js tracked) = (valid_id i \<and> list_all (\<lambda>j. valid_id (j_ID j)) js)"
| "sweep_ok (SwForget now i js tracked) = (valid_id i \<and> list_all (\<lambda>j. valid_id (j_ID j)) js)"
| "sweep_ok (SwOrphans tracked is) = list_all valid_id is"
| "sweep_ok _ = True"

definition sys_wf :: "ArchiveService \<Rightarrow> System \<Rightarrow> bool" where
  "sys_wf s y \<longleftrightarrow> world_wf s (sy_world y)
     \<and> list_all (\<lambda>j. valid_id (j_ID j) \<and> j_Status j = JobStatusQueued) (sy_checked y @ sy_created y)
     \<and> list_all valid_id (w_queue (sy_world y)) \<and> list_all pc_ok (sy_workers y) \<and> sweep_ok (sy_sweep y)"

lemma sys_wf_world:
  "sys_wf s y \<Longrightarrow> world_wf s w \<Longrightarrow> w_queue w = w_queue (sy_world y) \<Longrightarrow> sys_wf s (y\<lparr>sy_world := w\<rparr>)"
  by (simp add: sys_wf_def)

lemma mset_map_remove1:
  assumes "j \<in> set js"
  shows "mset (map f js) = mset (map f (remove1 j js)) + {#f j#}"
proof -
  have "mset js = add_mset j (mset (remove1 j js))" using assms by simp
  then show ?thesis by (metis add_mset_add_single image_mset_add_mset mset_map)
qed

lemma workers_update:
  assumes "k < length ws"
  shows "\<exists>R. mset ws = add_mset (ws ! k) R \<and> (\<forall>pc. mset (ws[k := pc]) = add_mset pc R)"
  using assms by (intro exI [of _ "mset ws - {#ws ! k#}"]) (simp add: mset_update)

lemma worker_holds: "i \<in># waits pc + works pc \<Longrightarrow> pc_id pc = Some i"
  by (cases pc) (auto simp: waits_def works_def pc_id_def)

lemma fresh_ledger:
  assumes "fresh_id y i"
  shows "i \<notin># ld_checked (ledger_of y) + ld_waiting (ledger_of y) + ld_working (ledger_of y)"
    "ld_status (ledger_of y) i = None"
proof -
  have "i \<notin># waits pc \<and> i \<notin># works pc" if "pc \<in> set (sy_workers y)" for pc
    using worker_holds [of i pc] assms that by (force simp: fresh_id_def)
  then show "i \<notin># ld_checked (ledger_of y) + ld_waiting (ledger_of y) + ld_working (ledger_of y)"
    using assms by (auto simp: ledger_of_def fresh_id_def)
  show "ld_status (ledger_of y) i = None" using assms by (simp add: ledger_of_def fresh_id_def status_of_def)
qed

lemma worker_status:
  assumes "ledger_ok (ledger_of y)" "pc \<in> set (sy_workers y)" "works pc = {#i#}"
  shows "status_of (w_jobs (sy_world y)) i \<in> {None, Some JobStatusProcessing}"
proof -
  have "i \<in># ld_working (ledger_of y)" using assms(2,3) by (force simp: ledger_of_def)
  then have "0 < count (ld_working (ledger_of y)) i" by simp
  moreover have "id_ok (count (ld_checked (ledger_of y)) i) (count (ld_waiting (ledger_of y)) i)
      (count (ld_working (ledger_of y)) i) (ld_status (ledger_of y) i)"
    using assms(1) by (simp add: ledger_ok_def)
  ultimately have "ld_status (ledger_of y) i \<in> {None, Some JobStatusProcessing}" by (simp only: id_ok_pos)
  then show ?thesis by (simp add: ledger_of_def)
qed

lemma step_worker:
  assumes "k < length (sy_workers y)" "job_step s px (sy_workers y ! k) (sy_world y) = Some (pc', w')"
    "sys_wf s y" "ledger_ok (ledger_of y)"
  shows "sys_wf s (y\<lparr>sy_world := w', sy_workers := (sy_workers y)[k := pc']\<rparr>)
    \<and> move (ledger_of y) (ledger_of (y\<lparr>sy_world := w', sy_workers := (sy_workers y)[k := pc']\<rparr>))"
proof -
  let ?pc = "sy_workers y ! k"
  have m: "?pc \<in> set (sy_workers y)" using assms(1) by simp
  then have ok: "pc_ok ?pc" using assms(3) by (auto simp: sys_wf_def list_all_iff)
  have wf: "world_wf s (sy_world y)" using assms(3) by (simp add: sys_wf_def)
  note j = job_step_moves [OF assms(2) wf ok worker_status [OF assms(4) m]]
  obtain R where R: "mset (sy_workers y) = add_mset ?pc R" "\<And>pc. mset ((sy_workers y)[k := pc]) = add_mset pc R"
    using workers_update [OF assms(1)] by blast
  let ?P = "mset (map j_ID (sy_checked y))" and ?K = "\<Sum>pc\<in>#R. works pc"
  let ?W = "mset (map j_ID (sy_created y)) + mset (w_queue (sy_world y)) + (\<Sum>pc\<in>#R. waits pc)"
  have "ledger_of y = \<lparr>ld_checked = ?P, ld_waiting = ?W + waits ?pc, ld_working = ?K + works ?pc,
      ld_status = status_of (w_jobs (sy_world y))\<rparr>"
    by (simp add: ledger_of_def R(1) ac_simps)
  moreover have "ledger_of (y\<lparr>sy_world := w', sy_workers := (sy_workers y)[k := pc']\<rparr>) =
      \<lparr>ld_checked = ?P, ld_waiting = ?W + waits pc', ld_working = ?K + works pc', ld_status = status_of (w_jobs w')\<rparr>"
    using j by (simp add: ledger_of_def R(2) ac_simps)
  ultimately have "move (ledger_of y) (ledger_of (y\<lparr>sy_world := w', sy_workers := (sy_workers y)[k := pc']\<rparr>))"
    using j by (simp only: pc_moves_def)
  moreover have "list_all pc_ok ((sy_workers y)[k := pc'])"
    using j assms(3) set_update_subset_insert [of "sy_workers y" k pc'] by (auto simp: sys_wf_def list_all_iff)
  ultimately show ?thesis using j assms(3) by (simp add: sys_wf_def)
qed

lemma step_receive:
  assumes "k < length (sy_workers y)" "sy_workers y ! k = WIdle" "Queue_receive (sy_world y) = Some (i, w')" "sys_wf s y"
  shows "sys_wf s (y\<lparr>sy_world := w', sy_workers := (sy_workers y)[k := WTaken i]\<rparr>)
    \<and> move (ledger_of y) (ledger_of (y\<lparr>sy_world := w', sy_workers := (sy_workers y)[k := WTaken i]\<rparr>))"
proof -
  obtain q where q: "w_queue (sy_world y) = i # q" "w' = (sy_world y)\<lparr>w_queue := q\<rparr>"
    using assms(3) by (auto simp: Queue_receive_def split: list.splits)
  obtain R where R: "mset (sy_workers y) = add_mset (sy_workers y ! k) R" "\<And>pc. mset ((sy_workers y)[k := pc]) = add_mset pc R"
    using workers_update [OF assms(1)] by blast
  have "ledger_of (y\<lparr>sy_world := w', sy_workers := (sy_workers y)[k := WTaken i]\<rparr>) = ledger_of y"
    using assms(2) by (simp add: ledger_of_def R q waits_def works_def pc_id_def)
  moreover have "list_all pc_ok ((sy_workers y)[k := WTaken i])"
    using assms(4) q set_update_subset_insert [of "sy_workers y" k "WTaken i"]
    by (auto simp: sys_wf_def list_all_iff pc_ok_def pc_id_def)
  ultimately show ?thesis using assms(4) q by (simp add: sys_wf_def world_wf_def move.stay)
qed

lemma step_stop:
  assumes "k < length (sy_workers y)" "sy_workers y ! k = WIdle" "sys_wf s y"
  shows "sys_wf s (y\<lparr>sy_workers := (sy_workers y)[k := WStopped]\<rparr>)
    \<and> move (ledger_of y) (ledger_of (y\<lparr>sy_workers := (sy_workers y)[k := WStopped]\<rparr>))"
proof -
  obtain R where R: "mset (sy_workers y) = add_mset (sy_workers y ! k) R" "\<And>pc. mset ((sy_workers y)[k := pc]) = add_mset pc R"
    using workers_update [OF assms(1)] by blast
  have "ledger_of (y\<lparr>sy_workers := (sy_workers y)[k := WStopped]\<rparr>) = ledger_of y"
    using assms(2) by (simp add: ledger_of_def R waits_def works_def pc_id_def)
  moreover have "list_all pc_ok ((sy_workers y)[k := WStopped])"
    using assms(3) set_update_subset_insert [of "sy_workers y" k WStopped]
    by (auto simp: sys_wf_def list_all_iff pc_ok_def pc_id_def)
  ultimately show ?thesis using assms(3) by (simp add: sys_wf_def move.stay)
qed

lemma step_check:
  assumes "checkRequest s now i (sy_world y) req = Ok j" "fresh_id y i" "valid_id i" "sys_wf s y"
  shows "sys_wf s (y\<lparr>sy_checked := j # sy_checked y\<rparr>) \<and> move (ledger_of y) (ledger_of (y\<lparr>sy_checked := j # sy_checked y\<rparr>))"
proof -
  have "j_ID j = i" "j_Status j = JobStatusQueued" using checkRequest_job [OF assms(1)] by simp_all
  then show ?thesis
    using assms(3,4) move.check [of i "ledger_of y", OF fresh_ledger [OF assms(2)]]
    by (simp add: sys_wf_def ledger_of_def)
qed

lemma list_all_remove1: "list_all P xs \<Longrightarrow> list_all P (remove1 x xs)"
  using set_remove1_subset [of x xs] by (auto simp: list_all_iff)

lemma step_create:
  assumes "j \<in> set (sy_checked y)" "store_Create (w_jobs (sy_world y)) j = Ok jobs" "sys_wf s y"
  shows "sys_wf s (y\<lparr>sy_world := (sy_world y)\<lparr>w_jobs := jobs\<rparr>, sy_checked := remove1 j (sy_checked y), sy_created := j # sy_created y\<rparr>)
    \<and> move (ledger_of y) (ledger_of (y\<lparr>sy_world := (sy_world y)\<lparr>w_jobs := jobs\<rparr>, sy_checked := remove1 j (sy_checked y),
        sy_created := j # sy_created y\<rparr>))"
proof -
  have j: "valid_id (j_ID j)" "j_Status j = JobStatusQueued" using assms(1,3) by (auto simp: sys_wf_def list_all_iff)
  have "world_wf s ((sy_world y)\<lparr>w_jobs := jobs\<rparr>)"
    using assms(3) by (intro world_wf_create [OF _ assms(2) j(1)]) (simp add: sys_wf_def)
  moreover have "mset (map j_ID (sy_checked y)) = mset (map j_ID (remove1 j (sy_checked y))) + {#j_ID j#}"
    by (rule mset_map_remove1 [OF assms(1)])
  moreover have "move (ledger_of y) ((ledger_of y)\<lparr>ld_checked := ld_checked (ledger_of y) - {#j_ID j#},
      ld_waiting := ld_waiting (ledger_of y) + {#j_ID j#}, ld_status := (ld_status (ledger_of y))(j_ID j \<mapsto> JobStatusQueued)\<rparr>)"
    using assms(1) status_create(2) [OF assms(2)] by (intro move.create) (auto simp: ledger_of_def)
  ultimately show ?thesis
    using assms(3) j status_create(1) [OF assms(2)] by (simp add: sys_wf_def ledger_of_def list_all_remove1)
qed

lemma step_enqueue:
  assumes "j \<in> set (sy_created y)" "sys_wf s y"
  shows "sys_wf s (y\<lparr>sy_world := snd (enqueue s j (sy_world y)), sy_created := remove1 j (sy_created y)\<rparr>)
    \<and> move (ledger_of y) (ledger_of (y\<lparr>sy_world := snd (enqueue s j (sy_world y)), sy_created := remove1 j (sy_created y)\<rparr>))"
proof -
  have j: "valid_id (j_ID j)" using assms by (auto simp: sys_wf_def list_all_iff)
  have m: "mset (map j_ID (sy_created y)) = mset (map j_ID (remove1 j (sy_created y))) + {#j_ID j#}"
    by (rule mset_map_remove1 [OF assms(1)])
  have wf: "world_wf s (sy_world y)" using assms(2) by (simp add: sys_wf_def)
  show ?thesis
  proof (cases "int (length (w_queue (sy_world y))) < cfg_QueueSize (sv_cfg s)")
    case True
    then have "ledger_of (y\<lparr>sy_world := snd (enqueue s j (sy_world y)), sy_created := remove1 j (sy_created y)\<rparr>) = ledger_of y"
      using m by (simp add: enqueue_def ledger_of_def)
    moreover have "world_wf s ((sy_world y)\<lparr>w_queue := w_queue (sy_world y) @ [j_ID j]\<rparr>)" using wf True by (simp add: world_wf_def)
    ultimately show ?thesis using assms(2) j True by (simp add: enqueue_def sys_wf_def move.stay list_all_remove1)
  next
    case False
    have "move (ledger_of y) ((ledger_of y)\<lparr>ld_waiting := ld_waiting (ledger_of y) - {#j_ID j#},
        ld_status := (ld_status (ledger_of y))(j_ID j := None)\<rparr>)"
      using assms(1) by (intro move.refuse) (auto simp: ledger_of_def)
    then show ?thesis
      using assms(2) False m world_wf_delete [OF wf, of "j_ID j"] status_delete [OF world_wfD(1) [OF wf], of "j_ID j"]
      by (simp add: enqueue_def sys_wf_def ledger_of_def list_all_remove1)
  qed
qed

lemma snapshot_valid:
  assumes "world_wf s w"
  shows "list_all (\<lambda>j. valid_id (j_ID j)) (store_List (w_jobs w))"
  using mem.jobs_of_iff [OF world_wfD(1) [OF assms]] world_wfD(4) [OF assms] by (auto simp: list_all_iff)

lemma world_wf_remove:
  "world_wf s w \<Longrightarrow> valid_id i \<Longrightarrow> world_wf s (w\<lparr>w_files := snd (local_Delete (temp_dir s) f (w_files w) i)\<rparr>)"
  by (rule world_wf_files) (simp_all add: loc.wf_remove world_wfD(2))

lemma sweep_step_world:
  assumes "sweep_step c sx pc w = Some (pc', w')" "cl_dir c = temp_dir s" "world_wf s w" "sweep_ok pc"
  shows "world_wf s w' \<and> sweep_ok pc'"
  using assms
proof (cases "(c, sx, pc, w)" rule: sweep_step.cases)
  case 1
  then show ?thesis using assms(1,3) snapshot_valid by auto
next
  case (4 _ _ now i js tracked)
  then show ?thesis using assms world_wf_delete [OF assms(3), of i] by auto
next
  case (5 _ _ now tracked)
  then show ?thesis
    using assms loc.list_views [OF world_wfD(2) [OF assms(3)], of "sx_list sx"]
    by (auto simp: list_all_iff split: sum.splits)
qed (auto simp: world_wf_remove split: if_splits)

lemma sweep_step_jobs:
  "sweep_step c sx pc w = Some (pc', w') \<Longrightarrow> w_queue w' = w_queue w \<and> w_accepting w' = w_accepting w
     \<and> (w_jobs w' = w_jobs w \<or> (\<exists>i. w_jobs w' = store_Delete (w_jobs w) i))"
  by (cases "(c, sx, pc, w)" rule: sweep_step.cases) (auto split: if_splits sum.splits)

lemma step_cleanup:
  assumes "sweep_step c sx (sy_sweep y) (sy_world y) = Some (sw', w')" "cl_dir c = temp_dir s" "sys_wf s y"
  shows "sys_wf s (y\<lparr>sy_world := w', sy_sweep := sw'\<rparr>) \<and> move (ledger_of y) (ledger_of (y\<lparr>sy_world := w', sy_sweep := sw'\<rparr>))"
proof -
  have wf: "world_wf s (sy_world y)" "sweep_ok (sy_sweep y)" using assms(3) by (simp_all add: sys_wf_def)
  note w' = sweep_step_world [OF assms(1,2) wf] and j = sweep_step_jobs [OF assms(1)]
  have "move (ledger_of y) (ledger_of (y\<lparr>sy_world := w', sy_sweep := sw'\<rparr>))"
  proof (cases "w_jobs w' = w_jobs (sy_world y)")
    case True
    then show ?thesis using j by (simp add: ledger_of_def move.stay)
  next
    case False
    then obtain i where "w_jobs w' = store_Delete (w_jobs (sy_world y)) i" using j by blast
    then have "ledger_of (y\<lparr>sy_world := w', sy_sweep := sw'\<rparr>) = (ledger_of y)\<lparr>ld_status := (ld_status (ledger_of y))(i := None)\<rparr>"
      using j status_delete [OF world_wfD(1) [OF wf(1)], of i] by (simp add: ledger_of_def)
    then show ?thesis by (simp add: move.remove)
  qed
  then show ?thesis using w' j assms(3) by (simp add: sys_wf_def)
qed

lemma sys_wf_sweep: "sys_wf s y \<Longrightarrow> sweep_ok sw \<Longrightarrow> sys_wf s (y\<lparr>sy_sweep := sw\<rparr>) \<and> move (ledger_of y) (ledger_of (y\<lparr>sy_sweep := sw\<rparr>))"
  by (simp add: sys_wf_def ledger_of_def move.stay)

lemma step_sound:
  assumes "sys_step s c y y'" "cl_dir c = temp_dir s" "sys_wf s y" "ledger_ok (ledger_of y)"
  shows "sys_wf s y' \<and> move (ledger_of y) (ledger_of y')"
  using assms(1)
proof (cases rule: sys_step.cases)
  case (request_check now i req j)
  then show ?thesis using step_check assms(3) by blast
next
  case (request_create j jobs)
  then show ?thesis using step_create assms(3) by blast
next
  case (request_enqueue j)
  then show ?thesis using step_enqueue assms(3) by blast
next
  case (worker_receive k i w')
  then show ?thesis using step_receive assms(3) by blast
next
  case (worker_stop k)
  then show ?thesis using step_stop assms(3) by blast
next
  case (worker_step k px pc' w')
  then show ?thesis using step_worker assms(3,4) by blast
next
  case cleanup_tick
  then show ?thesis using sys_wf_sweep [OF assms(3), of SwSnapshot] by simp
next
  case (cleanup_step sx sw' w')
  then show ?thesis using step_cleanup [OF _ assms(2,3)] by blast
next
  case cleanup_stop
  then show ?thesis using sys_wf_sweep [OF assms(3), of SwStopped] by simp
next
  case shutdown_begin
  then show ?thesis using assms(3) by (simp add: sys_wf_def world_wf_def StopAccepting_def ledger_of_def move.stay)
next
  case shutdown_cancel
  then show ?thesis using assms(3) by (simp add: sys_wf_def ledger_of_def move.stay)
qed

section \<open>What holds in every reachable state\<close>

definition ledger_start :: "ledger \<Rightarrow> bool" where
  "ledger_start v \<longleftrightarrow> v = \<lparr>ld_checked = {#}, ld_waiting = {#}, ld_working = {#}, ld_status = (\<lambda>_. None)\<rparr>"

lemma init_ledger: "ledger_start (ledger_of (sys_init s files))"
proof -
  have "waits pc = {#} \<and> works pc = {#}" if "pc \<in> set (NewPool n)" for pc n
    using that by (auto simp: NewPool_def waits_def works_def pc_id_def)
  then have z: "(\<Sum>pc\<in>#mset (NewPool n). waits pc) = {#}" "(\<Sum>pc\<in>#mset (NewPool n). works pc) = {#}" for n
    by (simp_all add: sum_mset.neutral)
  show ?thesis
    by (simp add: z ledger_start_def ledger_of_def sys_init_def New_def NewMemoryStore_def status_of_def store_Get_def fun_eq_iff)
qed

lemma init_wf:
  assumes "storage_wf (temp_dir s) files" "0 \<le> cfg_QueueSize (sv_cfg s)"
  shows "sys_wf s (sys_init s files)"
proof -
  have "list_all pc_ok (NewPool n)" for n by (simp add: NewPool_def list_all_iff pc_ok_def pc_id_def)
  then show ?thesis
    using assms by (simp add: sys_wf_def sys_init_def New_def NewMemoryStore_def world_wf_def store_wf_def)
qed

text \<open>The two levels of abstraction: the ledger, and the statuses alone.\<close>

definition lifecycle_start :: "(string \<Rightarrow> JobStatus option) \<Rightarrow> bool" where
  "lifecycle_start a \<longleftrightarrow> a = (\<lambda>_. None)"

definition service_start :: "ArchiveService \<Rightarrow> Cleanup \<Rightarrow> System \<Rightarrow> bool" where
  "service_start s c y \<longleftrightarrow> cl_dir c = temp_dir s \<and> 0 \<le> cfg_QueueSize (sv_cfg s)
     \<and> (\<exists>files. storage_wf (temp_dir s) files \<and> y = sys_init s files)"

definition service_inv :: "ArchiveService \<Rightarrow> Cleanup \<Rightarrow> System \<Rightarrow> bool" where
  "service_inv s c y \<longleftrightarrow> cl_dir c = temp_dir s \<and> sys_wf s y \<and> ledger_ok (ledger_of y)"

lemma ledger_start_ok: "ledger_start v \<Longrightarrow> ledger_ok v"
  by (simp add: ledger_start_def ledger_ok_def id_ok_zero)

interpretation books: simulation ledger_start move ledger_ok ld_status lifecycle_start lifecycle
  by unfold_locales (simp_all add: ledger_start_ok move_ok move_lifecycle, simp add: ledger_start_def lifecycle_start_def)

interpretation service: refinement_chain "service_start s c" "sys_step s c" "service_inv s c"
  ledger_of ledger_start move ledger_ok ld_status lifecycle_start lifecycle
proof unfold_locales
  fix y y'
  show start: "ledger_start (ledger_of y)" if "service_start s c y"
    using that init_ledger by (auto simp: service_start_def)
  show "service_inv s c y" if "service_start s c y"
    using that ledger_start_ok [OF start [OF that]] init_wf by (auto simp: service_start_def service_inv_def)
  show "service_inv s c y'" "move (ledger_of y) (ledger_of y')" if "service_inv s c y" "sys_step s c y y'"
    using step_sound [OF that(2)] move_ok that(1) unfolding service_inv_def by blast+
qed (simp add: service_inv_def)

lemma reachable_inv:
  assumes "reachable s c files y" "cl_dir c = temp_dir s" "storage_wf (temp_dir s) files" "0 \<le> cfg_QueueSize (sv_cfg s)"
  shows "sys_wf s y \<and> ledger_ok (ledger_of y) \<and> lifecycle\<^sup>*\<^sup>* (\<lambda>_. None) (status_of (w_jobs (sy_world y)))"
proof -
  have st: "service_start s c (sys_init s files)" using assms by (auto simp: service_start_def)
  note r = assms(1) [unfolded reachable_def]
  have a: "ld_status (ledger_of y) = status_of (w_jobs (sy_world y))" for y by (simp add: ledger_of_def)
  have "lifecycle\<^sup>*\<^sup>* (\<lambda>_. None) (status_of (w_jobs (sy_world y)))"
    using service.composed.from_start_abs [OF st r] unfolding lifecycle_start_def a by (elim conjE) (simp only:)
  then show ?thesis using service.lower.from_start_inv [OF st r] by (simp only: service_inv_def simp_thms)
qed

text \<open>Shutting down: workers stop only after the service has stopped accepting.\<close>

lemma job_step_not_stopped: "job_step s px pc w = Some (pc', w') \<Longrightarrow> pc' \<noteq> WStopped \<and> w_accepting w' = w_accepting w"
  by (cases "(s, px, pc, w)" rule: job_step.cases)
    (auto simp: Let_def returns_def split: sum.splits option.splits if_splits prod.splits)

definition shutdown_inv :: "System \<Rightarrow> bool" where
  "shutdown_inv y \<longleftrightarrow> (sy_done y \<longrightarrow> \<not> w_accepting (sy_world y)) \<and> (WStopped \<in> set (sy_workers y) \<longrightarrow> sy_done y)"

lemma step_shutdown:
  assumes "sys_step s c y y'" "shutdown_inv y"
  shows "shutdown_inv y'"
  using assms
proof (cases rule: sys_step.cases)
  case (worker_step k px pc' w')
  then show ?thesis
    using assms(2) job_step_not_stopped [OF worker_step(3)] set_update_subset_insert [of "sy_workers y" k pc']
    by (auto simp: shutdown_inv_def)
next
  case (worker_receive k i w')
  then show ?thesis
    using assms(2) set_update_subset_insert [of "sy_workers y" k "WTaken i"]
    by (auto simp: shutdown_inv_def Queue_receive_def split: list.splits)
next
  case (cleanup_step sx sw' w')
  then show ?thesis using assms(2) sweep_step_jobs [OF cleanup_step(2)] by (simp add: shutdown_inv_def)
qed (simp_all add: shutdown_inv_def enqueue_def StopAccepting_def)

interpretation stopping: transition_system "\<lambda>y. \<exists>files. y = sys_init s files" "sys_step s c" shutdown_inv
proof
  show "shutdown_inv y" if "\<exists>files. y = sys_init s files" for y
    using that by (auto simp: shutdown_inv_def sys_init_def NewPool_def)
qed (rule step_shutdown)

lemma reachable_shutdown: "reachable s c files y \<Longrightarrow> shutdown_inv y"
  unfolding reachable_def by (rule stopping.from_start_inv [of "sys_init s files"]) auto

text \<open>The ledger read back in terms of the state.\<close>

lemma worker_ids:
  assumes "pc_id pc = Some i"
  shows "waits pc + works pc = {#i#}"
  using assms by (cases pc) (auto simp: waits_def works_def pc_id_def)

lemma nth_other_worker:
  assumes "k < length ws" "k' < length ws" "k \<noteq> k'"
  shows "\<exists>R. mset ws = add_mset (ws ! k) (add_mset (ws ! k') R)"
proof -
  have "ws ! k' \<in># mset ws - {#ws ! k#}"
  proof -
    have "mset ws = add_mset (ws ! k) (mset (take k ws @ drop (Suc k) ws))"
      using id_take_nth_drop [OF assms(1)] by (metis append_Cons append_Nil mset_append mset.simps(2) union_mset_add_mset_right)
    moreover have "ws ! k' \<in> set (take k ws @ drop (Suc k) ws)"
    proof (cases "k' < k")
      case True
      then show ?thesis using assms by (auto simp: in_set_conv_nth)
    next
      case False
      then have "drop (Suc k) ws ! (k' - Suc k) = ws ! k'" "k' - Suc k < length (drop (Suc k) ws)" using assms by auto
      then show ?thesis by (metis UnI2 nth_mem set_append)
    qed
    ultimately show ?thesis by simp
  qed
  then obtain R where "mset ws - {#ws ! k#} = add_mset (ws ! k') R" by (meson multi_member_split)
  then have "mset ws = add_mset (ws ! k) (add_mset (ws ! k') R)" using assms(1) by (metis insert_DiffM nth_mem_mset)
  then show ?thesis by blast
qed

lemma bex_nth: "(\<exists>x \<in> set xs. P x) \<longleftrightarrow> (\<exists>k < length xs. P (xs ! k))"
  by (metis in_set_conv_nth)

lemma ledger_count:
  "ledger_ok v \<Longrightarrow> count (ld_checked v) i + count (ld_waiting v) i + count (ld_working v) i \<le> 1"
  by (simp add: ledger_ok_def id_ok_def)

lemma ledger_members:
  "i \<in># ld_waiting (ledger_of y) \<longleftrightarrow> i \<in> j_ID ` set (sy_created y) \<or> i \<in> set (w_queue (sy_world y))
     \<or> (\<exists>k < length (sy_workers y). i \<in># waits (sy_workers y ! k))"
  "i \<in># ld_working (ledger_of y) \<longleftrightarrow> (\<exists>k < length (sy_workers y). i \<in># works (sy_workers y ! k))"
  by (simp_all add: ledger_of_def bex_nth disj_assoc)

lemma exclusive_worker:
  assumes "ledger_ok (ledger_of y)" "k < length (sy_workers y)" "pc_id (sy_workers y ! k) = Some i"
  shows "i \<notin> set (w_queue (sy_world y))"
    "k' < length (sy_workers y) \<Longrightarrow> k \<noteq> k' \<Longrightarrow> pc_id (sy_workers y ! k') \<noteq> Some i"
    "i \<notin> j_ID ` set (sy_created y)"
proof -
  let ?s = "(\<Sum>pc\<in>#mset (sy_workers y). waits pc) + (\<Sum>pc\<in>#mset (sy_workers y). works pc)"
  have "count (ld_waiting (ledger_of y)) i + count (ld_working (ledger_of y)) i \<le> 1"
    using ledger_count [OF assms(1), of i] by linarith
  then have c: "count (mset (map j_ID (sy_created y))) i + count (mset (w_queue (sy_world y))) i + count ?s i \<le> 1"
    by (simp add: ledger_of_def)
  obtain R where R: "mset (sy_workers y) = add_mset (sy_workers y ! k) R" using workers_update [OF assms(2)] by blast
  then have "?s = {#i#} + ((\<Sum>pc\<in>#R. waits pc) + (\<Sum>pc\<in>#R. works pc))"
    using worker_ids [OF assms(3)] by (simp only: image_mset_add_mset sum_mset.add_mset) (simp add: ac_simps)
  then have "0 < count ?s i" by simp
  with c have "count (mset (w_queue (sy_world y))) i = 0" "count (mset (map j_ID (sy_created y))) i = 0" by linarith+
  then show "i \<notin> set (w_queue (sy_world y))" "i \<notin> j_ID ` set (sy_created y)"
    by (simp_all only: count_eq_zero_iff set_mset_mset set_map not_False_eq_True)
  assume k': "k' < length (sy_workers y)" "k \<noteq> k'"
  show "pc_id (sy_workers y ! k') \<noteq> Some i"
  proof
    assume p: "pc_id (sy_workers y ! k') = Some i"
    obtain R where R: "mset (sy_workers y) = add_mset (sy_workers y ! k) (add_mset (sy_workers y ! k') R)"
      using nth_other_worker [OF assms(2) k'] by blast
    then have "?s = {#i#} + {#i#} + ((\<Sum>pc\<in>#R. waits pc) + (\<Sum>pc\<in>#R. works pc))"
      using worker_ids [OF assms(3)] worker_ids [OF p] by (simp only: image_mset_add_mset sum_mset.add_mset) (simp add: ac_simps)
    with c show False by simp
  qed
qed

lemma queue_distinct: "ledger_ok (ledger_of y) \<Longrightarrow> distinct (w_queue (sy_world y))"
proof -
  assume l: "ledger_ok (ledger_of y)"
  have "count (mset (w_queue (sy_world y))) i \<le> 1" for i
  proof -
    have "count (ld_waiting (ledger_of y)) i \<le> 1" using ledger_count [OF l, of i] by linarith
    then show ?thesis by (simp add: ledger_of_def)
  qed
  moreover have "count (mset (w_queue (sy_world y))) i \<noteq> 0 \<longleftrightarrow> i \<in> set (w_queue (sy_world y))" for i
    by (simp only: count_eq_zero_iff set_mset_mset not_not)
  ultimately show ?thesis unfolding distinct_count_atmost_1 by (metis le_antisym less_one linorder_not_le)
qed

lemma stored_status:
  assumes "ledger_ok (ledger_of y)" "GetJob (sy_world y) i = Ok j"
  shows "j_Status j = JobStatusQueued \<longleftrightarrow> i \<in># ld_waiting (ledger_of y)"
    "j_Status j = JobStatusProcessing \<longleftrightarrow> i \<in># ld_working (ledger_of y)" "j_Status j \<noteq> JobStatusExpired"
proof -
  have "ld_status (ledger_of y) i = Some (j_Status j)" using assms(2) by (simp add: ledger_of_def status_of_def GetJob_def)
  moreover have "id_ok (count (ld_checked (ledger_of y)) i) (count (ld_waiting (ledger_of y)) i) (count (ld_working (ledger_of y)) i)
      (ld_status (ledger_of y) i)"
    using assms(1) by (simp add: ledger_ok_def)
  ultimately have ok: "id_ok (count (ld_checked (ledger_of y)) i) (count (ld_waiting (ledger_of y)) i)
      (count (ld_working (ledger_of y)) i) (Some (j_Status j))"
    by simp
  have c: "i \<in># M \<longleftrightarrow> 0 < count M i" for M by simp
  show "j_Status j = JobStatusQueued \<longleftrightarrow> i \<in># ld_waiting (ledger_of y)"
    using ok unfolding c id_ok_def by blast
  show "j_Status j = JobStatusProcessing \<longleftrightarrow> i \<in># ld_working (ledger_of y)"
    using ok unfolding c id_ok_def by blast
  show "j_Status j \<noteq> JobStatusExpired" using ok unfolding id_ok_def by blast
qed

section \<open>Claims\<close>

text \<open>
  C6. However workers, requests, cleanup and shutdown interleave, the state stays well formed and
  no job is shared or lost: the stores and the queue keep their invariant, no id is in the queue
  twice, no two workers hold the same job and none holds a job that is still in the queue. A
  stored job is queued exactly when it waits for a worker (in the queue, about to be put there,
  or just taken), and processing exactly when a worker works on it.
\<close>

theorem reachable_well_formed:
  assumes "reachable s c files y" "cl_dir c = temp_dir s" "storage_wf (temp_dir s) files" "0 \<le> cfg_QueueSize (sv_cfg s)"
  shows "world_wf s (sy_world y) \<and> distinct (w_queue (sy_world y))
    \<and> (\<forall>k i. k < length (sy_workers y) \<and> pc_id (sy_workers y ! k) = Some i \<longrightarrow> i \<notin> set (w_queue (sy_world y))
        \<and> (\<forall>k' < length (sy_workers y). k \<noteq> k' \<longrightarrow> pc_id (sy_workers y ! k') \<noteq> Some i))
    \<and> (\<forall>i j. GetJob (sy_world y) i = Ok j \<longrightarrow> j_Status j \<noteq> JobStatusExpired
        \<and> (j_Status j = JobStatusQueued \<longleftrightarrow> i \<in> j_ID ` set (sy_created y) \<or> i \<in> set (w_queue (sy_world y))
             \<or> (\<exists>k < length (sy_workers y). i \<in># waits (sy_workers y ! k)))
        \<and> (j_Status j = JobStatusProcessing \<longleftrightarrow> (\<exists>k < length (sy_workers y). i \<in># works (sy_workers y ! k))))"
proof -
  have inv: "sys_wf s y" "ledger_ok (ledger_of y)" using reachable_inv [OF assms] by blast+
  have 1: "world_wf s (sy_world y)" using inv(1) by (simp add: sys_wf_def)
  have 2: "i \<notin> set (w_queue (sy_world y)) \<and> (\<forall>k' < length (sy_workers y). k \<noteq> k' \<longrightarrow> pc_id (sy_workers y ! k') \<noteq> Some i)"
    if "k < length (sy_workers y) \<and> pc_id (sy_workers y ! k) = Some i" for k i
    using exclusive_worker [OF inv(2), of k i] that by simp
  note 3 = stored_status [OF inv(2), unfolded ledger_members]
  show ?thesis
    by (intro conjI [OF 1] conjI [OF queue_distinct [OF inv(2)]] conjI allI impI 3) (rule 2 [THEN conjunct1] | rule 2 [THEN conjunct2, rule_format] | assumption)+
qed

text \<open>A concrete run for the witnesses: a request is checked, its job is created and queued; then the service shuts down.\<close>

definition wit_clean :: Cleanup where
  "wit_clean = NewCleanup ''/a'' 60"

definition wit_files :: "archive_out filesystem" where
  "wit_files = [(''/a'', DirNode)]"

definition wit_req :: ArchiveRequest where
  "wit_req = \<lparr>req_RootFolderID = ''r'', req_ArchiveName = ''Backup.zip'', req_ExportType = []\<rparr>"

definition wit_y0 :: System where
  "wit_y0 = sys_init wit_svc wit_files"

definition wit_y1 :: System where
  "wit_y1 = wit_y0\<lparr>sy_checked := [wit_job]\<rparr>"

definition wit_y2 :: System where
  "wit_y2 = wit_y1\<lparr>sy_world := (sy_world wit_y1)\<lparr>w_jobs := [(''job1'', wit_job)]\<rparr>, sy_checked := [], sy_created := [wit_job]\<rparr>"

definition wit_y3 :: System where
  "wit_y3 = wit_y2\<lparr>sy_world := (sy_world wit_y2)\<lparr>w_queue := [''job1'']\<rparr>, sy_created := []\<rparr>"

definition wit_y4 :: System where
  "wit_y4 = wit_y3\<lparr>sy_world := StopAccepting (sy_world wit_y3)\<rparr>\<lparr>sy_done := True\<rparr>\<lparr>sy_workers := [WStopped]\<rparr>"

lemmas wit_y_defs = wit_y4_def wit_y3_def wit_y2_def wit_y1_def wit_y0_def sys_init_def New_def NewMemoryStore_def
  NewPool_def wit_svc_def wit_cfg_def StopAccepting_def wit_clean_def NewCleanup_def

lemma wit_check: "checkRequest wit_svc 1 ''job1'' (sy_world wit_y0) wit_req = Ok wit_job"
proof -
  have "TrimSpace ''Backup.zip'' = ''Backup.zip''" by (simp add: TrimSpace_def IsSpace_def byte_def)
  then have "validateArchiveName ''Backup.zip'' = Ok ''Backup.zip''"
    by (simp add: validateArchiveName_def archiveNamePattern_def byte_def)
  then show ?thesis
    by (simp add: checkRequest_def wit_req_def wit_y_defs wit_repo_def validateRootFolderID_def validateExportType_def
        ExportTypeZip_def new_job_def wit_job_def)
qed

lemma wit_job_fields [simp]: "j_ID wit_job = ''job1''" "j_Status wit_job = JobStatusQueued"
  by (simp_all add: wit_job_def)

lemma wit_steps:
  "sys_step wit_svc wit_clean wit_y0 wit_y1" "sys_step wit_svc wit_clean wit_y1 wit_y2"
  "sys_step wit_svc wit_clean wit_y2 wit_y3"
proof -
  have "fresh_id wit_y0 ''job1''" by (simp add: fresh_id_def wit_y_defs store_Get_def pc_id_def)
  from request_check [OF wit_check this, of wit_clean] show "sys_step wit_svc wit_clean wit_y0 wit_y1"
    by (simp add: valid_id_def wit_y1_def) (simp add: wit_y_defs)
  have "store_Create (w_jobs (sy_world wit_y1)) wit_job = Ok [(''job1'', wit_job)]" by (simp add: store_Create_def wit_y_defs)
  from request_create [OF _ this, of wit_svc wit_clean] show "sys_step wit_svc wit_clean wit_y1 wit_y2"
    by (simp add: wit_y2_def) (simp add: wit_y_defs)
  from request_enqueue [of wit_job wit_y2 wit_svc wit_clean] show "sys_step wit_svc wit_clean wit_y2 wit_y3"
    by (simp add: wit_y_defs enqueue_def)
qed

lemma wit_shutdown_steps: "(sys_step wit_svc wit_clean)\<^sup>*\<^sup>* wit_y3 wit_y4"
proof -
  let ?a = "wit_y3\<lparr>sy_world := StopAccepting (sy_world wit_y3)\<rparr>" 
  have "sys_step wit_svc wit_clean wit_y3 ?a" by (rule shutdown_begin)
  moreover have "sys_step wit_svc wit_clean ?a (?a\<lparr>sy_done := True\<rparr>)"
    by (rule shutdown_cancel) (simp add: StopAccepting_def)
  moreover have "sys_step wit_svc wit_clean (?a\<lparr>sy_done := True\<rparr>) wit_y4"
    using worker_stop [of 0 "?a\<lparr>sy_done := True\<rparr>" wit_svc wit_clean] by (simp add: wit_y_defs)
  ultimately show ?thesis by (meson converse_rtranclp_into_rtranclp rtranclp.rtrancl_refl)
qed

lemma wit_reachable:
  "reachable wit_svc wit_clean wit_files wit_y1" "reachable wit_svc wit_clean wit_files wit_y3"
  "reachable wit_svc wit_clean wit_files wit_y4"
  using wit_steps wit_shutdown_steps unfolding reachable_def wit_y0_def [symmetric]
  by (meson rtranclp.rtrancl_into_rtrancl rtranclp.rtrancl_refl rtranclp_trans)+

lemma wit_run_conditions:
  "cl_dir wit_clean = temp_dir wit_svc" "storage_wf (temp_dir wit_svc) wit_files" "0 \<le> cfg_QueueSize (sv_cfg wit_svc)"
proof -
  show "storage_wf (temp_dir wit_svc) wit_files"
    using wit_world_wf by (simp add: world_wf_def wit_world_def wit_files_def)
qed (simp_all add: wit_clean_def NewCleanup_def wit_svc_def wit_cfg_def)

theorem reachable_well_formed_witness:
  "reachable wit_svc wit_clean wit_files wit_y3 \<and> w_queue (sy_world wit_y3) = [''job1'']
   \<and> world_wf wit_svc (sy_world wit_y3) \<and> GetJob (sy_world wit_y3) ''job1'' = Ok wit_job"
proof -
  have "GetJob (sy_world wit_y3) ''job1'' = Ok wit_job" "w_queue (sy_world wit_y3) = [''job1'']"
    by (simp_all add: GetJob_def store_Get_def wit_y_defs)
  with reachable_well_formed [OF wit_reachable(2) wit_run_conditions] wit_reachable(2) show ?thesis by blast
qed

text \<open>
  C7. The service implements the abstract life cycle of a job. Seen through the status of the
  stored jobs, it starts with none; every step of every goroutine is a step of the life cycle (a
  submission, a start from queued, an end from processing as completed or failed, a removal) or
  none at all; so no job skips a stage, goes back, or changes its outcome: as long as a job has a
  record, its status only grows in the order of the stages.
\<close>

theorem service_implements_lifecycle:
  assumes "reachable s c files y" "cl_dir c = temp_dir s" "storage_wf (temp_dir s) files" "0 \<le> cfg_QueueSize (sv_cfg s)"
    "sys_step s c y y'"
  shows "lifecycle\<^sup>*\<^sup>* (\<lambda>_. None) (status_of (w_jobs (sy_world y)))
    \<and> lifecycle (status_of (w_jobs (sy_world y))) (status_of (w_jobs (sy_world y')))
    \<and> (\<forall>i j j'. GetJob (sy_world y) i = Ok j \<and> GetJob (sy_world y') i = Ok j' \<longrightarrow> j_Status j \<le> j_Status j')"
proof -
  have inv: "sys_wf s y" "ledger_ok (ledger_of y)" "lifecycle\<^sup>*\<^sup>* (\<lambda>_. None) (status_of (w_jobs (sy_world y)))"
    using reachable_inv [OF assms(1-4)] by blast+
  have "service_inv s c y" using inv assms(2) by (simp add: service_inv_def)
  from service.composed.abs_step [OF this assms(5)]
  have l: "lifecycle (status_of (w_jobs (sy_world y))) (status_of (w_jobs (sy_world y')))" by (simp add: ledger_of_def)
  have "j_Status j \<le> j_Status j'" if "GetJob (sy_world y) i = Ok j" "GetJob (sy_world y') i = Ok j'" for i j j'
    by (rule lifecycle_mono [OF l, of i]) (use that in \<open>simp_all add: status_of_def GetJob_def\<close>)
  with l inv(3) show ?thesis by blast
qed

theorem service_implements_lifecycle_witness:
  "lifecycle\<^sup>*\<^sup>* (\<lambda>_. None) (status_of (w_jobs (sy_world wit_y1)))
   \<and> lifecycle (status_of (w_jobs (sy_world wit_y1))) (status_of (w_jobs (sy_world wit_y2)))
   \<and> status_of (w_jobs (sy_world wit_y2)) ''job1'' = Some JobStatusQueued"
proof -
  have "status_of (w_jobs (sy_world wit_y2)) ''job1'' = Some JobStatusQueued"
    by (simp add: status_of_def store_Get_def wit_y_defs)
  with service_implements_lifecycle [OF wit_reachable(1) wit_run_conditions wit_steps(2)] show ?thesis by blast
qed

text \<open>
  C24. Shutdown waits for the work in progress: once every worker has stopped, the service no longer
  accepts requests, no stored job is left in processing, and each one is completed, failed, or
  still queued because no worker took it (it is in the queue, or its request is about to put it
  there).
\<close>

theorem shutdown_leaves_no_job_processing:
  assumes "reachable s c files y" "cl_dir c = temp_dir s" "storage_wf (temp_dir s) files" "0 \<le> cfg_QueueSize (sv_cfg s)"
    "sy_workers y \<noteq> []" "\<forall>pc \<in> set (sy_workers y). pc = WStopped" "GetJob (sy_world y) i = Ok j"
  shows "\<not> w_accepting (sy_world y)
    \<and> (j_Status j \<in> {JobStatusCompleted, JobStatusFailed}
       \<or> j_Status j = JobStatusQueued \<and> (i \<in> set (w_queue (sy_world y)) \<or> i \<in> j_ID ` set (sy_created y)))"
proof -
  have inv: "ledger_ok (ledger_of y)" using reachable_inv [OF assms(1-4)] by blast
  have "WStopped \<in> set (sy_workers y)" using assms(5,6) by (cases "sy_workers y") auto
  then have acc: "\<not> w_accepting (sy_world y)" using reachable_shutdown [OF assms(1)] by (auto simp: shutdown_inv_def)
  have "waits (sy_workers y ! k) = {#} \<and> works (sy_workers y ! k) = {#}" if "k < length (sy_workers y)" for k
    using assms(6) nth_mem [OF that] by (auto simp: waits_def works_def pc_id_def)
  then have "\<not> (\<exists>k < length (sy_workers y). i \<in># waits (sy_workers y ! k))"
    "\<not> (\<exists>k < length (sy_workers y). i \<in># works (sy_workers y ! k))" by auto
  with stored_status [OF inv assms(7)] acc show ?thesis
    by (cases "j_Status j") (simp_all add: ledger_members, blast)
qed

theorem shutdown_leaves_no_job_processing_witness:
  "reachable wit_svc wit_clean wit_files wit_y4 \<and> sy_workers wit_y4 = [WStopped]
   \<and> \<not> w_accepting (sy_world wit_y4) \<and> GetJob (sy_world wit_y4) ''job1'' = Ok wit_job"
proof -
  have w: "sy_workers wit_y4 = [WStopped]" by (simp add: wit_y4_def)
  have g: "GetJob (sy_world wit_y4) ''job1'' = Ok wit_job" by (simp add: GetJob_def store_Get_def wit_y_defs)
  have "sy_workers wit_y4 \<noteq> []" "\<forall>pc \<in> set (sy_workers wit_y4). pc = WStopped" using w by simp_all
  from shutdown_leaves_no_job_processing [OF wit_reachable(3) wit_run_conditions this g]
  show ?thesis using w g wit_reachable(3) by blast
qed

end
