(* ===== verification/Logger.thy ===== *)
theory Logger
  imports Config
begin

text \<open>
  \<open>internal/logger\<close>: the level, the destination and the closer that the logging configuration
  selects. The records that are logged are not modelled.
\<close>

datatype Level = LevelDebug | LevelInfo | LevelWarn | LevelError

datatype logger_error = InvalidLogLevel string | UnknownLogOutput string

record lumberjack =
  lj_Filename :: string
  lj_MaxSize :: int
  lj_MaxBackups :: int
  lj_MaxAge :: int
  lj_Compress :: bool

datatype log_writer = Stdout | Stderr | Rotating lumberjack

datatype log_closer = nopCloser | CloseFile lumberjack

record slog =
  sl_level :: Level
  sl_writer :: log_writer

definition parseLevel :: "string \<Rightarrow> (logger_error, Level) result" where
  "parseLevel level =
     (if level \<in> {''debug'', ''DEBUG''} then Ok LevelDebug
      else if level \<in> {''info'', ''INFO'', []} then Ok LevelInfo
      else if level \<in> {''warn'', ''WARN'', ''warning'', ''WARNING''} then Ok LevelWarn
      else if level \<in> {''error'', ''ERROR''} then Ok LevelError
      else Err (InvalidLogLevel level))"

definition newLogger :: "LogConfig \<Rightarrow> (logger_error, slog \<times> log_closer) result" where
  "newLogger cfg =
     bind (parseLevel (lg_Level cfg)) (\<lambda>level.
       let lj = \<lparr>lj_Filename = lg_File cfg, lj_MaxSize = lg_MaxSizeMB cfg, lj_MaxBackups = lg_MaxBackups cfg,
                 lj_MaxAge = lg_MaxAgeDays cfg, lj_Compress = lg_Compress cfg\<rparr>
       in if lg_Output cfg = LogOutputStdout \<or> lg_Output cfg = [] then
            Ok (\<lparr>sl_level = level, sl_writer = Stdout\<rparr>, nopCloser)
          else if lg_Output cfg = LogOutputStderr then Ok (\<lparr>sl_level = level, sl_writer = Stderr\<rparr>, nopCloser)
          else if lg_Output cfg = LogOutputFile then Ok (\<lparr>sl_level = level, sl_writer = Rotating lj\<rparr>, CloseFile lj)
          else Err (UnknownLogOutput (lg_Output cfg)))"

text \<open>What the deferred \<open>Close\<close> does: nothing to the standard streams, and the file that was opened is closed.\<close>

definition closes :: "log_closer \<Rightarrow> log_writer set" where
  "closes c = (case c of nopCloser \<Rightarrow> {} | CloseFile lj \<Rightarrow> {Rotating lj})"

lemma newLogger_closes:
  "newLogger cfg = Ok (l, c) \<Longrightarrow> closes c = (if sl_writer l \<in> {Stdout, Stderr} then {} else {sl_writer l})"
  by (auto simp: newLogger_def closes_def Let_def split: if_splits)

end
