(* ===== verification/Startup.thy ===== *)
theory Startup
  imports Server Lifecycle Logger
begin

text \<open>
  \<open>cmd/server/main.go\<close> and \<open>repository.NewPool\<close>: the start of the service with every early return,
  the outcome of the goroutines it starts, and the shutdown sequence. The third-party pool
  (\<open>pgxpool\<close>) is a parameter: parsing the URL, building the pool, and the ping. So are the
  environment, the file system and the listener.
\<close>

section \<open>The database pool\<close>

record pool_config =
  pl_URL :: string
  pl_MaxConns :: int
  pl_MinConns :: int
  pl_MaxConnLifetime :: duration
  pl_MaxConnIdleTime :: duration

datatype pool_error = ParseDatabaseURL string | CreateConnectionPool string | PingDatabase string

record pgx_stack =
  px_ParseConfig :: "string \<Rightarrow> string option"
  px_NewWithConfig :: "pool_config \<Rightarrow> (string, pgxpool) result"
  px_Ping :: "string option"

definition newDatabasePool :: "pgx_stack \<Rightarrow> DatabaseConfig \<Rightarrow> (pool_error, pgxpool) result" where
  "newDatabasePool pgx cfg =
     (case px_ParseConfig pgx (db_URL cfg) of
        Some e \<Rightarrow> Err (ParseDatabaseURL e)
      | None \<Rightarrow>
          case px_NewWithConfig pgx \<lparr>pl_URL = db_URL cfg, pl_MaxConns = db_MaxConns cfg, pl_MinConns = db_MinConns cfg,
                 pl_MaxConnLifetime = db_MaxConnLifetime cfg, pl_MaxConnIdleTime = db_MaxConnIdleTime cfg\<rparr> of
            Inl e \<Rightarrow> Err (CreateConnectionPool e)
          | Inr pool \<Rightarrow> (case px_Ping pgx of Some e \<Rightarrow> Err (PingDatabase e) | None \<Rightarrow> Ok pool))"

section \<open>Starting\<close>

record boot_env =
  bt_godotenv :: "environment \<Rightarrow> dotenv"
  bt_url_Parse :: "string \<Rightarrow> (string \<times> string) option"
  bt_env :: environment
  bt_pgx :: pgx_stack
  bt_mkdir :: "os_error option"
  bt_files :: "archive_out filesystem"
  bt_listen :: "string \<Rightarrow> string option"
  bt_uuid_parse :: uuid_canon
  bt_upper_lower :: "nat \<Rightarrow> nat"

datatype run_error =
    LoadConfigErr config_error
  | InitLogger logger_error
  | ConnectDatabase pool_error
  | InitArchiveStorage storage_error
  | LoadStorageServers repo_error
  | ListenErr string string

record running =
  rn_cfg :: Config
  rn_log :: "slog \<times> log_closer"
  rn_client :: httpStorageClient
  rn_service :: ArchiveService
  rn_cleanup :: Cleanup
  rn_system :: System
  rn_addr :: string

definition boot :: "boot_env \<Rightarrow> (run_error, running) result" where
  "boot b =
     (case Load (bt_godotenv b) (bt_url_Parse b) (bt_env b) of
        Inl e \<Rightarrow> Err (LoadConfigErr e)
      | Inr cfg \<Rightarrow>
     case newLogger (c_Log cfg) of
        Inl e \<Rightarrow> Err (InitLogger e)
      | Inr lgr \<Rightarrow>
     case newDatabasePool (bt_pgx b) (c_Database cfg) of
        Inl e \<Rightarrow> Err (ConnectDatabase e)
      | Inr dbPool \<Rightarrow>
     case NewLocalArchiveStorage (cfg_TempDir (c_Archive cfg)) (bt_mkdir b) (bt_files b) of
        Inl e \<Rightarrow> Err (InitArchiveStorage e)
      | Inr (dir, files) \<Rightarrow>
     case ListServers dbPool of
        Inl e \<Rightarrow> Err (LoadStorageServers e)
      | Inr storageServers \<Rightarrow>
          let service = \<lparr>sv_repo = NewArchiveRepository dbPool, sv_cfg = c_Archive cfg,
                         sv_uuid_parse = bt_uuid_parse b, sv_upper_lower = bt_upper_lower b\<rparr>
          in case bt_listen b (Addr (c_Server cfg)) of
               Some e \<Rightarrow> Err (ListenErr (Addr (c_Server cfg)) e)
             | None \<Rightarrow>
                 Ok \<lparr>rn_cfg = cfg, rn_log = lgr, rn_client = NewHTTPStorageClient (server_map storageServers Map.empty),
                     rn_service = service, rn_cleanup = NewCleanup dir (cfg_Expiry (c_Archive cfg)),
                     rn_system = sys_init service files, rn_addr = Addr (c_Server cfg)\<rparr>)"

text \<open>
  \<open>time.NewTicker\<close> in the cleanup goroutine panics on an interval that is not positive, which ends
  the whole process.
\<close>

datatype run_outcome = StartFailed run_error | CleanupPanics running | Serving running

definition start :: "boot_env \<Rightarrow> run_outcome" where
  "start b =
     (case boot b of
        Inl e \<Rightarrow> StartFailed e
      | Inr r \<Rightarrow> if cfg_CleanupInterval (c_Archive (rn_cfg r)) \<le> 0 then CleanupPanics r else Serving r)"

text \<open>\<open>main\<close> prints an error of \<open>run\<close> and exits with status 1.\<close>

definition main_exit :: "(string, unit) result \<Rightarrow> int" where
  "main_exit res = (case res of Inl e \<Rightarrow> 1 | Inr _ \<Rightarrow> 0)"

section \<open>Shutting down\<close>

datatype shutdown_log =
    AllWorkersStopped
  | ShutdownTimeoutExceeded
  | HTTPShutdownError string
  | ShutdownComplete

text \<open>
  The sequence of \<open>shutdown\<close>: stop accepting, cancel, wait for the workers and the cleanup within
  the timeout, close the server. \<open>rest\<close> is what the goroutines do to the state while it waits.
\<close>

definition shutdown_state :: "System \<Rightarrow> System" where
  "shutdown_state y = (y\<lparr>sy_world := StopAccepting (sy_world y)\<rparr>)\<lparr>sy_done := True\<rparr>"

definition workers_done :: "System \<Rightarrow> bool" where
  "workers_done y \<longleftrightarrow> list_all (\<lambda>pc. pc = WStopped) (sy_workers y)"

definition shutdown ::
  "(System \<Rightarrow> System) \<Rightarrow> string option \<Rightarrow> System \<Rightarrow> System \<times> shutdown_log list" where
  "shutdown rest httpErr y =
     (let y' = rest (shutdown_state y)
      in (y', (if workers_done y' then [AllWorkersStopped] else [ShutdownTimeoutExceeded])
              @ (case httpErr of Some e \<Rightarrow> [HTTPShutdownError e] | None \<Rightarrow> [])
              @ [ShutdownComplete]))"

section \<open>Lemmas\<close>

lemma ancestors_length: "p \<in> set (ancestors seen t) \<Longrightarrow> length p \<le> length seen + length t"
  by (induction seen t rule: ancestors.induct) (auto split: if_splits)

lemma ancestors_child:
  assumes "p \<in> set (ancestors [] (Clean dir))" "child_name dir p = Some n"
  shows "\<not> archive_name n"
proof (cases "Clean dir = ''.''")
  case True
  then have "p = ''.''" using assms(1) by simp
  then have "n = ''.''" using assms(2) True by (simp add: child_name_def dir_prefix_def HasPrefix_def split: if_splits)
  then show ?thesis by (simp add: archive_name_def HasSuffix_def tempSuffix_def finalSuffix_def suffix_def)
next
  case False
  have "p = dir_prefix dir @ n" "n \<noteq> []" using child_name_SomeD [OF assms(2)] by auto
  moreover have "length (Clean dir) \<le> length (dir_prefix dir)" using False by (simp add: dir_prefix_def Let_def)
  ultimately show ?thesis using ancestors_length [OF assms(1)] by (cases n) auto
qed

lemma storage_wf_add_dir:
  assumes "storage_wf dir fs" "\<And>n. child_name dir p = Some n \<Longrightarrow> \<not> archive_name n"
  shows "storage_wf dir (AList.update p DirNode fs)"
  using assms distinct_update [of fs p DirNode]
  by (auto simp: storage_wf_def list_all_iff dest!: set_AList_update split: option.splits)

lemma NewLocalArchiveStorage_wf:
  assumes "NewLocalArchiveStorage dir f fs = Ok (d, fs')" "storage_wf dir fs"
  shows "d = dir" "storage_wf dir fs'"
proof -
  have "storage_wf dir (fold (\<lambda>p fs. if map_of fs p = None then AList.update p DirNode fs else fs) ps fs0)"
    if "set ps \<subseteq> set (ancestors [] (Clean dir))" "storage_wf dir fs0" for ps and fs0 :: "'a filesystem"
    using that
  proof (induction ps arbitrary: fs0)
    case (Cons p ps)
    then have "storage_wf dir (AList.update p DirNode fs0)" by (intro storage_wf_add_dir) (auto dest: ancestors_child)
    then show ?case using Cons by simp
  qed simp
  then show "d = dir" "storage_wf dir fs'"
    using assms by (auto simp: NewLocalArchiveStorage_def os_MkdirAll_def Let_def split: option.splits if_splits sum.splits)
qed

lemma loadLog_values:
  assumes "loadLog env = Ok c"
  shows "lg_Level c = getString env ''LOG_LEVEL'' ''info''" "lg_Output c = getString env ''LOG_OUTPUT'' ''stdout''"
  using assms by (auto simp: loadLog_def)

lemma boot_Ok:
  assumes "boot b = Ok r"
  shows "Load (bt_godotenv b) (bt_url_Parse b) (bt_env b) = Ok (rn_cfg r)"
    "\<exists>files. NewLocalArchiveStorage (cfg_TempDir (c_Archive (rn_cfg r))) (bt_mkdir b) (bt_files b)
        = Ok (cl_dir (rn_cleanup r), files) \<and> rn_system r = sys_init (rn_service r) files"
    "sv_cfg (rn_service r) = c_Archive (rn_cfg r)" "rn_addr r = Addr (c_Server (rn_cfg r))"
    "\<exists>l. newLogger (c_Log (rn_cfg r)) = Ok l \<and> rn_log r = l"
  using assms by (auto simp: boot_def Let_def NewCleanup_def split: sum.splits option.splits)

text \<open>The shutdown is a sequence of the service's own steps.\<close>

lemma shutdown_state_steps: "(sys_step s c)\<^sup>*\<^sup>* y (shutdown_state y)"
proof -
  let ?a = "y\<lparr>sy_world := StopAccepting (sy_world y)\<rparr>"
  have "sys_step s c y ?a" by (rule shutdown_begin)
  moreover have "sys_step s c ?a (?a\<lparr>sy_done := True\<rparr>)" by (rule shutdown_cancel) (simp add: StopAccepting_def)
  ultimately show ?thesis
    unfolding shutdown_state_def by (meson converse_rtranclp_into_rtranclp rtranclp.rtrancl_refl)
qed

section \<open>Claims\<close>


definition wit_pool :: pgxpool where
  "wit_pool = \<lparr>q_folderExists = (\<lambda>_. Ok True), q_folderTree = (\<lambda>_. Err ''down''), q_filesPage = (\<lambda>_ _ _ _. Err ''down''),
     q_servers = Ok ([Ok \<lparr>ss_HostAddress = ''http://s'', ss_APIKey = ''K''\<rparr>], None)\<rparr>"

definition wit_boot :: boot_env where
  "wit_boot = \<lparr>bt_godotenv = (\<lambda>_. DotenvAbsent), bt_url_Parse = wit_url_Parse, bt_env = wit_env,
     bt_pgx = \<lparr>px_ParseConfig = (\<lambda>_. None), px_NewWithConfig = (\<lambda>_. Ok wit_pool), px_Ping = None\<rparr>, bt_mkdir = None,
     bt_files = wit_files, bt_listen = (\<lambda>_. None), bt_uuid_parse = Some, bt_upper_lower = (\<lambda>r. r)\<rparr>"

lemma wit_boot_Ok:
  "\<exists>r. boot wit_boot = Ok r \<and> cfg_TempDir (c_Archive (rn_cfg r)) = ''/a'' \<and> cfg_CleanupInterval (c_Archive (rn_cfg r)) = 0"
proof -
  obtain c where c: "Load (\<lambda>_. DotenvAbsent) wit_url_Parse wit_env = Ok c" "cfg_TempDir (c_Archive c) = ''/a''"
    "cfg_CleanupInterval (c_Archive c) = 0"
    using wit_load by auto
  have "loadLog wit_env = Ok (c_Log c)" using Load_Ok(3) [OF c(1)] by (simp add: effective_env_def)
  then have "lg_Level (c_Log c) = getString wit_env ''LOG_LEVEL'' ''info''"
    "lg_Output (c_Log c) = getString wit_env ''LOG_OUTPUT'' ''stdout''"
    by (simp_all add: loadLog_values)
  then have "lg_Level (c_Log c) = ''info''" "lg_Output (c_Log c) = ''stdout''"
    by (simp_all add: getString_def wit_env_def)
  then obtain l where l: "newLogger (c_Log c) = Ok l"
    by (simp add: newLogger_def bind_def parseLevel_def LogOutputStdout_def Let_def)
  obtain files where f: "NewLocalArchiveStorage ''/a'' None wit_files = Ok (''/a'', files)"
    by (simp add: NewLocalArchiveStorage_def os_MkdirAll_def wit_files_def Clean_def clean_loop.simps at_end_def take_elem_def
        drop_elem_def Let_def)
  have s: "ListServers wit_pool = Ok [\<lparr>ss_HostAddress = ''http://s'', ss_APIKey = ''K''\<rparr>]"
    by (simp add: ListServers_def wit_pool_def)
  show ?thesis using c l f s by (simp add: boot_def wit_boot_def newDatabasePool_def Let_def)
qed



end
