(* ===== verification/Interference.thy ===== *)
theory Interference
  imports Lifecycle
begin

text \<open>
  What the goroutines can do to a job that is not theirs. A worker touches only the record, the
  files and the tokens of the job it holds, and the cleanup only those of the job it is about to
  remove; so a finished job keeps its record, its archive and its token until the cleanup
  removes it.
\<close>

section \<open>What a step leaves alone\<close>

text \<open>The part of the shared state that belongs to one job, and the verdict on one of its tokens.\<close>

definition same_state :: "string \<Rightarrow> string \<Rightarrow> World \<Rightarrow> World \<Rightarrow> bool" where
  "same_state dir i w w' \<longleftrightarrow> store_Get (w_jobs w') i = store_Get (w_jobs w) i
     \<and> temp_of dir (w_files w') i = temp_of dir (w_files w) i \<and> final_of dir (w_files w') i = final_of dir (w_files w) i"

definition same_verdict :: "string \<Rightarrow> string \<Rightarrow> World \<Rightarrow> World \<Rightarrow> bool" where
  "same_verdict i tok w w' \<longleftrightarrow> (\<forall>t. token_Validate (w_tokens w') t i tok = token_Validate (w_tokens w) t i tok)"

lemma same_simps [simp]:
  "same_state dir i w w" "same_state dir i w (w\<lparr>w_queue := q\<rparr>)" "same_state dir i w (w\<lparr>w_accepting := a\<rparr>)"
  "same_state dir i w (w\<lparr>w_tokens := ts\<rparr>)"
  "same_verdict i tok w w" "same_verdict i tok w (w\<lparr>w_queue := q\<rparr>)" "same_verdict i tok w (w\<lparr>w_accepting := a\<rparr>)"
  "same_verdict i tok w (w\<lparr>w_jobs := jobs\<rparr>)" "same_verdict i tok w (w\<lparr>w_files := fs\<rparr>)"
  by (simp_all add: same_state_def same_verdict_def)

lemma same_trans:
  "same_state dir i w w1 \<Longrightarrow> same_state dir i w1 w2 \<Longrightarrow> same_state dir i w w2"
  "same_verdict i tok w w1 \<Longrightarrow> same_verdict i tok w1 w2 \<Longrightarrow> same_verdict i tok w w2"
  by (simp_all add: same_state_def same_verdict_def)

lemma same_state_jobs: "same_state dir i w (w\<lparr>w_jobs := jobs\<rparr>) \<longleftrightarrow> store_Get jobs i = store_Get (w_jobs w) i"
  by (simp add: same_state_def)

lemma same_state_files:
  "same_state dir i w (w\<lparr>w_files := fs\<rparr>) \<longleftrightarrow>
     temp_of dir fs i = temp_of dir (w_files w) i \<and> final_of dir fs i = final_of dir (w_files w) i"
  by (simp add: same_state_def)

lemma same_verdict_tokens:
  "same_verdict i tok w (w\<lparr>w_tokens := ts\<rparr>) \<longleftrightarrow> (\<forall>t. token_Validate ts t i tok = token_Validate (w_tokens w) t i tok)"
  by (simp add: same_verdict_def)

lemmas same_state_parts = same_state_jobs same_state_files

text \<open>A token is not drawn for another job while it is watched.\<close>

definition owned_by :: "string \<Rightarrow> string \<Rightarrow> World \<Rightarrow> bool" where
  "owned_by i tok w \<longleftrightarrow> (\<forall>e. w_tokens w tok = Some e \<longrightarrow> te_jobID e = i)"

lemma issue_other:
  assumes "token_Issue ts rnd now k ttl = Ok (t', ts')" "k \<noteq> i" "\<And>e. ts' tok = Some e \<Longrightarrow> te_jobID e = i"
  shows "token_Validate ts' t i tok = token_Validate ts t i tok"
proof -
  have "tok \<noteq> t'"
  proof
    assume "tok = t'"
    then have "ts' tok = Some \<lparr>te_jobID = k, te_expiresAt = now + ttl\<rparr>"
      using assms(1) by (auto simp: token_Issue_def Let_def split: sum.splits)
    from assms(3) [OF this] assms(2) show False by simp
  qed
  from tok.issue_old [OF assms(1) this] show ?thesis .
qed

lemma job_step_same_state:
  assumes "job_step s px pc w = Some (pc', w')" "world_wf s w" "pc_ok pc" "pc_id pc \<noteq> Some i" "valid_id i"
  shows "same_state (temp_dir s) i w w'"
proof -
  note W = world_wfD(2) [OF assms(2)]
  have v: "valid_id k" if "pc_id pc = Some k" for k using assms(3) that by (simp add: pc_ok_def)
  have wr: "same_state (temp_dir s) i w w1" if "pc_id pc = Some (j_ID j)" "returns s j out e w = (p, w1)" for j out e p w1
    using loc.write_views [OF W v [OF that(1)] assms(5)] that assms(4) by (auto simp: returns_def same_state_files)
  show ?thesis
  proof (cases "(s, px, pc, w)" rule: job_step.cases)
    case (5 _ _ j m)
    then show ?thesis
      using assms v loc.create_views [OF W _ assms(5), of "j_ID j"] by (auto simp: pc_id_def same_state_parts split: sum.splits)
  next
    case (6 _ _ j f fs ds aw b n)
    then show ?thesis using assms(1) wr [of j] by (auto simp: pc_id_def split: option.splits prod.splits)
  next
    case (9 _ _ j d ds aw)
    then show ?thesis using assms(1) wr [of j] by (auto simp: pc_id_def split: option.splits prod.splits)
  next
    case (10 _ _ j aw)
    then show ?thesis using assms(1) wr [of j] by (auto simp: pc_id_def split: sum.splits)
  next
    case (14 _ _ j)
    then show ?thesis
      using assms v loc.rename_views [OF W _ assms(5), of "j_ID j"] by (auto simp: pc_id_def same_state_parts split: sum.splits)
  next
    case (15 _ _ j)
    then show ?thesis
      using assms v loc.remove_other [OF W _ assms(5), of "j_ID j" "px_delete px"] by (auto simp: pc_id_def same_state_parts)
  qed (use assms in \<open>auto simp: pc_id_def same_state_parts mem.get_update mem.get_persist Let_def
      split: sum.splits option.splits if_splits\<close>)
qed

lemma job_step_same_verdict:
  assumes "job_step s px pc w = Some (pc', w')" "pc_id pc \<noteq> Some i" "owned_by i tok w'"
  shows "same_verdict i tok w w'"
proof (cases "\<exists>j. pc = WIssue j")
  case True
  then obtain j where j: "pc = WIssue j" by blast
  show ?thesis
    using assms j issue_other [of "w_tokens w" "px_rand px" "px_issue px" "j_ID j" "cfg_Expiry (sv_cfg s)" _ "w_tokens w'" i tok]
    by (auto simp: pc_id_def same_verdict_tokens owned_by_def split: sum.splits)
next
  case False
  then have "w_tokens w' = w_tokens w"
    using assms(1) by (cases "(s, px, pc, w)" rule: job_step.cases)
      (auto simp: returns_def Let_def split: sum.splits option.splits if_splits prod.splits)
  then show ?thesis by (simp add: same_verdict_def)
qed

text \<open>The job that the next step of the cleanup would take something from.\<close>

fun cleanup_target :: "Cleanup \<Rightarrow> sweep_pc \<Rightarrow> string option" where
  "cleanup_target c (SwExpire now (j # js) tracked) = (if isExpired c j now then Some (j_ID j) else None)"
| "cleanup_target c (SwRevoke now i js tracked) = Some i"
| "cleanup_target c (SwForget now i js tracked) = Some i"
| "cleanup_target c (SwOrphans tracked (i # is)) = (if i \<in> set tracked then None else Some i)"
| "cleanup_target c _ = None"

lemma sweep_step_same:
  assumes "sweep_step c sx pc w = Some (pc', w')" "cl_dir c = temp_dir s" "world_wf s w" "sweep_ok pc"
    "cleanup_target c pc \<noteq> Some i" "valid_id i"
  shows "same_state (temp_dir s) i w w'" "same_verdict i tok w w'"
proof -
  have r: "same_state (temp_dir s) i w (w\<lparr>w_files := snd (local_Delete (cl_dir c) f (w_files w) k)\<rparr>)"
    if "valid_id k" "i \<noteq> k" for f k
    using loc.remove_other [OF world_wfD(2) [OF assms(3)] that(1) assms(6) that(2)] assms(2) by (simp add: same_state_files)
  show "same_state (temp_dir s) i w w'"
    using assms(1,4,5) r [of _ "sx_remove sx i" for i] r [of _ "sx_orphan sx i" for i]
    by (cases "(c, sx, pc, w)" rule: sweep_step.cases)
      (auto simp: same_state_jobs mem.get_remove [OF world_wfD(1) [OF assms(3)]] split: if_splits sum.splits)
  show "same_verdict i tok w w'"
    using assms(1,5) by (cases "(c, sx, pc, w)" rule: sweep_step.cases)
      (auto simp: same_verdict_tokens tok.revoke_other split: if_splits sum.splits)
qed

section \<open>A finished job\<close>

definition finished :: "string \<Rightarrow> World \<Rightarrow> bool" where
  "finished i w \<longleftrightarrow> (\<exists>j. store_Get (w_jobs w) i = Ok j \<and> j_Status j \<in> {JobStatusCompleted, JobStatusFailed})"

definition sparing :: "ArchiveService \<Rightarrow> Cleanup \<Rightarrow> string \<Rightarrow> string \<Rightarrow> System \<Rightarrow> System \<Rightarrow> bool" where
  "sparing s c i tok y y' \<longleftrightarrow> sys_step s c y y' \<and> cleanup_target c (sy_sweep y) \<noteq> Some i \<and> owned_by i tok (sy_world y')"

lemma finished_not_held:
  assumes "ledger_ok (ledger_of y)" "finished i (sy_world y)"
  shows "i \<notin># ld_waiting (ledger_of y)" "i \<notin># ld_working (ledger_of y)"
proof -
  obtain j where j: "GetJob (sy_world y) i = Ok j" "j_Status j \<in> {JobStatusCompleted, JobStatusFailed}"
    using assms(2) by (auto simp: finished_def GetJob_def)
  show "i \<notin># ld_waiting (ledger_of y)" using stored_status(1) [OF assms(1) j(1)] j(2) by auto
  show "i \<notin># ld_working (ledger_of y)" using stored_status(2) [OF assms(1) j(1)] j(2) by auto
qed

lemma finished_no_worker:
  assumes "ledger_ok (ledger_of y)" "finished i (sy_world y)" "k < length (sy_workers y)"
  shows "pc_id (sy_workers y ! k) \<noteq> Some i"
proof
  assume "pc_id (sy_workers y ! k) = Some i"
  from worker_ids [OF this] have "i \<in># waits (sy_workers y ! k) + works (sy_workers y ! k)" by simp
  then have "i \<in># waits (sy_workers y ! k) \<or> i \<in># works (sy_workers y ! k)" by simp
  then show False using finished_not_held [OF assms(1,2)] assms(3) unfolding ledger_members by blast
qed

lemma step_same:
  assumes "sparing s c i tok y y'" "service_inv s c y" "finished i (sy_world y)"
  shows "same_state (temp_dir s) i (sy_world y) (sy_world y') \<and> same_verdict i tok (sy_world y) (sy_world y')"
proof -
  have inv: "cl_dir c = temp_dir s" "sys_wf s y" "ledger_ok (ledger_of y)" using assms(2) by (simp_all add: service_inv_def)
  have wf: "world_wf s (sy_world y)" "sweep_ok (sy_sweep y)" "list_all pc_ok (sy_workers y)" using inv(2) by (simp_all add: sys_wf_def)
  obtain j where j: "store_Get (w_jobs (sy_world y)) i = Ok j" using assms(3) by (auto simp: finished_def)
  have v: "valid_id i" using world_wfD(4) [OF wf(1) j] .
  have st: "sys_step s c y y'" and tg: "cleanup_target c (sy_sweep y) \<noteq> Some i" and ow: "owned_by i tok (sy_world y')"
    using assms(1) by (simp_all add: sparing_def)
  from st show ?thesis
  proof (cases rule: sys_step.cases)
    case (request_create j' jobs)
    have "j_ID j' \<noteq> i" using mem.create_iff [of "w_jobs (sy_world y)" j'] request_create(3) j by auto
    then show ?thesis using request_create mem.get_create [OF request_create(3), of i] by (simp add: same_state_jobs)
  next
    case (request_enqueue j')
    have "j_ID j' \<noteq> i" using finished_not_held(1) [OF inv(3) assms(3)] request_enqueue(2) unfolding ledger_members by blast
    then show ?thesis
      using request_enqueue mem.get_remove [OF world_wfD(1) [OF wf(1)], of "j_ID j'" i] by (simp add: enqueue_def same_state_jobs)
  next
    case (worker_receive k i' w')
    then show ?thesis by (auto simp: Queue_receive_def split: list.splits)
  next
    case (worker_step k px pc' w')
    have "pc_ok (sy_workers y ! k)" using wf(3) worker_step(2) by (simp add: list_all_length)
    note p = finished_no_worker [OF inv(3) assms(3) worker_step(2)]
    show ?thesis
      using job_step_same_state [OF worker_step(3) wf(1) \<open>pc_ok _\<close> p v] job_step_same_verdict [OF worker_step(3) p, of tok]
        ow worker_step(1) by simp
  next
    case (cleanup_step sx sw' w')
    show ?thesis using sweep_step_same [OF cleanup_step(2) inv(1) wf(1,2) tg v] cleanup_step(1) by simp
  qed (simp_all add: StopAccepting_def)
qed

lemma finished_same: "same_state dir i w w' \<Longrightarrow> finished i w \<Longrightarrow> finished i w'"
  by (simp add: same_state_def finished_def)

text \<open>Runs that spare the job: an invariant of the service together with what was there at the start.\<close>

interpretation spared: transition_system
  "\<lambda>y. y = y0 \<and> service_inv s c y \<and> finished i (sy_world y)" "sparing s c i tok"
  "\<lambda>y. service_inv s c y \<and> finished i (sy_world y) \<and> same_state (temp_dir s) i (sy_world y0) (sy_world y)
     \<and> same_verdict i tok (sy_world y0) (sy_world y)"
proof
  fix y y'
  assume y: "service_inv s c y \<and> finished i (sy_world y) \<and> same_state (temp_dir s) i (sy_world y0) (sy_world y)
      \<and> same_verdict i tok (sy_world y0) (sy_world y)"
    and st: "sparing s c i tok y y'"
  have "same_state (temp_dir s) i (sy_world y) (sy_world y') \<and> same_verdict i tok (sy_world y) (sy_world y')"
    using step_same [OF st] y by blast
  moreover have "service_inv s c y'" using y st service.lower.step_inv by (auto simp: sparing_def)
  ultimately show "service_inv s c y' \<and> finished i (sy_world y') \<and> same_state (temp_dir s) i (sy_world y0) (sy_world y')
      \<and> same_verdict i tok (sy_world y0) (sy_world y')"
    using y finished_same same_trans by metis
qed simp

section \<open>Claims\<close>

text \<open>
  C12. Nothing but the cleanup takes a finished job away. However requests, workers, shutdown and
  the cleanup of other jobs interleave after a job is completed or failed, its record stays as it
  is, its download token is judged as before, and its archive opens with the same contents; the
  only conditions are that the cleanup is never about to remove this job and that its token is
  not drawn again for another job.
\<close>

theorem finished_job_stable:
  assumes "reachable s c files y" "cl_dir c = temp_dir s" "storage_wf (temp_dir s) files" "0 \<le> cfg_QueueSize (sv_cfg s)"
    "GetJob (sy_world y) i = Ok j" "j_Status j \<in> {JobStatusCompleted, JobStatusFailed}" "(sparing s c i tok)\<^sup>*\<^sup>* y y'"
  shows "GetJob (sy_world y') i = Ok j
    \<and> ValidateDownloadToken (sy_world y') t i tok = ValidateDownloadToken (sy_world y) t i tok
    \<and> OpenArchive s None (sy_world y') i = OpenArchive s None (sy_world y) i"
proof -
  have inv: "service_inv s c y" using reachable_inv [OF assms(1-4)] assms(2) by (simp add: service_inv_def)
  have f: "finished i (sy_world y)" using assms(5,6) by (auto simp: finished_def GetJob_def)
  have y': "service_inv s c y'" "same_state (temp_dir s) i (sy_world y) (sy_world y')"
    "same_verdict i tok (sy_world y) (sy_world y')"
    using spared.from_start_inv [OF _ assms(7), of y] inv f by blast+
  have W: "storage_wf (temp_dir s) (w_files (sy_world y))" "storage_wf (temp_dir s) (w_files (sy_world y'))" "valid_id i"
    using inv y'(1) assms(5) world_wfD(4) [of s "sy_world y" i j] by (simp_all add: service_inv_def sys_wf_def world_wf_def GetJob_def)
  show ?thesis
    using y'(2,3) assms(5) loc.open_none [OF W(1,3)] loc.open_none [OF W(2,3)]
    by (simp add: same_state_def same_verdict_def GetJob_def ValidateDownloadToken_def OpenArchive_def)
qed

text \<open>A worker that runs undisturbed, as steps of the service.\<close>

lemma worker_run_steps:
  assumes "\<And>y pc' w' y'. I y \<Longrightarrow> k < length (sy_workers y) \<Longrightarrow> job_step s px (sy_workers y ! k) (sy_world y) = Some (pc', w') \<Longrightarrow>
    y' = y\<lparr>sy_world := w', sy_workers := (sy_workers y)[k := pc']\<rparr> \<Longrightarrow> R y y' \<and> I y'"
  shows "run_for (job_step s px) n (sy_workers y ! k) (sy_world y) = Some (pc', w') \<Longrightarrow> k < length (sy_workers y) \<Longrightarrow> I y \<Longrightarrow>
    R\<^sup>*\<^sup>* y (y\<lparr>sy_world := w', sy_workers := (sy_workers y)[k := pc']\<rparr>)"
proof (induction n arbitrary: y)
  case 0
  then show ?case by (auto split: option.splits)
next
  case (Suc n)
  show ?case
  proof (cases "job_step s px (sy_workers y ! k) (sy_world y)")
    case None
    then show ?thesis using Suc.prems by auto
  next
    case (Some p)
    obtain pc1 w1 where p: "p = (pc1, w1)" by (cases p)
    let ?y1 = "y\<lparr>sy_world := w1, sy_workers := (sy_workers y)[k := pc1]\<rparr>"
    have y1: "R y ?y1" "I ?y1" using assms [OF Suc.prems(3,2) Some [unfolded p] refl] by blast+
    moreover have "R\<^sup>*\<^sup>* ?y1 (y\<lparr>sy_world := w', sy_workers := (sy_workers y)[k := pc']\<rparr>)"
      using Suc.IH [of ?y1] Suc.prems Some p y1(2) by simp
    ultimately show ?thesis by (simp add: converse_rtranclp_into_rtranclp)
  qed
qed

text \<open>A worker that takes a job and returns from it undisturbed, if the steps keep to a relation with an invariant.\<close>

lemma worker_processes:
  assumes "\<And>y pc' w' y'. I y \<Longrightarrow> k < length (sy_workers y) \<Longrightarrow> job_step s px (sy_workers y ! k) (sy_world y) = Some (pc', w') \<Longrightarrow>
      y' = y\<lparr>sy_world := w', sy_workers := (sy_workers y)[k := pc']\<rparr> \<Longrightarrow> R y y' \<and> I y'"
    "k < length (sy_workers y)" "sy_workers y ! k = WIdle" "ProcessJob s px w i = Returned w'"
    "R y (y\<lparr>sy_world := w, sy_workers := (sy_workers y)[k := WTaken i]\<rparr>)"
    "I (y\<lparr>sy_world := w, sy_workers := (sy_workers y)[k := WTaken i]\<rparr>)"
  shows "R\<^sup>*\<^sup>* y (y\<lparr>sy_world := w'\<rparr>)"
proof -
  let ?y1 = "y\<lparr>sy_world := w, sy_workers := (sy_workers y)[k := WTaken i]\<rparr>"
  obtain pc2 w2 where r: "run_ends (job_step s px) (WTaken i) w pc2 w2" using job.run_ends_exists by blast
  then have e: "pc2 = WIdle" "w2 = w'" using run_taken [OF r] assms(4) by (simp_all add: stuck_outcome_def)
  obtain n where n: "run_for (job_step s px) n (WTaken i) w = Some (WIdle, w')" using r e by (auto simp: run_ends_def)
  have "R\<^sup>*\<^sup>* ?y1 (?y1\<lparr>sy_world := w', sy_workers := (sy_workers ?y1)[k := WIdle]\<rparr>)"
    by (rule worker_run_steps [of I k s px R n, OF assms(1)]) (use n assms(2,6) in auto)
  moreover have "(sy_workers y)[k := WIdle] = sy_workers y" using assms(3) by (metis list_update_id)
  ultimately show ?thesis using assms(5) by (simp add: converse_rtranclp_into_rtranclp)
qed

text \<open>The run of the witness goes on: the worker takes the job and completes it.\<close>

lemma wit_y3_world: "sy_world wit_y3 = wit_world"
  by (simp add: wit_y_defs wit_world_def wit_files_def)

lemma wit_receive:
  "Queue_receive (sy_world wit_y3) = Some (''job1'', wit_world\<lparr>w_queue := []\<rparr>)" "0 < length (sy_workers wit_y3)"
  "sy_workers wit_y3 ! 0 = WIdle"
  by (simp_all add: wit_y3_world Queue_receive_def wit_world_def) (simp_all add: wit_y_defs)

lemma wit_returns:
  assumes "world_wf wit_svc w" "store_Get (w_jobs w) ''job1'' = Ok wit_job"
  shows "\<exists>w' j. ProcessJob wit_svc wit_px w ''job1'' = Returned w' \<and> store_Get (w_jobs w') ''job1'' = Ok j \<and> j_Status j = JobStatusCompleted"
proof -
  have "\<exists>out pr. Generate (NewGenerator (cfg_MaxSizeBytes (sv_cfg wit_svc))) (px_gen wit_px) wit_manifest = (out, pr, None)"
    by (rule Generate_quiet [OF wit_ready])
      (simp_all add: NewGenerator_def wit_svc_def wit_cfg_def wit_manifest_def wit_file_def)
  then show ?thesis
    using ProcessJob_quiet [OF assms wit_built _ wit_px_quiet] by (auto simp: wit_svc_def wit_cfg_def wit_manifest_def)
qed

lemma wit_processed:
  "\<exists>w j out. ProcessJob wit_svc wit_px (wit_world\<lparr>w_queue := []\<rparr>) ''job1'' = Returned w \<and> GetJob w ''job1'' = Ok j
     \<and> j_Status j = JobStatusCompleted \<and> OpenArchive wit_svc None w ''job1'' = Ok (FileNode [out])
     \<and> w_tokens w (j_DownloadToken j) = Some \<lparr>te_jobID = ''job1'', te_expiresAt = 66\<rparr>"
proof -
  let ?w = "wit_world\<lparr>w_queue := []\<rparr>"
  have wf: "world_wf wit_svc ?w" using wit_world_wf by (simp add: world_wf_def wit_svc_def wit_cfg_def)
  have g: "store_Get (w_jobs ?w) ''job1'' = Ok wit_job" using wit_get by simp
  from wit_returns [OF wf g] obtain w j where r: "ProcessJob wit_svc wit_px ?w ''job1'' = Returned w" "store_Get (w_jobs w) ''job1'' = Ok j"
    "j_Status j = JobStatusCompleted" by blast
  obtain jr where jr: "run_frame wit_svc ?w ''job1'' jr w"
    "ends_failed wit_svc wit_px ?w ''job1'' jr w \<or> ends_completed wit_svc wit_px ?w ''job1'' wit_job jr w"
    using ProcessJob_run [OF wf g r(1)] by blast
  have "jr = j" using jr(1) r(2) by (simp add: run_frame_def stored_def)
  then have c: "ends_completed wit_svc wit_px ?w ''job1'' wit_job j w" using jr(2) r(3) by (auto simp: ends_failed_def)
  then obtain out where "OpenArchive wit_svc None w ''job1'' = Ok (FileNode [out])"
    by (auto simp: ends_completed_def OpenArchive_def)
  moreover have "token_Issue (w_tokens ?w) (px_rand wit_px) (px_issue wit_px) ''job1'' (cfg_Expiry (sv_cfg wit_svc)) = Ok (j_DownloadToken j, w_tokens w)"
    using c by (simp add: ends_completed_def)
  then have "w_tokens w (j_DownloadToken j) = Some \<lparr>te_jobID = ''job1'', te_expiresAt = 66\<rparr>"
    by (auto simp: token_Issue_def Let_def wit_px_def wit_svc_def wit_cfg_def dest: fun_cong [of _ _ "j_DownloadToken j"])
  ultimately show ?thesis using r by (auto simp: GetJob_def)
qed

lemma wit_completed:
  "\<exists>w j out. reachable wit_svc wit_clean wit_files (wit_y3\<lparr>sy_world := w\<rparr>) \<and> GetJob w ''job1'' = Ok j
     \<and> j_Status j = JobStatusCompleted \<and> OpenArchive wit_svc None w ''job1'' = Ok (FileNode [out])
     \<and> ValidateDownloadToken w 50 ''job1'' (j_DownloadToken j) = Ok () \<and> owned_by ''job1'' (j_DownloadToken j) w"
proof -
  obtain w j out where r: "ProcessJob wit_svc wit_px (wit_world\<lparr>w_queue := []\<rparr>) ''job1'' = Returned w" "GetJob w ''job1'' = Ok j"
    "j_Status j = JobStatusCompleted" "OpenArchive wit_svc None w ''job1'' = Ok (FileNode [out])"
    "w_tokens w (j_DownloadToken j) = Some \<lparr>te_jobID = ''job1'', te_expiresAt = 66\<rparr>"
    using wit_processed by blast
  have "(sys_step wit_svc wit_clean)\<^sup>*\<^sup>* wit_y3 (wit_y3\<lparr>sy_world := w\<rparr>)"
    by (intro worker_processes [of "\<lambda>_. True" 0 wit_svc wit_px, OF _ wit_receive(2,3) r(1)])
      (simp_all only: worker_step worker_receive [OF wit_receive(2,3,1)] simp_thms)
  then have "reachable wit_svc wit_clean wit_files (wit_y3\<lparr>sy_world := w\<rparr>)"
    using wit_reachable(2) unfolding reachable_def by (meson rtranclp_trans)
  with r show ?thesis by (auto simp: ValidateDownloadToken_def token_Validate_def owned_by_def)
qed

theorem finished_job_stable_witness:
  "\<exists>w j out. reachable wit_svc wit_clean wit_files (wit_y3\<lparr>sy_world := w\<rparr>) \<and> \<not> w_accepting (StopAccepting w)
     \<and> GetJob (StopAccepting w) ''job1'' = Ok j \<and> j_Status j = JobStatusCompleted
     \<and> ValidateDownloadToken (StopAccepting w) 50 ''job1'' (j_DownloadToken j) = Ok ()
     \<and> OpenArchive wit_svc None (StopAccepting w) ''job1'' = Ok (FileNode [out])"
proof -
  obtain w j out where w: "reachable wit_svc wit_clean wit_files (wit_y3\<lparr>sy_world := w\<rparr>)" "GetJob w ''job1'' = Ok j"
    "j_Status j = JobStatusCompleted" "OpenArchive wit_svc None w ''job1'' = Ok (FileNode [out])"
    "ValidateDownloadToken w 50 ''job1'' (j_DownloadToken j) = Ok ()" "owned_by ''job1'' (j_DownloadToken j) w"
    using wit_completed by blast
  let ?y = "wit_y3\<lparr>sy_world := w\<rparr>" and ?y' = "wit_y3\<lparr>sy_world := StopAccepting w\<rparr>"
  have "sys_step wit_svc wit_clean ?y ?y'" using shutdown_begin [of wit_svc wit_clean ?y] by simp
  then have "sparing wit_svc wit_clean ''job1'' (j_DownloadToken j) ?y ?y'"
    using w(6) by (simp add: sparing_def owned_by_def StopAccepting_def) (simp add: wit_y_defs)
  then have "(sparing wit_svc wit_clean ''job1'' (j_DownloadToken j))\<^sup>*\<^sup>* ?y ?y'" by (rule r_into_rtranclp)
  from finished_job_stable [OF w(1) wit_run_conditions _ _ this, of j 50] w
  show ?thesis by (auto simp: StopAccepting_def)
qed

end
