(* ===== verification/Delivery.thy ===== *)
theory Delivery
  imports Interference
begin

text \<open>
  What a completed job has in the running service. Every place of a worker has its own assertion on
  the job's files and tokens: while it writes, that the writer holds the entries of the files that
  are done, then that the temporary file, and after the rename the published one, is the archive
  of the manifest. A worker's own steps lead from one assertion to the next, and no other
  goroutine disturbs them unless the cleanup takes the job; so a job whose record says completed
  has its archive and a token that opens it, however the goroutines interleave.
\<close>

section \<open>The assertions\<close>

text \<open>The entries of an archive, each file with what the fetch of this file delivered.\<close>

definition packed :: "ArchiveManifest \<Rightarrow> ArchiveFile list \<Rightarrow> ArchiveFolder list \<Rightarrow> archive_out \<Rightarrow> bool" where
  "packed m fs dirs out \<longleftrightarrow> (\<exists>es ds. ao_entries out = es @ ds
     \<and> list_all2 (\<lambda>f e. \<exists>env. file_entry (mf_ExportType m = ExportTypeTar) env f e) fs es \<and> list_all2 dir_entry dirs ds)"

text \<open>A writer in the middle of its work; its last TAR entry may still owe bytes.\<close>

definition packing :: "ArchiveManifest \<Rightarrow> ArchiveFile list \<Rightarrow> ArchiveFolder list \<Rightarrow> archive_out \<Rightarrow> bool" where
  "packing m fs dirs aw \<longleftrightarrow> ao_tar aw = (mf_ExportType m = ExportTypeTar)
     \<and> ((ao_tar aw \<longrightarrow> ao_remaining aw \<le> 0) \<longrightarrow> packed m fs dirs aw)"

definition archived :: "ArchiveManifest \<Rightarrow> archive_out \<Rightarrow> bool" where
  "archived m out \<longleftrightarrow> ao_closed out \<and> packed m (mf_Files m) (mf_EmptyFolders m) out"

abbreviation manifest_of :: "ArchiveService \<Rightarrow> Job \<Rightarrow> ArchiveManifest \<Rightarrow> bool" where
  "manifest_of s j m \<equiv> buildManifest (sv_upper_lower s) (sv_repo s) j = Some (Ok m)"

definition delivered :: "ArchiveService \<Rightarrow> string \<Rightarrow> Job \<Rightarrow> World \<Rightarrow> bool" where
  "delivered s i j w \<longleftrightarrow> (\<exists>m out. manifest_of s j m \<and> archived m out \<and> final_of (temp_dir s) (w_files w) i = Some [out])
     \<and> (\<exists>d. \<forall>t. token_Validate (w_tokens w) t i (j_DownloadToken j) = (if d < t then Err ErrTokenExpired else Ok ()))
     \<and> j_CompletedAt j \<noteq> None"

fun at_place :: "ArchiveService \<Rightarrow> string \<Rightarrow> job_pc \<Rightarrow> World \<Rightarrow> bool" where
  "at_place s i (WTotals j m) w = manifest_of s j m"
| "at_place s i (WCreate j m) w = manifest_of s j m"
| "at_place s i (WFiles j fs ds aw b n) w =
     (\<exists>m done. manifest_of s j m \<and> mf_Files m = done @ fs \<and> mf_EmptyFolders m = ds \<and> packing m done [] aw
        \<and> 0 \<le> b \<and> b \<le> cfg_MaxSizeBytes (sv_cfg s) \<and> temp_of (temp_dir s) (w_files w) i = Some [])"
| "at_place s i (WReport j fs ds aw b n) w =
     (\<exists>m done. manifest_of s j m \<and> mf_Files m = done @ fs \<and> mf_EmptyFolders m = ds \<and> packing m done [] aw
        \<and> 0 \<le> b \<and> b \<le> cfg_MaxSizeBytes (sv_cfg s) \<and> temp_of (temp_dir s) (w_files w) i = Some [])"
| "at_place s i (WDirs j ds aw) w =
     (\<exists>m done. manifest_of s j m \<and> mf_EmptyFolders m = done @ ds \<and> packing m (mf_Files m) done aw
        \<and> temp_of (temp_dir s) (w_files w) i = Some [])"
| "at_place s i (WGenerated j None) w =
     (\<exists>m out. manifest_of s j m \<and> archived m out \<and> temp_of (temp_dir s) (w_files w) i = Some [out])"
| "at_place s i (WClose j) w =
     (\<exists>m out. manifest_of s j m \<and> archived m out \<and> temp_of (temp_dir s) (w_files w) i = Some [out])"
| "at_place s i (WRename j) w =
     (\<exists>m out. manifest_of s j m \<and> archived m out \<and> temp_of (temp_dir s) (w_files w) i = Some [out])"
| "at_place s i (WIssue j) w =
     (\<exists>m out. manifest_of s j m \<and> archived m out \<and> final_of (temp_dir s) (w_files w) i = Some [out])"
| "at_place s i (WPersist j) w = (j_Status j = JobStatusCompleted \<longrightarrow> delivered s i j w)"
| "at_place s i _ w = True"

section \<open>A worker goes from one assertion to the next\<close>

lemma packing_new: "packing m [] [] (newArchiveWriter (mf_ExportType m))"
  by (simp add: packing_def packed_def newArchiveWriter_def)

lemma packing_file:
  assumes "packing m fs [] aw" "gen_file g env f aw b n = (aw1, b1, None)"
    "0 \<le> b" "b \<le> g_MaxSizeBytes g" "g_MaxSizeBytes g < 2 ^ 63 - 1"
  shows "packing m (fs @ [f]) [] aw1" "0 \<le> b1" "b1 \<le> g_MaxSizeBytes g"
proof -
  obtain e where e: "ao_entries aw1 = ao_entries aw @ [e]"
    "ao_tar aw \<longrightarrow> ao_remaining aw1 \<le> 0 \<Longrightarrow> file_entry (ao_tar aw) env f e"
    "ao_tar aw1 = ao_tar aw" "ao_tar aw \<longrightarrow> ao_remaining aw \<le> 0" "0 \<le> b1" "b1 \<le> g_MaxSizeBytes g"
    using gen_file_ok [OF assms(2-5)] by blast
  then show "packing m (fs @ [f]) [] aw1" "0 \<le> b1" "b1 \<le> g_MaxSizeBytes g"
    using assms(1) by (auto simp: packing_def packed_def intro!: list_all2_appendI)
qed

lemma packing_dir:
  assumes "packing m fs dirs aw" "gen_dir env d aw = (aw1, None)"
  shows "packing m fs (dirs @ [d]) aw1"
proof -
  obtain e where e: "ao_entries aw1 = ao_entries aw @ [e]" "dir_entry d e" "ao_tar aw1 = ao_tar aw"
    "ao_tar aw \<longrightarrow> ao_remaining aw \<le> 0"
    using gen_dir_ok [OF assms(2)] by blast
  then obtain es ds where "ao_entries aw = es @ ds" "list_all2 dir_entry dirs ds"
    "list_all2 (\<lambda>f e. \<exists>env. file_entry (mf_ExportType m = ExportTypeTar) env f e) fs es"
    using assms(1) by (auto simp: packing_def packed_def)
  then have "packed m fs (dirs @ [d]) aw1"
    unfolding packed_def using e(1,2) by (intro exI [of _ es] exI [of _ "ds @ [e]"]) (auto intro: list_all2_appendI)
  then show ?thesis using e(3) assms(1) by (simp add: packing_def)
qed

lemma packed_entries: "ao_entries out = ao_entries aw \<Longrightarrow> packed m fs dirs out = packed m fs dirs aw"
  by (simp add: packed_def)

lemma archived_close:
  assumes "packing m (mf_Files m) (mf_EmptyFolders m) aw" "aw_Close fault aw = Ok out"
  shows "archived m out"
proof -
  have "ao_entries out = ao_entries aw" "ao_closed out" "ao_tar aw \<longrightarrow> ao_remaining aw \<le> 0"
    using assms(2) by (auto simp: aw_Close_defs next_call_def split: if_splits sum.splits)
  with assms(1) show ?thesis by (simp add: packing_def archived_def packed_entries [of out aw])
qed

lemma issue_verdict:
  assumes "token_Issue ts rnd now i ttl = Ok (tk, ts')"
  shows "token_Validate ts' t i tk = (if now + ttl < t then Err ErrTokenExpired else Ok ())"
  using assms by (auto simp: token_Issue_def token_Validate_def Let_def split: sum.splits)

text \<open>The manifest depends on none of the fields that a worker changes.\<close>

lemma manifest_fields [simp]:
  "buildManifest ul repo (j\<lparr>j_ProcessedFiles := n, j_ProcessedBytes := b, j_UpdatedAt := t\<rparr>) = buildManifest ul repo j"
  "buildManifest ul repo (j\<lparr>j_TotalFiles := n, j_TotalBytes := b, j_UpdatedAt := t\<rparr>) = buildManifest ul repo j"
  "buildManifest ul repo (completed_job expiry now tk j) = buildManifest ul repo j"
  by (simp_all add: buildManifest_def completed_job_def split: sum.split option.split)

lemma delivered_completed:
  assumes "manifest_of s j m" "archived m out" "final_of (temp_dir s) (w_files w) i = Some [out]"
    "token_Issue (w_tokens w) rnd issued i ttl = Ok (tk, ts)"
  shows "delivered s i (completed_job expiry now tk j) (w\<lparr>w_tokens := ts\<rparr>)"
proof -
  have "j_DownloadToken (completed_job expiry now tk j) = tk" "j_CompletedAt (completed_job expiry now tk j) = Some now"
    by (simp_all add: completed_job_def)
  then show ?thesis using assms(1-3) issue_verdict [OF assms(4)] by (auto simp: delivered_def)
qed

lemma at_place_files:
  assumes "job_step s px pc w = Some (pc', w')" "pc = WFiles j fs ds aw b n" "at_place s i pc w" "world_wf s w"
    "valid_id i" "j_ID j = i" "cfg_MaxSizeBytes (sv_cfg s) < 2 ^ 63 - 1"
  shows "at_place s i pc' w'"
proof (cases fs)
  case Nil
  then show ?thesis using assms(1-3) by auto
next
  case (Cons f fs')
  obtain m dn where m: "manifest_of s j m" "mf_Files m = dn @ f # fs'" "mf_EmptyFolders m = ds" "packing m dn [] aw"
    "0 \<le> b" "b \<le> cfg_MaxSizeBytes (sv_cfg s)" "temp_of (temp_dir s) (w_files w) i = Some []"
    using assms(2,3) Cons by auto
  obtain aw1 b1 e where g: "gen_file (NewGenerator (cfg_MaxSizeBytes (sv_cfg s))) (px_gen px) f aw b n = (aw1, b1, e)"
    by (metis prod_cases3)
  show ?thesis
  proof (cases e)
    case None
    have "packing m (dn @ [f]) [] aw1" "0 \<le> b1" "b1 \<le> cfg_MaxSizeBytes (sv_cfg s)"
      using packing_file [OF m(4) g [unfolded None]] m(5,6) assms(7) by (simp_all add: NewGenerator_def)
    moreover have "pc' = WReport j fs' ds aw1 b1 (n + 1)" "w' = w" using assms(1,2) Cons g None by simp_all
    ultimately show ?thesis using m by (auto intro!: exI [of _ m] exI [of _ "dn @ [f]"])
  next
    case (Some x)
    then show ?thesis using assms(1,2) Cons g by (auto simp: returns_def)
  qed
qed

lemma at_place_dirs:
  assumes "job_step s px pc w = Some (pc', w')" "pc = WDirs j ds aw" "at_place s i pc w" "world_wf s w" "valid_id i" "j_ID j = i"
  shows "at_place s i pc' w'"
proof -
  obtain m dn where m: "manifest_of s j m" "mf_EmptyFolders m = dn @ ds" "packing m (mf_Files m) dn aw"
    "temp_of (temp_dir s) (w_files w) i = Some []"
    using assms(2,3) by auto
  have wr: "temp_of (temp_dir s) (local_Write (temp_dir s) (w_files w) i out) i = Some [out]" for out
    using loc.write_views [OF world_wfD(2) [OF assms(4)] assms(5,5)] m(4) by simp
  show ?thesis
  proof (cases ds)
    case Nil
    show ?thesis
      using assms(1,2,6) Nil m wr archived_close [of m aw] by (auto simp: returns_def split: sum.splits)
  next
    case (Cons d ds')
    obtain aw1 e where g: "gen_dir (px_gen px) d aw = (aw1, e)" by force
    show ?thesis
    proof (cases e)
      case None
      have "packing m (mf_Files m) (dn @ [d]) aw1" using packing_dir [OF m(3) g [unfolded None]] .
      moreover have "pc' = WDirs j ds' aw1" "w' = w" using assms(1,2) Cons g None by simp_all
      ultimately show ?thesis using m Cons by (auto intro!: exI [of _ m] exI [of _ "dn @ [d]"])
    next
      case (Some x)
      then show ?thesis using assms(1,2) Cons g by (auto simp: returns_def)
    qed
  qed
qed

lemma at_place_step:
  assumes "job_step s px pc w = Some (pc', w')" "at_place s i pc w" "world_wf s w" "pc_ok pc" "pc_id pc = Some i"
    "0 \<le> cfg_MaxSizeBytes (sv_cfg s)" "cfg_MaxSizeBytes (sv_cfg s) < 2 ^ 63 - 1"
  shows "at_place s i pc' w'"
proof -
  note W = world_wfD(2) [OF assms(3)]
  have v: "valid_id i" using assms(4,5) by (simp add: pc_ok_def)
  note L = loc.create_views [OF W v v] loc.rename_views [OF W v v]
  show ?thesis
  proof (cases "(s, px, pc, w)" rule: job_step.cases)
    case (5 _ _ j m)
    then show ?thesis
      using assms L(1) by (auto simp: pc_id_def failed_job_def intro!: exI [of _ m] packing_new split: sum.splits)
  next
    case (6 _ _ j f fs ds aw b n)
    then show ?thesis using at_place_files [OF assms(1) _ assms(2,3) v _ assms(7)] assms(5) by (auto simp: pc_id_def)
  next
    case (7 _ _ j ds aw b n)
    then show ?thesis using at_place_files [OF assms(1) _ assms(2,3) v _ assms(7)] assms(5) by (auto simp: pc_id_def)
  next
    case (9 _ _ j d ds aw)
    then show ?thesis using at_place_dirs [OF assms(1) _ assms(2,3) v] assms(5) by (auto simp: pc_id_def)
  next
    case (10 _ _ j aw)
    then show ?thesis using at_place_dirs [OF assms(1) _ assms(2,3) v] assms(5) by (auto simp: pc_id_def)
  next
    case (14 _ _ j)
    then show ?thesis using assms L(2) by (auto simp: pc_id_def split: sum.splits)
  next
    case (16 _ _ j)
    then show ?thesis
      using assms by (auto simp: pc_id_def failed_job_def intro: delivered_completed split: sum.splits)
  qed (use assms in \<open>auto simp: pc_id_def failed_job_def Let_def split: sum.splits option.splits if_splits\<close>)
qed

section \<open>No other goroutine disturbs them\<close>

definition keeps :: "string \<Rightarrow> string \<Rightarrow> World \<Rightarrow> World \<Rightarrow> bool" where
  "keeps dir i w w' \<longleftrightarrow> temp_of dir (w_files w') i = temp_of dir (w_files w) i \<and> final_of dir (w_files w') i = final_of dir (w_files w) i
     \<and> (\<forall>tok e. w_tokens w tok = Some e \<and> te_jobID e = i \<longrightarrow> same_verdict i tok w w')"

lemma keepsI: "same_state dir i w w' \<Longrightarrow> (\<And>tok e. w_tokens w tok = Some e \<Longrightarrow> te_jobID e = i \<Longrightarrow> same_verdict i tok w w') \<Longrightarrow> keeps dir i w w'"
  by (simp add: keeps_def same_state_def)

lemma keeps_simps [simp]:
  "keeps dir i w w" "keeps dir i w (w\<lparr>w_jobs := jobs\<rparr>)" "keeps dir i w (w\<lparr>w_queue := q\<rparr>)" "keeps dir i w (w\<lparr>w_accepting := a\<rparr>)"
  by (simp_all add: keeps_def)

lemma delivered_keeps:
  assumes "delivered s i j w" "keeps (temp_dir s) i w w'"
  shows "delivered s i j w'"
proof -
  obtain d where d: "\<And>t. token_Validate (w_tokens w) t i (j_DownloadToken j) = (if d < t then Err ErrTokenExpired else Ok ())"
    using assms(1) by (auto simp: delivered_def)
  from d [of d] obtain e where "w_tokens w (j_DownloadToken j) = Some e" "te_jobID e = i"
    by (auto simp: token_Validate_def split: option.splits if_splits)
  then have "same_verdict i (j_DownloadToken j) w w'" using assms(2) by (simp add: keeps_def)
  with assms show ?thesis by (simp add: delivered_def keeps_def same_verdict_def)
qed

lemma at_place_keeps: "at_place s i pc w \<Longrightarrow> keeps (temp_dir s) i w w' \<Longrightarrow> at_place s i pc w'"
  by (cases "(s, i, pc, w)" rule: at_place.cases) (auto simp: keeps_def delivered_keeps)

lemma job_step_id:
  assumes "job_step s px pc w = Some (pc', w')" "world_wf s w"
  shows "pc_id pc' = None \<or> pc_id pc' = pc_id pc"
proof (cases "\<exists>i. pc = WTaken i")
  case True
  then show ?thesis
    using assms(1) mem.get_id [OF world_wfD(1) [OF assms(2)]] by (auto simp: pc_id_def split: sum.splits)
next
  case False
  then show ?thesis
    using assms(1) by (cases "(s, px, pc, w)" rule: job_step.cases)
      (auto simp: pc_id_def returns_def failed_job_def completed_job_def Let_def split: sum.splits option.splits if_splits prod.splits)
qed

text \<open>The cleanup takes nothing of the job, and none of its tokens is drawn again for another one.\<close>

definition spares :: "ArchiveService \<Rightarrow> Cleanup \<Rightarrow> string \<Rightarrow> System \<Rightarrow> System \<Rightarrow> bool" where
  "spares s c i y y' \<longleftrightarrow> sys_step s c y y' \<and> cleanup_target c (sy_sweep y) \<noteq> Some i
     \<and> (\<forall>tok e. w_tokens (sy_world y) tok = Some e \<and> te_jobID e = i \<longrightarrow> owned_by i tok (sy_world y'))"

text \<open>A step is one of the worker that has the job, or it changes of the job at most the record of a request.\<close>

lemma spares_cases:
  assumes "spares s c i y y'" "service_inv s c y" "valid_id i"
  obtains (own) k px pc' w' where "k < length (sy_workers y)" "pc_id (sy_workers y ! k) = Some i"
      "job_step s px (sy_workers y ! k) (sy_world y) = Some (pc', w')" "y' = y\<lparr>sy_world := w', sy_workers := (sy_workers y)[k := pc']\<rparr>"
    | (other) "keeps (temp_dir s) i (sy_world y) (sy_world y')"
      "\<And>k. k < length (sy_workers y') \<Longrightarrow> pc_id (sy_workers y' ! k) = Some i \<Longrightarrow>
         k < length (sy_workers y) \<and> sy_workers y' ! k = sy_workers y ! k \<or> sy_workers y' ! k = WTaken i"
      "\<And>j. store_Get (w_jobs (sy_world y')) i = Ok j \<Longrightarrow> store_Get (w_jobs (sy_world y)) i = Ok j \<or> j_Status j = JobStatusQueued"
proof -
  have inv: "cl_dir c = temp_dir s" "sys_wf s y" using assms(2) by (simp_all add: service_inv_def)
  have wf: "world_wf s (sy_world y)" "sweep_ok (sy_sweep y)" "list_all pc_ok (sy_workers y)"
    "list_all (\<lambda>j. j_Status j = JobStatusQueued) (sy_checked y)"
    using inv(2) by (auto simp: sys_wf_def list_all_iff)
  have st: "sys_step s c y y'" and tg: "cleanup_target c (sy_sweep y) \<noteq> Some i"
    and ow: "\<And>tok e. w_tokens (sy_world y) tok = Some e \<Longrightarrow> te_jobID e = i \<Longrightarrow> owned_by i tok (sy_world y')"
    using assms(1) by (auto simp: spares_def)
  from st show thesis
  proof (cases rule: sys_step.cases)
    case (request_create j jobs)
    have "j_Status j = JobStatusQueued" using wf(4) request_create(2) by (simp add: list_all_iff)
    then show thesis
      using request_create mem.get_create [OF request_create(3), of i] by (intro other) (auto split: if_splits)
  next
    case (request_enqueue j)
    then show thesis
      using mem.get_remove [OF world_wfD(1) [OF wf(1)], of "j_ID j" i] by (intro other) (auto simp: enqueue_def split: if_splits)
  next
    case (worker_receive k i' w')
    then show thesis by (intro other) (auto simp: Queue_receive_def nth_list_update pc_id_def split: list.splits if_splits)
  next
    case (worker_stop k)
    then show thesis by (intro other) (auto simp: nth_list_update pc_id_def split: if_splits)
  next
    case (worker_step k px pc' w')
    show thesis
    proof (cases "pc_id (sy_workers y ! k) = Some i")
      case True
      then show thesis using worker_step by (intro own) auto
    next
      case False
      have ok: "pc_ok (sy_workers y ! k)" using wf(3) worker_step(2) by (simp add: list_all_length)
      note same = job_step_same_state [OF worker_step(3) wf(1) ok False assms(3)]
      have "keeps (temp_dir s) i (sy_world y) w'"
        using same job_step_same_verdict [OF worker_step(3) False] ow worker_step(1) by (intro keepsI) auto
      moreover have "pc_id pc' \<noteq> Some i" using job_step_id [OF worker_step(3) wf(1)] False by auto
      ultimately show thesis
        using worker_step same by (intro other) (auto simp: nth_list_update same_state_def split: if_splits)
    qed
  next
    case (cleanup_step sx sw' w')
    note same = sweep_step_same [OF cleanup_step(2) inv(1) wf(1,2) tg assms(3)]
    have "keeps (temp_dir s) i (sy_world y) w'" using same by (intro keepsI) auto
    then show thesis using cleanup_step same(1) by (intro other) (auto simp: same_state_def)
  qed (auto intro: other simp: StopAccepting_def)
qed

section \<open>The invariant of the running service\<close>

definition delivery_inv :: "ArchiveService \<Rightarrow> Cleanup \<Rightarrow> string \<Rightarrow> System \<Rightarrow> bool" where
  "delivery_inv s c i y \<longleftrightarrow> service_inv s c y
     \<and> (\<forall>k < length (sy_workers y). pc_id (sy_workers y ! k) = Some i \<longrightarrow> at_place s i (sy_workers y ! k) (sy_world y))
     \<and> (\<forall>j. store_Get (w_jobs (sy_world y)) i = Ok j \<and> j_Status j = JobStatusCompleted \<longrightarrow> delivered s i j (sy_world y))"

lemma own_completed:
  assumes "job_step s px pc w = Some (pc', w')" "pc_id pc = Some i" "pc_ok pc" "at_place s i pc w"
    "\<not> finished i w" "store_Get (w_jobs w') i = Ok j" "j_Status j = JobStatusCompleted"
  shows "delivered s i j w'"
proof (cases "at_store pc")
  case False
  then have "w_jobs w' = w_jobs w" using job_step_files_frame [OF assms(1)] by simp
  then show ?thesis using assms(5-7) by (auto simp: finished_def)
next
  case True
  then show ?thesis
    using assms
    by (cases "(s, px, pc, w)" rule: job_step.cases)
      (auto simp: pc_defs finished_def mem.get_update mem.get_persist Let_def intro: delivered_keeps split: sum.splits if_splits)
qed

lemma delivery_step:
  assumes "delivery_inv s c i y" "spares s c i y y'" "valid_id i"
    "0 \<le> cfg_MaxSizeBytes (sv_cfg s)" "cfg_MaxSizeBytes (sv_cfg s) < 2 ^ 63 - 1"
  shows "delivery_inv s c i y'"
proof -
  have sv: "service_inv s c y" and pl: "\<And>k. k < length (sy_workers y) \<Longrightarrow> pc_id (sy_workers y ! k) = Some i \<Longrightarrow>
      at_place s i (sy_workers y ! k) (sy_world y)"
    and dl: "\<And>j. store_Get (w_jobs (sy_world y)) i = Ok j \<Longrightarrow> j_Status j = JobStatusCompleted \<Longrightarrow> delivered s i j (sy_world y)"
    using assms(1) by (simp_all add: delivery_inv_def)
  have sv': "service_inv s c y'" using sv assms(2) service.lower.step_inv by (auto simp: spares_def)
  have wf: "world_wf s (sy_world y)" "list_all pc_ok (sy_workers y)" "ledger_ok (ledger_of y)"
    using sv by (simp_all add: service_inv_def sys_wf_def)
  from assms(2) sv assms(3) show ?thesis
  proof (cases rule: spares_cases)
    case (own k px pc' w')
    have ok: "pc_ok (sy_workers y ! k)" using wf(2) own(1) by (simp add: list_all_length)
    have nf: "\<not> finished i (sy_world y)" using finished_no_worker [OF wf(3) _ own(1)] own(2) by blast
    have "at_place s i pc' w'" by (rule at_place_step [OF own(3) pl [OF own(1,2)] wf(1) ok own(2) assms(4,5)])
    moreover have "delivered s i j w'" if "store_Get (w_jobs w') i = Ok j" "j_Status j = JobStatusCompleted" for j
      by (rule own_completed [OF own(3,2) ok pl [OF own(1,2)] nf that])
    ultimately show ?thesis
      using own sv' exclusive_worker(2) [OF wf(3) own(1,2)] by (auto simp: delivery_inv_def nth_list_update)
  next
    case other
    have "at_place s i (sy_workers y' ! k) (sy_world y')" if "k < length (sy_workers y')" "pc_id (sy_workers y' ! k) = Some i" for k
      using other(2) [OF that] that pl [of k] at_place_keeps [OF _ other(1)] by auto
    moreover have "delivered s i j (sy_world y')"
      if "store_Get (w_jobs (sy_world y')) i = Ok j" "j_Status j = JobStatusCompleted" for j
      using other(3) [OF that(1)] dl that(2) delivered_keeps [OF _ other(1)] by auto
    ultimately show ?thesis using sv' by (auto simp: delivery_inv_def)
  qed
qed

lemma delivery_start:
  assumes "service_start s c y"
  shows "delivery_inv s c i y"
proof -
  have "service_inv s c y" using service.lower.start_inv [OF assms] .
  moreover obtain files where "y = sys_init s files" using assms by (auto simp: service_start_def)
  ultimately show ?thesis by (auto simp: delivery_inv_def sys_init_def NewPool_def New_def NewMemoryStore_def pc_id_def store_Get_def)
qed

definition int64_limit :: "ArchiveService \<Rightarrow> bool" where
  "int64_limit s \<longleftrightarrow> 0 \<le> cfg_MaxSizeBytes (sv_cfg s) \<and> cfg_MaxSizeBytes (sv_cfg s) < 2 ^ 63 - 1"

interpretation delivery: transition_system
  "\<lambda>y. service_start s c y \<and> valid_id i \<and> int64_limit s" "spares s c i" "\<lambda>y. delivery_inv s c i y \<and> valid_id i \<and> int64_limit s"
  by unfold_locales (auto simp: delivery_start int64_limit_def intro: delivery_step)

lemma spares_sys_step: "(spares s c i)\<^sup>*\<^sup>* y y' \<Longrightarrow> (sys_step s c)\<^sup>*\<^sup>* y y'"
  by (erule rtranclp_mono [THEN predicate2D, rotated]) (auto simp: spares_def)

lemma running_delivered:
  assumes "(spares s c i)\<^sup>*\<^sup>* (sys_init s files) y" "cl_dir c = temp_dir s" "storage_wf (temp_dir s) files" "0 \<le> cfg_QueueSize (sv_cfg s)"
    "int64_limit s" "GetJob (sy_world y) i = Ok j" "j_Status j = JobStatusCompleted"
  shows "world_wf s (sy_world y)" "delivered s i j (sy_world y)"
proof -
  have st: "service_start s c (sys_init s files)" using assms(2-4) by (auto simp: service_start_def)
  have "reachable s c files y" using spares_sys_step [OF assms(1)] by (simp add: reachable_def)
  then show wf: "world_wf s (sy_world y)" using reachable_inv [OF _ assms(2-4)] by (simp add: sys_wf_def)
  have "valid_id i" using world_wfD(4) [OF wf] assms(6) by (simp add: GetJob_def)
  then have "delivery_inv s c i y" using delivery.from_start_inv [OF _ assms(1)] st assms(5) by blast
  then show "delivered s i j (sy_world y)" using assms(6,7) by (simp add: delivery_inv_def GetJob_def)
qed

section \<open>A run that spares its job\<close>

lemma job_step_owned:
  assumes "job_step s px pc w = Some (pc', w')" "pc_id pc = Some i" "owned_by i tok w"
  shows "owned_by i tok w'"
  using assms by (cases "(s, px, pc, w)" rule: job_step.cases)
    (auto simp: owned_by_def returns_def token_Issue_def pc_id_def Let_def split: sum.splits option.splits if_splits prod.splits)

definition alone :: "ArchiveService \<Rightarrow> Cleanup \<Rightarrow> string \<Rightarrow> nat \<Rightarrow> System \<Rightarrow> bool" where
  "alone s c i k y \<longleftrightarrow> service_inv s c y \<and> pc_id (sy_workers y ! k) \<in> {None, Some i} \<and> sy_sweep y = SwSnapshot
     \<and> (\<forall>tok. owned_by i tok (sy_world y))"

lemma alone_step:
  assumes "alone s c i k y" "k < length (sy_workers y)" "job_step s px (sy_workers y ! k) (sy_world y) = Some (pc', w')"
    "y' = y\<lparr>sy_world := w', sy_workers := (sy_workers y)[k := pc']\<rparr>"
  shows "spares s c i y y' \<and> alone s c i k y'"
proof -
  note a = assms(1) [unfolded alone_def]
  have st: "sys_step s c y y'" unfolding assms(4) by (rule worker_step [OF assms(2,3)])
  have wf: "world_wf s (sy_world y)" using a by (simp add: service_inv_def sys_wf_def)
  have id: "pc_id (sy_workers y ! k) = Some i" using a assms(3) by (cases "sy_workers y ! k") (auto simp: pc_id_def)
  have "\<forall>tok. owned_by i tok w'" using job_step_owned [OF assms(3) id] a by blast
  moreover have "service_inv s c y'" using service.lower.step_inv [OF _ st] a by blast
  ultimately show ?thesis
    using a st job_step_id [OF assms(3) wf] id assms(2,4) by (auto simp: spares_def alone_def)
qed

lemma wit_spared_start: "(spares wit_svc wit_clean ''job1'')\<^sup>*\<^sup>* (sys_init wit_svc wit_files) wit_y3"
proof -
  have e: "spares s c i y y'" if "sys_step s c y y'" "sy_sweep y = SwSnapshot" "w_tokens (sy_world y) = NewInMemoryService" for s c i y y'
    using that by (simp add: spares_def NewInMemoryService_def)
  have "spares wit_svc wit_clean ''job1'' wit_y0 wit_y1" "spares wit_svc wit_clean ''job1'' wit_y1 wit_y2"
    "spares wit_svc wit_clean ''job1'' wit_y2 wit_y3"
    by (rule e [OF wit_steps(1)] e [OF wit_steps(2)] e [OF wit_steps(3)]; simp add: wit_y_defs)+
  then show ?thesis unfolding wit_y0_def [symmetric] by (meson rtranclp.rtrancl_into_rtrancl rtranclp.rtrancl_refl)
qed

lemma wit_spared:
  assumes "ProcessJob wit_svc wit_px (wit_world\<lparr>w_queue := []\<rparr>) ''job1'' = Returned w"
  shows "(spares wit_svc wit_clean ''job1'')\<^sup>*\<^sup>* (sys_init wit_svc wit_files) (wit_y3\<lparr>sy_world := w\<rparr>)"
proof -
  let ?y = "wit_y3\<lparr>sy_world := wit_world\<lparr>w_queue := []\<rparr>, sy_workers := (sy_workers wit_y3)[0 := WTaken ''job1'']\<rparr>"
  have st: "sys_step wit_svc wit_clean wit_y3 ?y" by (rule worker_receive [OF wit_receive(2,3,1)])
  have t: "w_tokens (sy_world wit_y3) = NewInMemoryService" "w_tokens wit_world = NewInMemoryService" "sy_sweep wit_y3 = SwSnapshot"
    by (simp_all add: wit_y_defs) (simp add: wit_world_def)
  have sp: "spares wit_svc wit_clean ''job1'' wit_y3 ?y" using st t by (simp add: spares_def NewInMemoryService_def)
  have "reachable wit_svc wit_clean wit_files ?y" using wit_reachable(2) st unfolding reachable_def by (rule rtranclp.rtrancl_into_rtrancl)
  then have "service_inv wit_svc wit_clean ?y"
    using reachable_inv [OF _ wit_run_conditions] wit_run_conditions(1) by (simp add: service_inv_def)
  then have "alone wit_svc wit_clean ''job1'' 0 ?y"
    using t wit_receive(2) by (simp add: alone_def pc_id_def owned_by_def NewInMemoryService_def)
  then have "(spares wit_svc wit_clean ''job1'')\<^sup>*\<^sup>* wit_y3 (wit_y3\<lparr>sy_world := w\<rparr>)"
    by (intro worker_processes [where I = "alone wit_svc wit_clean ''job1'' 0" and R = "spares wit_svc wit_clean ''job1''",
        OF _ wit_receive(2,3) assms sp] alone_step)
  with wit_spared_start show ?thesis by (rule rtranclp_trans)
qed

end
