(* ===== verification/Progress.thy ===== *)
theory Progress
  imports Delivery
begin

text \<open>
  The numbers a client sees. Only the worker that has a job changes its record, from a copy of its
  own; the copy never falls behind the record and its counts fit what is left of the manifest. So
  in the running service the processed files are at most the total, a completed job has processed
  them all, and as long as a job has a record its progress only goes forward, whatever the other
  goroutines, the cleanup included, do meanwhile.
\<close>

section \<open>The worker's copy of a record\<close>

fun copy :: "job_pc \<Rightarrow> Job option" where
  "copy (WMark j) = Some j" | "copy (WManifest j) = Some j" | "copy (WTotals j m) = Some j" | "copy (WCreate j m) = Some j"
| "copy (WFiles j fs ds aw b n) = Some j" | "copy (WReport j fs ds aw b n) = Some j" | "copy (WDirs j ds aw) = Some j"
| "copy (WGenerated j e) = Some j" | "copy (WClose j) = Some j" | "copy (WRename j) = Some j" | "copy (WUndo j) = Some j"
| "copy (WIssue j) = Some j" | "copy (WPersist j) = Some j" | "copy _ = None"

text \<open>Counts that make sense, and one record that continues another.\<close>

definition sane :: "Job \<Rightarrow> bool" where
  "sane j \<longleftrightarrow> 0 \<le> j_ProcessedFiles j \<and> j_ProcessedFiles j \<le> j_TotalFiles j
     \<and> (j_Status j = JobStatusQueued \<longrightarrow> j_TotalFiles j = 0)
     \<and> (j_Status j = JobStatusCompleted \<longrightarrow> j_ProcessedFiles j = j_TotalFiles j)"

definition continues :: "Job \<Rightarrow> Job \<Rightarrow> bool" where
  "continues j j' \<longleftrightarrow> j_Status j \<le> j_Status j' \<and> j_TotalFiles j \<le> j_TotalFiles j' \<and> j_ProcessedFiles j \<le> j_ProcessedFiles j'
     \<and> j_ID j' = j_ID j \<and> j_RootFolderID j' = j_RootFolderID j \<and> j_ArchiveName j' = j_ArchiveName j
     \<and> j_ExportType j' = j_ExportType j \<and> j_CreatedAt j' = j_CreatedAt j"

lemma continues_refl [simp]: "continues j j"
  by (simp add: continues_def)

lemma continues_trans: "continues j j1 \<Longrightarrow> continues j1 j2 \<Longrightarrow> continues j j2"
  by (auto simp: continues_def intro: order_trans)

text \<open>What the counts of the copy are at each place, and with which of them the worker goes on.\<close>

fun counts :: "job_pc \<Rightarrow> bool" where
  "counts (WMark j) = (j_TotalFiles j = 0)"
| "counts (WManifest j) = (j_TotalFiles j = 0)"
| "counts (WTotals j m) = (j_ProcessedFiles j = 0 \<and> j_TotalFiles j = int (length (mf_Files m)))"
| "counts (WCreate j m) = (j_ProcessedFiles j = 0 \<and> j_TotalFiles j = int (length (mf_Files m)))"
| "counts (WFiles j fs ds aw b n) = (j_ProcessedFiles j = n \<and> n + int (length fs) = j_TotalFiles j)"
| "counts (WReport j fs ds aw b n) = (j_ProcessedFiles j = n - 1 \<and> n + int (length fs) = j_TotalFiles j)"
| "counts (WGenerated j (Some e)) = True"
| "counts (WUndo j) = True" | "counts (WPersist j) = True"
| "counts pc = (\<forall>j. copy pc = Some j \<longrightarrow> j_ProcessedFiles j = j_TotalFiles j)"

definition copy_ok :: "job_pc \<Rightarrow> bool" where
  "copy_ok pc \<longleftrightarrow> counts pc \<and> (\<forall>j. copy pc = Some j \<longrightarrow> sane j)"

definition follows :: "World \<Rightarrow> job_pc \<Rightarrow> bool" where
  "follows w pc \<longleftrightarrow> (\<forall>j j'. copy pc = Some j' \<and> store_Get (w_jobs w) (j_ID j') = Ok j \<longrightarrow> continues j j')"

section \<open>Its steps\<close>

lemma update_found: "store_Update jobs j = Ok jobs' \<Longrightarrow> \<exists>j0. store_Get jobs (j_ID j) = Ok j0"
  using mem.update_iff by blast

lemma manifest_total: "buildManifest ul repo j = Some (Ok m) \<Longrightarrow> mf_TotalFiles m = int (length (mf_Files m))"
  by (erule buildManifest_OkE) simp

text \<open>What a step makes of the copy.\<close>

lemma stamps [simp]:
  "j_UpdatedAt (failed_job t j msg) = t" "j_ErrorMessage (failed_job t j msg) = msg" "j_Status (failed_job t j msg) = JobStatusFailed"
  "j_UpdatedAt (completed_job e t tk j) = t" "j_DownloadToken (completed_job e t tk j) = tk"
  "j_Status (completed_job e t tk j) = JobStatusCompleted"
  by (simp_all add: failed_job_def completed_job_def)

lemma copy_step:
  assumes "job_step s px pc w = Some (pc', w')" "copy pc = Some j" "copy pc' = Some j'"
  shows "j' = j \<or> j' = failed_job (j_UpdatedAt j') j (j_ErrorMessage j')
    \<or> pc = WIssue j \<and> j' = completed_job (cfg_Expiry (sv_cfg s)) (j_UpdatedAt j') (j_DownloadToken j') j
    \<or> (\<exists>m. pc = WManifest j \<and> buildManifest (sv_upper_lower s) (sv_repo s) j = Some (Ok m)
         \<and> j' = j\<lparr>j_TotalFiles := mf_TotalFiles m, j_TotalBytes := mf_TotalBytes m, j_UpdatedAt := j_UpdatedAt j'\<rparr>)
    \<or> (\<exists>fs ds aw b n. pc = WReport j fs ds aw b n
         \<and> j' = j\<lparr>j_ProcessedFiles := n, j_ProcessedBytes := b, j_UpdatedAt := j_UpdatedAt j'\<rparr>)"
  using assms
  by (cases "(s, px, pc, w)" rule: job_step.cases)
    (auto simp: returns_def Let_def split: sum.splits option.splits if_splits prod.splits)

lemma copy_taken:
  assumes "job_step s px pc w = Some (pc', w')" "copy pc = None" "copy pc' = Some j'"
  shows "\<exists>i j. pc = WTaken i \<and> store_Get (w_jobs w) i = Ok j \<and> w' = w \<and> pc' = WMark j'
    \<and> j' = j\<lparr>j_StartedAt := px_started px, j_Status := JobStatusProcessing, j_UpdatedAt := px_started px\<rparr>"
  using assms by (cases "(s, px, pc, w)" rule: job_step.cases) (auto split: sum.splits)

lemma copy_status: "pc_ok pc \<Longrightarrow> copy pc = Some j \<Longrightarrow> (\<forall>j. pc \<noteq> WPersist j) \<Longrightarrow> j_Status j = JobStatusProcessing"
  by (cases pc) (auto simp: pc_ok_def)

lemma counts_step:
  assumes "job_step s px pc w = Some (pc', w')" "counts pc" "\<And>j. copy pc = Some j \<Longrightarrow> sane j" "\<And>i. pc \<noteq> WTaken i"
  shows "counts pc'"
  using assms
  by (cases "(s, px, pc, w)" rule: job_step.cases)
    (auto simp: returns_def manifest_total sane_def Let_def split: sum.splits option.splits if_splits prod.splits)

lemma copy_continues:
  assumes "job_step s px pc w = Some (pc', w')" "copy pc = Some j" "copy pc' = Some j'" "copy_ok pc" "pc_ok pc"
  shows "sane j' \<and> continues j j'"
proof -
  have j: "sane j" "counts pc" using assms(2,4) by (simp_all add: copy_ok_def)
  have "\<forall>j. pc \<noteq> WPersist j" using assms(1,3) by auto
  then have p: "j_Status j = JobStatusProcessing" using copy_status [OF assms(5,2)] by simp
  from copy_step [OF assms(1-3)] show ?thesis
  proof (elim disjE exE conjE)
    assume "j' = failed_job (j_UpdatedAt j') j (j_ErrorMessage j')"
    then obtain t msg where "j' = failed_job t j msg" by blast
    then show ?thesis using j(1) p by (simp add: sane_def continues_def failed_job_def less_eq_JobStatus_def)
  next
    assume i: "pc = WIssue j" and "j' = completed_job (cfg_Expiry (sv_cfg s)) (j_UpdatedAt j') (j_DownloadToken j') j"
    then obtain e t tk where "j' = completed_job e t tk j" by blast
    then show ?thesis using j p i by (simp add: sane_def continues_def completed_job_def less_eq_JobStatus_def)
  next
    fix m
    assume m: "pc = WManifest j" "buildManifest (sv_upper_lower s) (sv_repo s) j = Some (Ok m)"
      and "j' = j\<lparr>j_TotalFiles := mf_TotalFiles m, j_TotalBytes := mf_TotalBytes m, j_UpdatedAt := j_UpdatedAt j'\<rparr>"
    then obtain t where "j' = j\<lparr>j_TotalFiles := mf_TotalFiles m, j_TotalBytes := mf_TotalBytes m, j_UpdatedAt := t\<rparr>" by blast
    then show ?thesis using j p m(1) manifest_total [OF m(2)] by (simp add: sane_def continues_def)
  next
    fix fs ds aw b n
    assume n: "pc = WReport j fs ds aw b n"
      and "j' = j\<lparr>j_ProcessedFiles := n, j_ProcessedBytes := b, j_UpdatedAt := j_UpdatedAt j'\<rparr>"
    then obtain t where "j' = j\<lparr>j_ProcessedFiles := n, j_ProcessedBytes := b, j_UpdatedAt := t\<rparr>" by blast
    then show ?thesis using j p n by (simp add: sane_def continues_def)
  qed (use j in simp)
qed

lemma copy_stored:
  assumes "job_step s px pc w = Some (pc', w')" "store_Get (w_jobs w') i = Ok j"
  shows "store_Get (w_jobs w) i = Ok j
    \<or> (\<exists>j0 j1. store_Get (w_jobs w) i = Ok j0 \<and> copy pc = Some j1 \<and> j_ID j1 = i \<and> (j = j1 \<or> copy pc' = Some j))"
proof (cases "at_store pc")
  case False
  then show ?thesis using job_step_files_frame [OF assms(1)] assms(2) by simp
next
  case True
  then show ?thesis
  proof (cases "(s, px, pc, w)" rule: job_step.cases)
    case (2 _ _ j1)
    then show ?thesis
      using assms update_found [of "w_jobs w" j1] by (auto simp: mem.get_update split: sum.splits if_splits)
  next
    case (4 _ _ j1 m)
    then show ?thesis
      using assms update_found [of "w_jobs w" j1] by (auto simp: mem.get_update split: sum.splits if_splits)
  qed (use assms in \<open>auto simp: mem.get_persist Let_def split: sum.splits if_splits\<close>)
qed

text \<open>A worker takes a job whose record is queued, and from then on its copy is right and continues the record.\<close>

lemma copy_invariant:
  assumes "job_step s px pc w = Some (pc', w')" "copy_ok pc" "follows w pc" "pc_ok pc" "world_wf s w"
    "\<And>i j. pc = WTaken i \<Longrightarrow> store_Get (w_jobs w) i = Ok j \<Longrightarrow> sane j \<and> j_Status j = JobStatusQueued"
  shows "copy_ok pc' \<and> follows w' pc'"
proof (cases "copy pc'")
  case None
  then have "counts pc'" by (cases pc' rule: counts.cases) simp_all
  then show ?thesis using None by (simp add: copy_ok_def follows_def)
next
  case c': (Some j')
  show ?thesis
  proof (cases "copy pc")
    case None
    from copy_taken [OF assms(1) None c'] obtain i j where t: "pc = WTaken i" "store_Get (w_jobs w) i = Ok j" "w' = w" "pc' = WMark j'"
      "j' = j\<lparr>j_StartedAt := px_started px, j_Status := JobStatusProcessing, j_UpdatedAt := px_started px\<rparr>" by blast
    have "sane j" "j_Status j = JobStatusQueued" "j_ID j = i"
      using assms(6) [OF t(1,2)] mem.get_id [OF world_wfD(1) [OF assms(5)] t(2)] by simp_all
    then show ?thesis using t by (auto simp: copy_ok_def follows_def sane_def continues_def less_eq_JobStatus_def)
  next
    case (Some j)
    note n = copy_continues [OF assms(1) Some c' assms(2,4)]
    have "pc \<noteq> WTaken i" for i using Some by auto
    then have "counts pc'" using counts_step [OF assms(1)] assms(2) Some by (auto simp: copy_ok_def)
    moreover have "continues js j'" if "store_Get (w_jobs w') (j_ID j') = Ok js" for js
    proof -
      have id: "j_ID j' = j_ID j" using n by (simp add: continues_def)
      from copy_stored [OF assms(1) that] assms(3) Some c' n show ?thesis
        unfolding id follows_def by (auto intro: continues_trans)
    qed
    ultimately show ?thesis using n c' by (auto simp: copy_ok_def follows_def)
  qed
qed

lemma stored_invariant:
  assumes "job_step s px pc w = Some (pc', w')" "copy_ok pc" "follows w pc" "pc_ok pc" "store_Get (w_jobs w') i = Ok j"
  shows "store_Get (w_jobs w) i = Ok j \<or> (\<exists>j0. store_Get (w_jobs w) i = Ok j0 \<and> continues j0 j \<and> sane j)"
  using copy_stored [OF assms(1,5)]
proof (elim disjE exE conjE)
  fix j0 j1
  assume c: "store_Get (w_jobs w) i = Ok j0" "copy pc = Some j1" "j_ID j1 = i"
  then have j1: "continues j0 j1" "sane j1" using assms(2,3) by (auto simp: follows_def copy_ok_def)
  {
    assume "j = j1"
    then show ?thesis using c j1 by blast
  next
    assume "copy pc' = Some j"
    from copy_continues [OF assms(1) c(2) this assms(2,4)] show ?thesis using c j1 continues_trans by blast
  }
qed simp

section \<open>In the running service\<close>

definition progress_inv :: "ArchiveService \<Rightarrow> Cleanup \<Rightarrow> System \<Rightarrow> bool" where
  "progress_inv s c y \<longleftrightarrow> service_inv s c y \<and> list_all sane (sy_checked y)
     \<and> (\<forall>i j. store_Get (w_jobs (sy_world y)) i = Ok j \<longrightarrow> sane j)
     \<and> (\<forall>k < length (sy_workers y). copy_ok (sy_workers y ! k) \<and> follows (sy_world y) (sy_workers y ! k))"

text \<open>No step but those of the worker that has it changes a record, except that records come and go.\<close>

lemma record_cases:
  assumes "sys_step s c y y'" "service_inv s c y"
  obtains (own) k px pc' w' where "k < length (sy_workers y)" "job_step s px (sy_workers y ! k) (sy_world y) = Some (pc', w')"
      "y' = y\<lparr>sy_world := w', sy_workers := (sy_workers y)[k := pc']\<rparr>"
    | (created) j where "j \<in> set (sy_checked y)" "sy_workers y' = sy_workers y" "set (sy_checked y') \<subseteq> set (sy_checked y)"
      "store_Get (w_jobs (sy_world y)) (j_ID j) = Err ErrNotFound"
      "\<And>i. store_Get (w_jobs (sy_world y')) i = (if i = j_ID j then Ok j else store_Get (w_jobs (sy_world y)) i)"
    | (other) "\<And>i j. store_Get (w_jobs (sy_world y')) i = Ok j \<Longrightarrow> store_Get (w_jobs (sy_world y)) i = Ok j"
      "\<And>k. k < length (sy_workers y') \<Longrightarrow> k < length (sy_workers y) \<and> sy_workers y' ! k = sy_workers y ! k \<or> copy (sy_workers y' ! k) = None"
      "\<And>j. j \<in> set (sy_checked y') \<Longrightarrow> j \<in> set (sy_checked y) \<or> sane j"
proof -
  have wf: "store_wf (w_jobs (sy_world y))" using assms(2) by (simp add: service_inv_def sys_wf_def world_wf_def)
  from assms(1) show thesis
  proof (cases rule: sys_step.cases)
    case (request_check now i req j)
    have "sane j" using request_check(2)
      by (auto simp: checkRequest_def sane_def new_job_def split: if_splits sum.splits bool.splits)
    then show thesis using request_check by (intro other) auto
  next
    case (request_create j jobs)
    show thesis
      by (rule created [OF request_create(2)])
        (use request_create mem.get_create [OF request_create(3)] mem.create_iff [of "w_jobs (sy_world y)" j]
           set_remove1_subset [of j "sy_checked y"] in auto)
  next
    case (request_enqueue j)
    then show thesis using mem.get_remove [OF wf, of "j_ID j"] by (intro other) (auto simp: enqueue_def split: if_splits)
  next
    case (worker_receive k i w')
    then show thesis by (intro other) (auto simp: Queue_receive_def nth_list_update split: list.splits if_splits)
  next
    case (worker_stop k)
    then show thesis by (intro other) (auto simp: nth_list_update split: if_splits)
  next
    case (worker_step k px pc' w')
    then show thesis by (intro own) auto
  next
    case (cleanup_step sx sw' w')
    have "store_Get (w_jobs w') i = Ok j \<Longrightarrow> store_Get (w_jobs (sy_world y)) i = Ok j" for i j
      using cleanup_step(2) mem.get_remove [OF wf]
      by (cases "(c, sx, sy_sweep y, sy_world y)" rule: sweep_step.cases) (auto split: if_splits sum.splits)
    then show thesis using cleanup_step by (intro other) auto
  qed (auto intro: other simp: StopAccepting_def)
qed

lemma follows_fewer:
  "follows w pc \<Longrightarrow> (\<And>i j. store_Get (w_jobs w') i = Ok j \<Longrightarrow> store_Get (w_jobs w) i = Ok j) \<Longrightarrow> follows w' pc"
  by (auto simp: follows_def)

lemma copy_id: "copy pc = Some j \<Longrightarrow> pc_id pc = Some (j_ID j)"
  by (cases pc) (simp_all add: pc_id_def)

text \<open>A queued record of a job that a worker has taken is all that the worker can find.\<close>

lemma taken_queued:
  assumes "service_inv s c y" "k < length (sy_workers y)" "sy_workers y ! k = WTaken i" "store_Get (w_jobs (sy_world y)) i = Ok j"
  shows "j_Status j = JobStatusQueued"
proof -
  have "i \<in># ld_waiting (ledger_of y)" using assms(2,3) unfolding ledger_members by (auto simp: waits_def intro!: exI [of _ k])
  then show ?thesis using stored_status(1) [of y i j] assms(1,4) by (simp add: service_inv_def GetJob_def)
qed

lemma checked_no_worker:
  assumes "ledger_ok (ledger_of y)" "j \<in> set (sy_checked y)" "k < length (sy_workers y)"
  shows "pc_id (sy_workers y ! k) \<noteq> Some (j_ID j)"
proof
  assume p: "pc_id (sy_workers y ! k) = Some (j_ID j)"
  have "j_ID j \<in># ld_checked (ledger_of y)" using assms(2) by (auto simp: ledger_of_def)
  moreover have "j_ID j \<in># waits (sy_workers y ! k) + works (sy_workers y ! k)" using worker_ids [OF p] by simp
  then have "j_ID j \<in># ld_waiting (ledger_of y) \<or> j_ID j \<in># ld_working (ledger_of y)"
    using assms(3) unfolding ledger_members by auto
  moreover have "id_ok (count (ld_checked (ledger_of y)) (j_ID j)) (count (ld_waiting (ledger_of y)) (j_ID j))
      (count (ld_working (ledger_of y)) (j_ID j)) (ld_status (ledger_of y) (j_ID j))"
    using assms(1) by (simp add: ledger_ok_def)
  ultimately show False by (auto simp: id_ok_def simp flip: count_greater_zero_iff)
qed

lemma progress_own:
  assumes "progress_inv s c y" "sys_step s c y y'" "k < length (sy_workers y)"
    "job_step s px (sy_workers y ! k) (sy_world y) = Some (pc', w')" "y' = y\<lparr>sy_world := w', sy_workers := (sy_workers y)[k := pc']\<rparr>"
  shows "progress_inv s c y' \<and> (\<forall>i j j'. store_Get (w_jobs (sy_world y)) i = Ok j \<and> store_Get (w_jobs (sy_world y')) i = Ok j' \<longrightarrow> continues j j')"
proof -
  have sv: "service_inv s c y" and sn: "\<And>i j. store_Get (w_jobs (sy_world y)) i = Ok j \<Longrightarrow> sane j"
    and cp: "\<And>k. k < length (sy_workers y) \<Longrightarrow> copy_ok (sy_workers y ! k) \<and> follows (sy_world y) (sy_workers y ! k)"
    using assms(1) by (auto simp: progress_inv_def)
  have wf: "world_wf s (sy_world y)" "ledger_ok (ledger_of y)" and ok: "\<And>k. k < length (sy_workers y) \<Longrightarrow> pc_ok (sy_workers y ! k)"
    using sv by (simp_all add: service_inv_def sys_wf_def list_all_length)
  have c: "copy_ok (sy_workers y ! k)" "follows (sy_world y) (sy_workers y ! k)" using cp [OF assms(3)] by simp_all
  have own: "copy_ok pc' \<and> follows w' pc'"
    by (rule copy_invariant [OF assms(4) c ok [OF assms(3)] wf(1)]) (use taken_queued [OF sv assms(3)] sn in blast)
  have rest: "follows w' (sy_workers y ! k')" if k': "k' < length (sy_workers y)" "k' \<noteq> k" for k'
    unfolding follows_def
  proof (intro allI impI, elim conjE)
    fix j j' assume j: "copy (sy_workers y ! k') = Some j'" "store_Get (w_jobs w') (j_ID j') = Ok j"
    have "pc_id (sy_workers y ! k) \<noteq> Some (j_ID j')" "valid_id (j_ID j')"
      using exclusive_worker(2) [OF wf(2) k'(1) copy_id [OF j(1)] assms(3)] k'(2) ok [OF k'(1)] copy_id [OF j(1)]
      by (auto simp: pc_ok_def)
    from job_step_same_state [OF assms(4) wf(1) ok [OF assms(3)] this] show "continues j j'"
      using cp [OF k'(1)] j by (auto simp: same_state_def follows_def)
  qed
  have st: "store_Get (w_jobs (sy_world y)) i = Ok j \<or> (\<exists>j0. store_Get (w_jobs (sy_world y)) i = Ok j0 \<and> continues j0 j \<and> sane j)"
    if "store_Get (w_jobs w') i = Ok j" for i j
    by (rule stored_invariant [OF assms(4) c ok [OF assms(3)] that])
  have ws: "copy_ok ((sy_workers y)[k := pc'] ! k') \<and> follows w' ((sy_workers y)[k := pc'] ! k')" if "k' < length (sy_workers y)" for k'
    using that own rest cp by (cases "k' = k") simp_all
  have "service_inv s c y'" using service.lower.step_inv [OF sv assms(2)] .
  moreover have "sane j" if "store_Get (w_jobs w') i = Ok j" for i j using st [OF that] sn by blast
  moreover have "continues j j'" if "store_Get (w_jobs (sy_world y)) i = Ok j" "store_Get (w_jobs w') i = Ok j'" for i j j'
    using st [OF that(2)] that(1) by auto
  ultimately show ?thesis
    using assms(1,5) ws by (auto simp: progress_inv_def)
qed

lemma progress_step:
  assumes "progress_inv s c y" "sys_step s c y y'"
  shows "progress_inv s c y' \<and> (\<forall>i j j'. store_Get (w_jobs (sy_world y)) i = Ok j \<and> store_Get (w_jobs (sy_world y')) i = Ok j' \<longrightarrow> continues j j')"
proof -
  have sv: "service_inv s c y" using assms(1) by (simp add: progress_inv_def)
  have sv': "service_inv s c y'" using service.lower.step_inv [OF sv assms(2)] .
  have cp: "\<And>k. k < length (sy_workers y) \<Longrightarrow> copy_ok (sy_workers y ! k) \<and> follows (sy_world y) (sy_workers y ! k)"
    using assms(1) by (auto simp: progress_inv_def)
  from assms(2) sv show ?thesis
  proof (cases rule: record_cases)
    case (own k px pc' w')
    then show ?thesis using progress_own [OF assms own] by blast
  next
    case (created j)
    have "follows (sy_world y') (sy_workers y ! k)" if k: "k < length (sy_workers y)" for k
      unfolding follows_def
    proof (intro allI impI, elim conjE)
      fix j1 j' assume j': "copy (sy_workers y ! k) = Some j'" "store_Get (w_jobs (sy_world y')) (j_ID j') = Ok j1"
      have "j_ID j' \<noteq> j_ID j" using checked_no_worker [OF _ created(1) k] sv copy_id [OF j'(1)] by (auto simp: service_inv_def)
      then show "continues j1 j'" using cp [OF k] j' created(5) by (auto simp: follows_def)
    qed
    then show ?thesis using assms(1) created sv' cp by (auto simp: progress_inv_def list_all_iff)
  next
    case other
    have "copy_ok (sy_workers y' ! k) \<and> follows (sy_world y') (sy_workers y' ! k)" if "k < length (sy_workers y')" for k
    proof (cases "copy (sy_workers y' ! k)")
      case None
      then have "counts (sy_workers y' ! k)" by (cases "sy_workers y' ! k" rule: counts.cases) simp_all
      then show ?thesis using None by (simp add: copy_ok_def follows_def)
    next
      case (Some j)
      then have "k < length (sy_workers y)" "sy_workers y' ! k = sy_workers y ! k" using other(2) [OF that] by auto
      then show ?thesis using cp [of k] follows_fewer [OF _ other(1)] by auto
    qed
    then show ?thesis using assms(1) other(1,3) sv' by (fastforce simp: progress_inv_def list_all_iff)
  qed
qed

interpretation progress: transition_system "service_start s c" "sys_step s c" "progress_inv s c"
proof
  fix y assume st: "service_start s c y"
  have "service_inv s c y" using service.lower.start_inv [OF st] .
  moreover obtain files where "y = sys_init s files" using st by (auto simp: service_start_def)
  ultimately show "progress_inv s c y"
    by (auto simp: progress_inv_def sys_init_def NewPool_def New_def NewMemoryStore_def store_Get_def copy_ok_def follows_def)
qed (use progress_step in blast)

lemma reachable_progress:
  assumes "reachable s c files y" "cl_dir c = temp_dir s" "storage_wf (temp_dir s) files" "0 \<le> cfg_QueueSize (sv_cfg s)"
  shows "progress_inv s c y"
  using progress.from_start_inv [of s c "sys_init s files" y] assms by (auto simp: service_start_def reachable_def)

section \<open>What a client that watches a job sees\<close>

text \<open>
  The polls of one connection: each looks the job up in a later state of the run, in which the job
  has had its record all the time, and the last may find it removed.
\<close>

definition retains :: "ArchiveService \<Rightarrow> Cleanup \<Rightarrow> string \<Rightarrow> System \<Rightarrow> System \<Rightarrow> bool" where
  "retains s c i y y' \<longleftrightarrow> sys_step s c y y' \<and> (\<exists>j. GetJob (sy_world y') i = Ok j)"

inductive watches :: "ArchiveService \<Rightarrow> Cleanup \<Rightarrow> string \<Rightarrow> System \<Rightarrow> (time \<times> (store_error, Job) result) list \<Rightarrow> bool"
  for s c i where
  leaves: "watches s c i y []"
| polls: "(retains s c i)\<^sup>*\<^sup>* y y' \<Longrightarrow> GetJob (sy_world y') i = Ok j \<Longrightarrow> watches s c i y' ps \<Longrightarrow> watches s c i y ((t, Ok j) # ps)"
| gone: "(retains s c i)\<^sup>*\<^sup>* y y' \<Longrightarrow> sys_step s c y' y'' \<Longrightarrow> GetJob (sy_world y'') i = Err ErrNotFound \<Longrightarrow>
    watches s c i y [(t, Err ErrNotFound)]"

lemma retains_continues:
  assumes "(retains s c i)\<^sup>*\<^sup>* y y'" "progress_inv s c y" "GetJob (sy_world y) i = Ok j"
  shows "progress_inv s c y' \<and> (\<exists>j'. GetJob (sy_world y') i = Ok j' \<and> continues j j')"
  using assms(1)
proof (induction rule: rtranclp_induct)
  case base
  then show ?case using assms(2,3) by auto
next
  case (step y1 y2)
  then obtain j1 j2 where j: "GetJob (sy_world y1) i = Ok j1" "continues j j1" "GetJob (sy_world y2) i = Ok j2" "sys_step s c y1 y2"
    by (auto simp: retains_def)
  then show ?case using progress_step [OF _ j(4)] step.IH continues_trans [OF j(2)] by (auto simp: GetJob_def)
qed

text \<open>The records that a client sees, in order.\<close>

fun seen :: "(time \<times> (store_error, Job) result) list \<Rightarrow> Job list" where
  "seen [] = []" | "seen ((t, Inr j) # ps) = j # seen ps" | "seen ((t, Inl e) # ps) = seen ps"

lemma watched:
  assumes "watches s c i y ps" "progress_inv s c y" "GetJob (sy_world y) i = Ok j"
  shows "list_all sane (j # seen ps) \<and> sorted_wrt continues (j # seen ps)"
  using assms
proof (induction arbitrary: j rule: watches.induct)
  case (polls y y' j1 ps t)
  from retains_continues [OF polls(1,5,6)] polls(2) have y': "progress_inv s c y'" "continues j j1" by auto
  from polls(4) [OF y'(1) polls(2)] have "list_all sane (j1 # seen ps)" "sorted_wrt continues (j1 # seen ps)" by blast+
  moreover have "sane j" using polls(5,6) by (simp add: progress_inv_def GetJob_def)
  ultimately show ?case using y'(2) by (auto intro: continues_trans)
qed (auto simp: progress_inv_def GetJob_def)

text \<open>A worker keeps the record of every job, and so the witness's run has one to watch.\<close>

lemma job_step_present:
  assumes "job_step s px pc w = Some (pc', w')" "GetJob w i = Ok j"
  shows "\<exists>j'. GetJob w' i = Ok j'"
proof (cases "at_store pc")
  case False
  then show ?thesis using job_step_files_frame [OF assms(1)] assms(2) by (simp add: GetJob_def)
next
  case True
  then show ?thesis using assms
    by (cases "(s, px, pc, w)" rule: job_step.cases)
      (auto simp: GetJob_def mem.get_update mem.get_persist Let_def split: sum.splits if_splits)
qed

lemma wit_watched:
  assumes "ProcessJob wit_svc wit_px (wit_world\<lparr>w_queue := []\<rparr>) ''job1'' = Returned w" "GetJob w ''job1'' = Ok j"
  shows "watches wit_svc wit_clean ''job1'' wit_y3 [(t, Ok j)]"
proof -
  let ?y = "wit_y3\<lparr>sy_world := wit_world\<lparr>w_queue := []\<rparr>, sy_workers := (sy_workers wit_y3)[0 := WTaken ''job1'']\<rparr>"
  have "\<exists>j. GetJob (sy_world ?y) ''job1'' = Ok j" using wit_get by (simp add: GetJob_def)
  moreover have "sys_step wit_svc wit_clean wit_y3 ?y" by (rule worker_receive [OF wit_receive(2,3,1)])
  ultimately have "(retains wit_svc wit_clean ''job1'')\<^sup>*\<^sup>* wit_y3 (wit_y3\<lparr>sy_world := w\<rparr>)"
    by (intro worker_processes [where I = "\<lambda>y. \<exists>j. GetJob (sy_world y) ''job1'' = Ok j"
          and R = "retains wit_svc wit_clean ''job1''", OF _ wit_receive(2,3) assms(1)])
      (auto simp: retains_def worker_step dest: job_step_present)
  from polls [OF this _ leaves, of j t] assms(2) show ?thesis by simp
qed

end
