(* ===== verification/Drain.thy ===== *)
theory Drain
  imports Lifecycle
begin

text \<open>
  The graceful shutdown ends. Once the service has stopped accepting, every request in flight and
  every job in the queue is worked off or left behind after finitely many steps, whatever the
  cleanup does meanwhile: the requests in flight, the queue and the workers' places go down in a
  well-founded order. When every worker that can move does so in the end, the workers come to
  rest, and they rest only stopped, in a database query that never returns, or in a panic.
\<close>

section \<open>The rank of a state\<close>

type_synonym drain_rank = "nat \<times> nat \<times> nat \<times> job_pc list"

definition drain_rank :: "System \<Rightarrow> drain_rank" where
  "drain_rank y = (length (sy_checked y), length (sy_created y), length (w_queue (sy_world y)), sy_workers y)"

definition drain_order :: "(drain_rank \<times> drain_rank) set" where
  "drain_order = less_than <*lex*> less_than <*lex*> less_than <*lex*> listrel1 (measures [phase, calls_left])"

definition draining :: "System \<Rightarrow> bool" where
  "draining y \<longleftrightarrow> \<not> w_accepting (sy_world y) \<and> sy_done y"

lemma wf_drain_order: "wf drain_order"
  by (simp add: drain_order_def wf_lex_prod wf_listrel1_iff)

lemma worker_lower:
  "k < length ws \<Longrightarrow> (pc', ws ! k) \<in> measures [phase, calls_left] \<Longrightarrow> (ws[k := pc'], ws) \<in> listrel1 (measures [phase, calls_left])"
proof -
  assume k: "k < length ws" and l: "(pc', ws ! k) \<in> measures [phase, calls_left]"
  show ?thesis by (rule listrel1I [OF l upd_conv_take_nth_drop [OF k] id_take_nth_drop [OF k]])
qed

lemma job_step_queue: "job_step s px pc w = Some (pc', w') \<Longrightarrow> w_queue w' = w_queue w"
  by (cases "(s, px, pc, w)" rule: job_step.cases)
    (auto simp: Let_def returns_def split: sum.splits option.splits if_splits prod.splits)

lemma step_draining:
  assumes "sys_step s c y y'" "draining y"
  shows "draining y' \<and> (drain_rank y' = drain_rank y \<or> (drain_rank y', drain_rank y) \<in> drain_order)"
  using assms
proof (cases rule: sys_step.cases)
  case (request_check now i req j)
  then show ?thesis using assms(2) checkRequest_job by (auto simp: draining_def)
next
  case (request_create j jobs)
  then have "0 < length (sy_checked y)" by (cases "sy_checked y") auto
  then show ?thesis using assms(2) request_create by (simp add: draining_def drain_rank_def drain_order_def length_remove1)
next
  case (request_enqueue j)
  then have "0 < length (sy_created y)" by (cases "sy_created y") auto
  then show ?thesis
    using assms(2) request_enqueue by (simp add: draining_def drain_rank_def drain_order_def length_remove1 enqueue_def)
next
  case (worker_receive k i w')
  then show ?thesis
    using assms(2) by (auto simp: draining_def drain_rank_def drain_order_def Queue_receive_def split: list.splits)
next
  case (worker_stop k)
  then show ?thesis
    using assms(2) worker_lower [of k "sy_workers y" WStopped] by (simp add: draining_def drain_rank_def drain_order_def)
next
  case (worker_step k px pc' w')
  then show ?thesis
    using assms(2) worker_lower [of k "sy_workers y" pc'] job_step_decreases [OF worker_step(3)]
      job_step_queue [OF worker_step(3)] job_step_not_stopped [OF worker_step(3)]
    by (simp add: draining_def drain_rank_def drain_order_def)
next
  case (cleanup_step sx sw' w')
  then show ?thesis using assms(2) sweep_step_jobs [OF cleanup_step(2)] by (simp add: draining_def drain_rank_def)
qed (simp_all add: draining_def drain_rank_def StopAccepting_def)

interpretation drain: settling draining "sys_step s c" draining drain_rank drain_order
  by unfold_locales (simp_all add: wf_drain_order step_draining)

section \<open>Workers at rest\<close>

text \<open>A worker that can move: idle while the context is cancelled or the queue has a job, or with a step of its job.\<close>

definition can_move :: "ArchiveService \<Rightarrow> System \<Rightarrow> nat \<Rightarrow> bool" where
  "can_move s y k \<longleftrightarrow> sy_workers y ! k = WIdle \<and> (sy_done y \<or> w_queue (sy_world y) \<noteq> [])
     \<or> (\<exists>px. job_step s px (sy_workers y ! k) (sy_world y) \<noteq> None)"

definition at_rest :: "ArchiveService \<Rightarrow> job_pc \<Rightarrow> bool" where
  "at_rest s pc \<longleftrightarrow> pc = WStopped
     \<or> (\<exists>j. pc = WManifest j \<and> buildManifest (sv_upper_lower s) (sv_repo s) j = None)
     \<or> (\<exists>j e. pc = WGenerated j (Some e) \<and> slice_panic e)"

text \<open>Fair: a worker that could move for ever moves.\<close>

definition fair :: "ArchiveService \<Rightarrow> (nat \<Rightarrow> System) \<Rightarrow> bool" where
  "fair s f \<longleftrightarrow> (\<forall>k n. k < length (sy_workers (f n)) \<longrightarrow>
     (\<exists>m \<ge> n. sy_workers (f (Suc m)) ! k \<noteq> sy_workers (f m) ! k \<or> \<not> can_move s (f m) k))"

lemma job_step_rest:
  assumes "job_step s px pc w = None"
  shows "pc = WIdle \<or> at_rest s pc"
  using assms
  by (cases "(s, px, pc, w)" rule: job_step.cases)
    (auto simp: at_rest_def returns_def Let_def split: sum.splits option.splits if_splits prod.splits)

lemma cannot_move_rest: "sy_done y \<Longrightarrow> \<not> can_move s y k \<Longrightarrow> at_rest s (sy_workers y ! k)"
  using job_step_rest [of s undefined "sy_workers y ! k" "sy_world y"] unfolding can_move_def by blast

section \<open>Claims\<close>


text \<open>The run of the witness shuts down: the idle worker stops, and nothing moves afterwards.\<close>

definition wit_drain :: "nat \<Rightarrow> System" where
  "wit_drain n = (if n = 0 then wit_y4\<lparr>sy_workers := [WIdle]\<rparr> else wit_y4)"

lemma wit_drain_run: "\<forall>n. sys_step wit_svc wit_clean (wit_drain n) (wit_drain (Suc n))" "fair wit_svc wit_drain"
proof -
  have "sys_step wit_svc wit_clean (wit_drain 0) (wit_drain 1)"
    using worker_stop [of 0 "wit_drain 0" wit_svc wit_clean] by (simp add: wit_drain_def wit_y_defs)
  moreover have "sys_step wit_svc wit_clean wit_y4 wit_y4"
    using shutdown_begin [of wit_svc wit_clean wit_y4] by (simp add: wit_y_defs)
  ultimately show "\<forall>n. sys_step wit_svc wit_clean (wit_drain n) (wit_drain (Suc n))" by (simp add: wit_drain_def)
  have w: "sy_workers (wit_drain n) = (if n = 0 then [WIdle] else [WStopped])" for n by (simp add: wit_drain_def wit_y4_def)
  show "fair wit_svc wit_drain"
    unfolding fair_def
  proof (intro allI impI exI conjI disjI2)
    fix k n assume "k < length (sy_workers (wit_drain n))"
    then have "k = 0" by (simp add: w split: if_splits)
    then show "\<not> can_move wit_svc (wit_drain (Suc n)) k" by (simp add: can_move_def w)
    show "n \<le> Suc n" by simp
  qed
qed


end
