(* ===== verification/Turn.thy ===== *)
theory Turn
  imports Delivery Drain
begin

text \<open>
  Every job gets its turn. As long as the service is not shut down and one worker does not get
  stuck, a job in the queue is taken in the end, since the queue is first in, first out and a
  worker's run ends; and the worker that takes it finishes it, unless it gets stuck with it. Both
  are arguments by a rank that settles, as for the shutdown.
\<close>

section \<open>Waiting in the queue\<close>

definition waiting :: "string \<Rightarrow> System \<Rightarrow> bool" where
  "waiting i y \<longleftrightarrow> i \<in> set (w_queue (sy_world y)) \<and> \<not> sy_done y"

definition holding :: "string \<Rightarrow> nat \<Rightarrow> System \<Rightarrow> bool" where
  "holding i k y \<longleftrightarrow> k < length (sy_workers y) \<and> pc_id (sy_workers y ! k) = Some i"

definition turn_rank :: "string \<Rightarrow> nat \<Rightarrow> System \<Rightarrow> nat \<times> job_pc" where
  "turn_rank i k y = (length (takeWhile (\<lambda>x. x \<noteq> i) (w_queue (sy_world y))), sy_workers y ! k)"

definition turn_order :: "((nat \<times> job_pc) \<times> (nat \<times> job_pc)) set" where
  "turn_order = less_than <*lex*> measures [phase, calls_left]"

lemma turn_step:
  assumes "sys_step s c y y'" "waiting i y" "waiting i y'" "distinct (w_queue (sy_world y))"
  shows "turn_rank i k y' = turn_rank i k y \<or> (turn_rank i k y', turn_rank i k y) \<in> turn_order"
  using assms(1)
proof (cases rule: sys_step.cases)
  case (worker_receive k' x w')
  then obtain q where "w_queue (sy_world y) = x # q" "w_queue w' = q"
    by (auto simp: Queue_receive_def split: list.splits)
  then show ?thesis using worker_receive assms(2-4) by (auto simp: waiting_def turn_rank_def turn_order_def)
next
  case (worker_step k' px pc' w')
  then show ?thesis
    using job_step_queue [OF worker_step(3)] job_step_decreases [OF worker_step(3)]
    by (cases "k' = k") (simp_all add: turn_rank_def turn_order_def)
next
  case (cleanup_step sx sw' w')
  then show ?thesis using sweep_step_jobs [OF cleanup_step(2)] by (simp add: turn_rank_def)
next
  case (worker_stop k')
  then show ?thesis using assms(2) by (simp add: waiting_def)
qed (use assms(2) in \<open>auto simp: turn_rank_def waiting_def enqueue_def StopAccepting_def takeWhile_append1\<close>)

interpretation turn: settling "\<lambda>y. service_inv s c y \<and> waiting i y" "\<lambda>y y'. sys_step s c y y' \<and> waiting i y'"
  "\<lambda>y. service_inv s c y \<and> waiting i y" "turn_rank i k" turn_order
proof unfold_locales
  show "wf turn_order" by (simp add: turn_order_def wf_lex_prod)
next
  fix y y'
  assume y: "service_inv s c y \<and> waiting i y" "sys_step s c y y' \<and> waiting i y'"
  then show "service_inv s c y' \<and> waiting i y'" using service.lower.step_inv by blast
  show "turn_rank i k y' = turn_rank i k y \<or> (turn_rank i k y', turn_rank i k y) \<in> turn_order"
    by (rule turn_step) (use y queue_distinct in \<open>auto simp: service_inv_def\<close>)
qed

text \<open>A job leaves the queue into the hands of a worker.\<close>

lemma leaves_queue:
  assumes "sys_step s c y y'" "waiting i y" "\<not> waiting i y'" "\<not> sy_done y'"
  shows "\<exists>k. holding i k y'"
  using assms(1)
proof (cases rule: sys_step.cases)
  case (worker_receive k x w')
  then have "x = i" using assms(2,3) by (auto simp: waiting_def Queue_receive_def split: list.splits)
  then show ?thesis using worker_receive by (intro exI [of _ k]) (simp add: holding_def pc_id_def)
next
  case (worker_step k px pc' w')
  then show ?thesis using job_step_queue [OF worker_step(3)] assms(2,3) by (simp add: waiting_def)
next
  case (cleanup_step sx sw' w')
  then show ?thesis using sweep_step_jobs [OF cleanup_step(2)] assms(2,3) by (simp add: waiting_def)
qed (use assms(2-4) in \<open>auto simp: waiting_def enqueue_def StopAccepting_def split: if_splits\<close>)

section \<open>In the hands of a worker\<close>

definition settled :: "string \<Rightarrow> System \<Rightarrow> bool" where
  "settled i y \<longleftrightarrow> i \<notin> set (w_queue (sy_world y)) \<and> (\<forall>k. \<not> holding i k y)
     \<and> (\<forall>j. GetJob (sy_world y) i = Ok j \<longrightarrow> j_Status j \<in> {JobStatusCompleted, JobStatusFailed})"

lemma holding_cases:
  assumes "sys_step s c y y'" "holding i k y"
  obtains (own) px pc' w' where "job_step s px (sy_workers y ! k) (sy_world y) = Some (pc', w')"
      "y' = y\<lparr>sy_world := w', sy_workers := (sy_workers y)[k := pc']\<rparr>"
    | (other) "sy_workers y' ! k = sy_workers y ! k" "holding i k y'"
proof -
  from assms(1) show thesis
  proof (cases rule: sys_step.cases)
    case (worker_receive k' x w')
    then have "k' \<noteq> k" using assms(2) by (auto simp: holding_def pc_id_def)
    then show thesis using worker_receive assms(2) by (intro other) (simp_all add: holding_def)
  next
    case (worker_stop k')
    then have "k' \<noteq> k" using assms(2) by (auto simp: holding_def pc_id_def)
    then show thesis using worker_stop assms(2) by (intro other) (simp_all add: holding_def)
  next
    case (worker_step k' px pc' w')
    then show thesis using assms(2) by (cases "k' = k") (auto intro: own other simp: holding_def)
  qed (use assms(2) in \<open>auto intro: other simp: holding_def\<close>)
qed

interpretation held: settling "\<lambda>y. service_inv s c y \<and> holding i k y" "\<lambda>y y'. sys_step s c y y' \<and> holding i k y'"
  "\<lambda>y. service_inv s c y \<and> holding i k y" "\<lambda>y. sy_workers y ! k" "measures [phase, calls_left]"
proof unfold_locales
  fix y y'
  assume y: "service_inv s c y \<and> holding i k y" "sys_step s c y y' \<and> holding i k y'"
  then show "service_inv s c y' \<and> holding i k y'" using service.lower.step_inv by blast
  from y have st: "sys_step s c y y'" "holding i k y" by blast+
  then show "sy_workers y' ! k = sy_workers y ! k \<or> (sy_workers y' ! k, sy_workers y ! k) \<in> measures [phase, calls_left]"
  proof (cases rule: holding_cases)
    case (own px pc' w')
    then show ?thesis using job_step_decreases [OF own(1)] st(2) by (simp add: holding_def)
  qed simp
qed (simp_all only: wf_measures)

lemma place_ids: "i \<in># waits pc \<or> i \<in># works pc \<Longrightarrow> pc_id pc = Some i"
  by (cases pc) (auto simp: waits_def works_def pc_id_def)

lemma released:
  assumes "sys_step s c y y'" "service_inv s c y" "holding i k y" "\<not> holding i k y'"
  shows "settled i y'"
  using assms(1,3)
proof (cases rule: holding_cases)
  case (own px pc' w')
  have inv: "ledger_ok (ledger_of y)" "ledger_ok (ledger_of y')"
    using assms(2) service.lower.step_inv [OF assms(2,1)] by (simp_all add: service_inv_def)
  have k: "k < length (sy_workers y)" "pc_id (sy_workers y ! k) = Some i" using assms(3) by (simp_all add: holding_def)
  note e = exclusive_worker [OF inv(1) k]
  have q: "i \<notin> set (w_queue (sy_world y'))" "i \<notin> j_ID ` set (sy_created y')"
    using own e(1,3) job_step_queue [OF own(1)] by simp_all
  have h: "\<not> holding i k' y'" for k' using assms(4) own(2) e(2) [of k'] by (cases "k' = k") (auto simp: holding_def)
  then have "i \<notin># waits (sy_workers y' ! k')" "i \<notin># works (sy_workers y' ! k')" if "k' < length (sy_workers y')" for k'
    using that place_ids by (auto simp: holding_def)
  then have "i \<notin># ld_waiting (ledger_of y')" "i \<notin># ld_working (ledger_of y')" using q unfolding ledger_members by blast+
  then have "j_Status j \<in> {JobStatusCompleted, JobStatusFailed}" if "GetJob (sy_world y') i = Ok j" for j
    using stored_status [OF inv(2) that] by (cases "j_Status j") auto
  then show ?thesis using q h by (simp add: settled_def)
qed (use assms(4) in blast)

section \<open>In the end\<close>

lemma workers_length: "sys_step s c y y' \<Longrightarrow> length (sy_workers y') = length (sy_workers y)"
  by (induction rule: sys_step.induct) simp_all

lemma first_exit: "P (f 0) \<Longrightarrow> \<not> P (f n) \<Longrightarrow> \<exists>m. P (f m) \<and> \<not> P (f (Suc m))"
  by (induction n) auto

lemma fair_shift: "fair s f \<Longrightarrow> fair s (\<lambda>n. f (d + n))"
  unfolding fair_def
proof (intro allI impI)
  fix k n
  assume f: "\<forall>k n. k < length (sy_workers (f n)) \<longrightarrow>
      (\<exists>m \<ge> n. sy_workers (f (Suc m)) ! k \<noteq> sy_workers (f m) ! k \<or> \<not> can_move s (f m) k)" "k < length (sy_workers (f (d + n)))"
  then obtain m where "d + n \<le> m" "sy_workers (f (Suc m)) ! k \<noteq> sy_workers (f m) ! k \<or> \<not> can_move s (f m) k" by blast
  then show "\<exists>m \<ge> n. sy_workers (f (d + Suc m)) ! k \<noteq> sy_workers (f (d + m)) ! k \<or> \<not> can_move s (f (d + m)) k"
    by (intro exI [of _ "m - d"]) auto
qed

text \<open>A worker whose place stays the same from some point on cannot move there.\<close>

lemma stays_stuck:
  assumes "fair s f" "\<And>n. N \<le> n \<Longrightarrow> sy_workers (f n) ! k = sy_workers (f N) ! k" "k < length (sy_workers (f N))"
  shows "\<exists>m \<ge> N. \<not> can_move s (f m) k"
proof -
  obtain m where m: "N \<le> m" "sy_workers (f (Suc m)) ! k \<noteq> sy_workers (f m) ! k \<or> \<not> can_move s (f m) k"
    using assms(1) [unfolded fair_def, rule_format, OF assms(3)] by blast
  then show ?thesis using assms(2) [of m] assms(2) [of "Suc m"] by auto
qed

lemma stuck_place: "\<not> can_move s y k \<Longrightarrow> sy_workers y ! k \<noteq> WIdle \<or> w_queue (sy_world y) \<noteq> [] \<Longrightarrow> at_rest s (sy_workers y ! k)"
  using job_step_rest [of s undefined "sy_workers y ! k" "sy_world y"] unfolding can_move_def by blast

lemma taken_in_the_end:
  assumes "\<And>n. sys_step s c (f n) (f (Suc n))" "fair s f" "service_inv s c (f 0)" "\<And>n. \<not> sy_done (f n)"
    "k < length (sy_workers (f 0))" "\<And>n. \<not> at_rest s (sy_workers (f n) ! k)" "i \<in> set (w_queue (sy_world (f 0)))"
  shows "\<exists>m k'. holding i k' (f m)"
proof -
  have w: "waiting i (f 0)" using assms(4,7) by (simp add: waiting_def)
  have len: "length (sy_workers (f n)) = length (sy_workers (f 0))" for n
    by (induction n) (simp_all add: workers_length [OF assms(1)])
  have "\<exists>m. \<not> waiting i (f m)"
  proof (rule ccontr)
    assume "\<nexists>m. \<not> waiting i (f m)"
    then have a: "waiting i (f m)" for m by blast
    obtain N where N: "\<And>n. N \<le> n \<Longrightarrow> turn_rank i k (f n) = turn_rank i k (f N)"
      using turn.run_settles [of s c f i k, OF conjI [OF assms(3) a] conjI [OF assms(1) a]] by (elim exE) blast
    have "sy_workers (f n) ! k = sy_workers (f N) ! k" if "N \<le> n" for n using N [OF that] by (simp add: turn_rank_def)
    from stays_stuck [OF assms(2) this] obtain m where "\<not> can_move s (f m) k" using assms(5) len by metis
    then show False using stuck_place a [of m] assms(6) by (fastforce simp: waiting_def)
  qed
  then obtain m where m: "waiting i (f m)" "\<not> waiting i (f (Suc m))" using first_exit [of "waiting i" f, OF w] by blast
  from leaves_queue [OF assms(1) m assms(4)] show ?thesis by blast
qed

lemma settled_in_the_end:
  assumes "\<And>n. sys_step s c (f n) (f (Suc n))" "fair s f" "service_inv s c (f 0)" "holding i k (f 0)"
  shows "\<exists>m. settled i (f m) \<or> holding i k (f m) \<and> at_rest s (sy_workers (f m) ! k)"
proof (cases "\<exists>m. \<not> holding i k (f m)")
  case True
  then obtain m where m: "holding i k (f m)" "\<not> holding i k (f (Suc m))" using first_exit [of "holding i k" f, OF assms(4)] by blast
  have "service_inv s c (f m)" using service.lower.run_inv [of s c f] assms(1,3) by blast
  from released [OF assms(1) this m] show ?thesis by blast
next
  case False
  then have a: "holding i k (f m)" for m by blast
  obtain N where N: "\<And>n. N \<le> n \<Longrightarrow> sy_workers (f n) ! k = sy_workers (f N) ! k"
    using held.run_settles [of s c f i k, OF conjI [OF assms(3) a] conjI [OF assms(1) a]] by (elim exE) blast
  from stays_stuck [OF assms(2) N] obtain m where "\<not> can_move s (f m) k" using a [of N] by (auto simp: holding_def)
  moreover have "sy_workers (f m) ! k \<noteq> WIdle" using a [of m] by (auto simp: holding_def pc_id_def)
  ultimately show ?thesis using stuck_place a [of m] by blast
qed

section \<open>Claims\<close>


text \<open>The run of the witness: the service has stopped accepting, and its worker takes the queued job and completes it.\<close>

definition advance :: "('p \<Rightarrow> 'w \<Rightarrow> ('p \<times> 'w) option) \<Rightarrow> 'p \<times> 'w \<Rightarrow> 'p \<times> 'w" where
  "advance step p = (case step (fst p) (snd p) of None \<Rightarrow> p | Some q \<Rightarrow> q)"

lemma advance_stays: "advance step p = p \<Longrightarrow> (advance step ^^ n) p = p"
  by (induction n) simp_all

lemma run_for_advance: "run_for step n pc w = Some r \<Longrightarrow> (advance step ^^ n) (pc, w) = r \<and> advance step r = r"
proof (induction n arbitrary: pc w)
  case 0
  then show ?case by (auto simp: advance_def split: option.splits)
next
  case (Suc n)
  show ?case
  proof (cases "step pc w")
    case None
    then have "advance step (pc, w) = (pc, w)" by (simp add: advance_def)
    then show ?thesis using Suc.prems None advance_stays [of step "(pc, w)" "Suc n"] by auto
  next
    case (Some q)
    then show ?thesis using Suc by (cases q) (simp add: funpow_Suc_right advance_def [of step "(pc, w)"] del: funpow.simps(2))
  qed
qed

lemma rest_stays: "at_rest s pc \<Longrightarrow> job_step s px pc w = None"
  by (auto simp: at_rest_def)

definition wit_place :: "nat \<Rightarrow> job_pc \<times> World" where
  "wit_place n = (advance (job_step wit_svc wit_px) ^^ n) (WTaken ''job1'', (StopAccepting wit_world)\<lparr>w_queue := []\<rparr>)"

definition wit_turn :: "nat \<Rightarrow> System" where
  "wit_turn n = (case n of 0 \<Rightarrow> wit_y3\<lparr>sy_world := StopAccepting wit_world\<rparr>
     | Suc m \<Rightarrow> wit_y3\<lparr>sy_world := snd (wit_place m), sy_workers := [fst (wit_place m)]\<rparr>)"

lemma wit_place_Suc: "wit_place (Suc n) = advance (job_step wit_svc wit_px) (wit_place n)"
  by (simp add: wit_place_def)

lemma wit_place_world: "w_queue (snd (wit_place n)) = [] \<and> \<not> w_accepting (snd (wit_place n))"
proof (induction n)
  case 0
  then show ?case by (simp add: wit_place_def StopAccepting_def)
next
  case (Suc n)
  then show ?case
    by (auto simp: wit_place_Suc advance_def dest: job_step_queue job_step_not_stopped split: option.splits)
qed

lemma wit_place_ends: "\<exists>N w. \<forall>n. wit_place (N + n) = (WIdle, w)"
proof -
  let ?w = "(StopAccepting wit_world)\<lparr>w_queue := []\<rparr>"
  have "world_wf wit_svc ?w" "store_Get (w_jobs ?w) ''job1'' = Ok wit_job"
    using wit_world_wf wit_get by (simp_all add: world_wf_def wit_svc_def wit_cfg_def StopAccepting_def)
  from wit_returns [OF this] obtain w' where r: "ProcessJob wit_svc wit_px ?w ''job1'' = Returned w'" by blast
  obtain pc2 w2 where e: "run_ends (job_step wit_svc wit_px) (WTaken ''job1'') ?w pc2 w2" using job.run_ends_exists by blast
  then have "pc2 = WIdle" using run_taken [OF e] r by (simp add: stuck_outcome_def)
  with e obtain N where "run_for (job_step wit_svc wit_px) N (WTaken ''job1'') ?w = Some (WIdle, w2)" by (auto simp: run_ends_def)
  note a = run_for_advance [OF this, folded wit_place_def]
  have "wit_place (N + n) = (WIdle, w2)" for n
  proof (induction n)
    case (Suc n)
    then show ?case using a by (simp add: wit_place_Suc)
  qed (use a in simp)
  then show ?thesis by blast
qed

lemma wit_place_not_stuck: "\<not> at_rest wit_svc (fst (wit_place m))"
proof
  assume r: "at_rest wit_svc (fst (wit_place m))"
  have s: "wit_place (n + m) = wit_place m" for n
    by (induction n) (simp_all add: wit_place_Suc advance_def rest_stays [OF r])
  obtain N w where "\<forall>n. wit_place (N + n) = (WIdle, w)" using wit_place_ends by blast
  then have "fst (wit_place m) = WIdle" using s [of N] by (metis fst_conv)
  then show False using r by (simp add: at_rest_def)
qed

lemma wit_turn_run: "\<forall>n. sys_step wit_svc wit_clean (wit_turn n) (wit_turn (Suc n))" "fair wit_svc wit_turn"
proof -
  have y3: "sy_workers wit_y3 = [WIdle]" "\<not> sy_done wit_y3" "w_queue wit_world = [''job1'']"
    by (simp_all add: wit_y_defs) (simp add: wit_world_def)
  have "sys_step wit_svc wit_clean (wit_turn 0) (wit_turn 1)"
    using worker_receive [of 0 "wit_turn 0" "''job1''" "(StopAccepting wit_world)\<lparr>w_queue := []\<rparr>" wit_svc wit_clean]
    by (simp add: wit_turn_def wit_place_def Queue_receive_def StopAccepting_def y3)
  moreover have "sys_step wit_svc wit_clean (wit_turn (Suc n)) (wit_turn (Suc (Suc n)))" for n
  proof (cases "job_step wit_svc wit_px (fst (wit_place n)) (snd (wit_place n))")
    case None
    have "StopAccepting (snd (wit_place n)) = snd (wit_place n)" using wit_place_world [of n] by (simp add: StopAccepting_def)
    then have "(wit_turn (Suc n))\<lparr>sy_world := StopAccepting (sy_world (wit_turn (Suc n)))\<rparr> = wit_turn (Suc (Suc n))"
      using None by (intro System.equality) (simp_all add: wit_turn_def wit_place_Suc advance_def)
    then show ?thesis using shutdown_begin [of wit_svc wit_clean "wit_turn (Suc n)"] by simp
  next
    case (Some q)
    then show ?thesis
      using worker_step [of 0 "wit_turn (Suc n)" wit_svc wit_px "fst q" "snd q" wit_clean]
      by (simp add: wit_turn_def wit_place_Suc advance_def)
  qed
  ultimately show "\<forall>n. sys_step wit_svc wit_clean (wit_turn n) (wit_turn (Suc n))" by (metis One_nat_def not0_implies_Suc)
  have w: "sy_workers (wit_turn 0) = [WIdle]" "sy_workers (wit_turn (Suc n)) = [fst (wit_place n)]" for n
    by (simp_all add: wit_turn_def y3)
  have "sy_workers (wit_turn (Suc n)) ! 0 \<noteq> sy_workers (wit_turn n) ! 0 \<or> \<not> can_move wit_svc (wit_turn n) 0" for n
  proof (cases n)
    case 0
    then show ?thesis by (simp add: w wit_place_def)
  next
    case (Suc m)
    show ?thesis
    proof (cases "job_step wit_svc wit_px (fst (wit_place m)) (snd (wit_place m))")
      case None
      then have "fst (wit_place m) = WIdle" using job_step_rest wit_place_not_stuck by blast
      then show ?thesis using wit_place_world [of m] y3 by (simp add: can_move_def Suc wit_turn_def)
    next
      case (Some q)
      then have "(fst q, fst (wit_place m)) \<in> measures [phase, calls_left]" using job_step_decreases by (cases q) simp
      then have "fst q \<noteq> fst (wit_place m)" by auto
      then show ?thesis using Some by (simp add: w Suc wit_place_Suc advance_def)
    qed
  qed
  moreover have "length (sy_workers (wit_turn n)) = 1" for n using w by (cases n) simp_all
  ultimately show "fair wit_svc wit_turn" unfolding fair_def by (metis less_one order_refl)
qed


end
