(* ===== verification/Spec2Isabelle.thy ===== *)
theory Spec2Isabelle
  imports Startup Progress Turn
begin

text \<open>
  Verification of the YFS archive API, a Go service that packs a folder of stored files into a
  ZIP or TAR archive and lets the client download it with a token.

  \<^bold>\<open>The program.\<close> A request names a root folder, an archive name and an export type. The service
  (\<open>internal/service\<close>) validates it, creates a job in the job store (\<open>internal/job\<close>) and puts its
  id on a bounded queue. A worker (\<open>internal/worker\<close>) takes the id, reads the folder tree and the
  files' latest versions from PostgreSQL (\<open>internal/repository\<close>), builds a manifest, fetches each
  file from the storage server that hosts it (\<open>internal/client\<close>), streams it into an archive
  (\<open>internal/archive\<close>) on local disk (\<open>internal/storage\<close>), publishes the archive by a rename and
  issues a download token (\<open>internal/token\<close>). A cleanup worker removes expired jobs and
  orphaned files. Handlers (\<open>internal/handler\<close>) and a server (\<open>internal/server\<close>) put HTTP around
  this.

  \<^bold>\<open>The theories.\<close>

  \<^item> Prelude: type names, results as sums, Go's int64 wrap-around, list lemmas.
  \<^item> GoStrings, GoPath, GoFilepath, GoSort, GoEncoding, GoIO: the parts of Go's standard library
    that the program uses, as functions: strings and UTF-8, \<open>path.Clean\<close> and \<open>filepath.Join\<close>,
    \<open>sort.SearchStrings\<close>, base64 and percent encoding, readers with \<open>io.LimitReader\<close> and
    \<open>io.CopyBuffer\<close>. Each has the facts the components need, such as the equivalence of
    \<open>Clean\<close> with resolving segments on a stack.
  \<^item> DomainModel: the structs and constants of \<open>internal/model/archive.go\<close>.
  \<^item> PathSanitizer: \<open>sanitizeArchivePath\<close> of \<open>internal/archive/zip.go\<close>, its safety and its
    specification by segments.
  \<^item> Repository: the row loops and the keyset paging of \<open>internal/repository\<close> over a pool whose
    answers are given, the SQL queries as functions of a database, and that paging returns
    exactly the live files.
  \<^item> Manifest: validation, the archive's root directory, rebasing, empty folders and
    \<open>buildManifest\<close> of \<open>internal/service/archive.go\<close>.
  \<^item> JobStore, Tokens, LocalStorage: the three stores. Their Go interfaces are the locales
    \<open>job_store\<close>, \<open>token_service\<close> and \<open>archive_storage\<close>, with the laws the clients rely on, and
    the in-memory and on-disk implementations are their interpretations \<open>mem\<close>, \<open>tok\<close> and \<open>loc\<close>.
  \<^item> StorageClient: one request to a storage server, and the fetcher.
  \<^item> Generator: the container writers, \<open>writeFile\<close> and \<open>Generate\<close>; what a finished archive holds,
    when generation succeeds, and that it does not panic.
  \<^item> ArchiveService: the job lifecycle over one state record, from \<open>CreateJob\<close> to the end of
    \<open>ProcessJob\<close>, on every branch.
  \<^item> Steps: goroutines as functions from a program counter and the shared state to the next ones,
    and the contracts on step relations that the concurrent theories interpret: invariants along
    runs (\<open>transition_system\<close>), simulations and their composition (\<open>simulation\<close>,
    \<open>refinement_chain\<close>), goroutines that end when left alone (\<open>goroutine\<close>), and runs in which a
    well-founded rank comes to rest (\<open>settling\<close>).
  \<^item> CleanupWorker: the sweep, alone and with other work between its snapshot and its listing, and
    its small steps, which undisturbed are \<open>sweep\<close>.
  \<^item> GoText: decimal integers, booleans, durations (with the \<open>float64\<close> arithmetic of their
    fractions) and JSON strings, as Go's library reads and writes them.
  \<^item> GoJSON: the decoder of \<open>encoding/json\<close> over a body cut off by \<open>http.MaxBytesReader\<close>, and that
    it reads back what the encoder writes.
  \<^item> Handlers: the create, download and event handlers of \<open>internal/handler\<close>; which request a body
    is, when an archive is served, what the event stream says and that its bytes and headers
    cannot be broken out of.
  \<^item> Config: \<open>internal/config\<close> over an environment, and what a loaded configuration satisfies.
  \<^item> Server: \<open>internal/server\<close>, the routes with the rules of \<open>http.ServeMux\<close>, the API token check,
    CORS and the request log; who can change the state and who can read an archive.
  \<^item> WorkerPool: a worker's run of \<open>ProcessJob\<close> in small steps, one per operation on a store and per
    entry of the archive, and that undisturbed they are \<open>ProcessJob\<close>.
  \<^item> Lifecycle: the running service of \<open>internal/worker\<close> as a step relation in which workers,
    requests, cleanup and shutdown interleave. An invariant by rule induction says that every job
    has one owner and its status tells which; the abstract life cycle of jobs is implemented, so
    a job's status never goes back.
  \<^item> Interference: a finished job keeps its record, token and archive whatever the other
    goroutines do, until the cleanup takes it.
  \<^item> Delivery: an invariant on the worker of one job, from the first entry to the token: along every
    run in which the cleanup leaves the job alone and no other job draws its token, a completed
    record has its closed archive and its token.
  \<^item> Progress: an invariant on all workers' copies of their records: the counts of every stored
    record fit together, and as long as a job has a record they only grow.
  \<^item> Drain: after the shutdown was signalled, every fair run comes to a point where the workers
    have stopped.
  \<^item> Turn: in every fair run without a shutdown a queued job is taken and brought to its end, as long
    as some worker does not get stuck.
  \<^item> Logger, Startup: \<open>internal/logger\<close>, \<open>repository.NewPool\<close> and \<open>cmd/server/main.go\<close>: the start
    with every early return and the shutdown, and that what starts satisfies the conditions of
    the theorems on the running service.
  \<^item> This theory: the way of an archive from the rows of the database to its entries, from the
    worker to the client's download, and from the POST to the GET; then the same for the running
    service: what the server answers for a job completed amid other work, and what the event
    stream of a watched job shows.

  \<^bold>\<open>How state and effects are modelled.\<close> An operation of a store is atomic, as it holds the
  store's mutex, and takes and returns the store. The state of the service is the record
  \<open>World\<close>. Errors are values of sum types, one constructor per place where the code wraps or
  returns an error; a Go panic and a query loop that never ends are outcomes of their own
  (\<open>Panics\<close>, \<open>Diverges\<close>). What the program reads from outside is an argument: the clock at each
  \<open>time.Now()\<close>, random bytes, new UUIDs, faults of the file system and of the output, the
  bodies that storage servers send, the rows that the database returns. Of code that is not
  part of the repository, the UUID parser, the Unicode case table above ASCII, the database's
  collation and the HTTP stack are parameters.

  \<^bold>\<open>Concurrency.\<close> The sequential definitions (\<open>CreateJob\<close>, \<open>ProcessJob\<close>, \<open>sweep\<close>) say what an
  operation does on its own. Lifecycle cuts them at the operations that hold a mutex and lets the
  parts of all goroutines interleave in any order; the parts are proved to compose to the
  sequential definitions. The generation of an archive is cut after every entry and every report of
  progress, so a poll or a sweep may fall between any two files. The bytes reach the temporary file
  when \<open>Generate\<close> returns; no operation of the program reads a temporary file, so none can see
  the difference. A select with two ready cases may take either one, so a worker may still take a
  job after the shutdown was signalled. Safety theorems hold for every interleaving; only Drain
  and Turn assume fairness, namely that a worker that can move is not passed over forever.

  \<^bold>\<open>Loops.\<close> Every loop is a structural recursion or a function with a termination proof, except
  two that may run forever and are partial functions into the option type: the paging loop of
  the repository and the recursive folder query. Both are proved to end under their conditions
  (distinct file ids and a fixed database; parent links without a cycle). \<open>run_for\<close> takes a bound
  on the number of steps, and some bound is proved to be enough for a worker's run and for a
  sweep. The JSON parser takes a bound on its calls, and twice the length of the input plus one
  is proved to be enough (\<open>json_value_bound\<close>). The normalisation of a
  \<open>float64\<close> takes at most 128 doublings, which the range of its operands allows.

  \<^bold>\<open>Not modelled.\<close> The bytes of the ZIP and TAR formats (an archive is its list of entries),
  \<open>http.ServeContent\<close> (the download's model ends there), the text of log
  records, connection pooling and timeouts, signal delivery and the accept
  loop of \<open>net/http\<close>. What is left of the Go sources beside these are interface
  declarations, which are locales or records here, and constructors that only store their arguments.
\<close>

section \<open>From the database to the archive\<close>

text \<open>The folders below a root, and those of them, at their place in the archive, that no file of the archive is below.\<close>

definition live_folder :: "database \<Rightarrow> string \<Rightarrow> ArchiveFolder \<Rightarrow> bool" where
  "live_folder db rootID d \<longleftrightarrow> (\<exists>f path. live_tree db rootID f path \<and> d = to_folder (f, path))"

definition without_files :: "ArchiveFile list \<Rightarrow> ArchiveFolder list \<Rightarrow> ArchiveFolder list" where
  "without_files files = filter (\<lambda>d. \<forall>f \<in> set files. \<not> HasPrefix (af_ArchivePath f) (fd_ArchivePath d @ ''/''))"

lemma manifest_of_database:
  assumes "answers ckey db pool (j_RootFolderID j)" "folder_tree db (j_RootFolderID j) = Some tree"
    "distinct (map af_FileID (resolved_files db tree))" "buildManifest ul (NewArchiveRepository pool) j = Some (Ok m)"
  shows "\<exists>files folders. distinct files \<and> (\<forall>f. f \<in> set files \<longleftrightarrow> live_file db (j_RootFolderID j) f)
    \<and> (\<forall>d. d \<in> set folders \<longleftrightarrow> live_folder db (j_RootFolderID j) d)
    \<and> mf_Files m = map (rebase_file (archiveRootDir ul (j_ArchiveName j))) files
    \<and> mf_EmptyFolders m = without_files (mf_Files m) (map (rebase_folder (archiveRootDir ul (j_ArchiveName j))) folders)"
proof -
  let ?repo = "NewArchiveRepository pool" and ?files = "sort_key (file_key ckey) (resolved_files db tree)"
  let ?folders = "sort_key (\<lambda>d. ckey (fd_ArchivePath d)) (map to_folder tree)"
  have f: "r_GetFilesForFolderTree ?repo (j_RootFolderID j) = Some (Ok ?files)"
    using GetFiles_paged [OF assms(1-3)] by (simp add: NewArchiveRepository_def)
  have d: "r_GetFolderTree ?repo (j_RootFolderID j) = Ok ?folders"
    using assms(1,2) by (simp add: NewArchiveRepository_def answers_def GetFolderTree_def sql_folder_tree_def)
  from assms(4) have "mf_Files m = map (rebase_file (archiveRootDir ul (j_ArchiveName j))) ?files"
    "mf_EmptyFolders m = without_files (mf_Files m) (map (rebase_folder (archiveRootDir ul (j_ArchiveName j))) ?folders)"
    by (rule buildManifest_OkE; simp add: f d without_files_def computeEmptyFolders_filter HasPrefix_def)+
  moreover have "distinct ?files" using assms(3) by (simp add: distinct_map)
  moreover have "x \<in> set ?files \<longleftrightarrow> live_file db (j_RootFolderID j) x" for x by (simp add: set_resolved_files [OF assms(2)])
  moreover have "x \<in> set ?folders \<longleftrightarrow> live_folder db (j_RootFolderID j) x" for x
    using folder_tree_iff [OF assms(2)] by (auto simp: live_folder_def)
  ultimately show ?thesis by blast
qed


definition wit_dsvc :: ArchiveService where
  "wit_dsvc = wit_svc\<lparr>sv_repo := NewArchiveRepository Repository.wit_pool\<rparr>"

definition wit_dfile :: ArchiveFile where
  "wit_dfile = \<lparr>af_FileID = ''f'', af_FileName = ''a'', af_ArchivePath = ''Docs/a'', af_FileVersion = 1, af_HostedAt = ''h'',
     af_FileLocation = ''l'', af_FileSize = 3, af_FileHash = ''x''\<rparr>"

lemma wit_resolved: "resolved_files wit_db wit_tree = [wit_dfile]"
  by code_simp

lemma wit_dmanifest:
  "\<exists>m. buildManifest (\<lambda>r. r) (NewArchiveRepository Repository.wit_pool) wit_job = Some (Ok m)
     \<and> mf_Files m = [wit_dfile\<lparr>af_ArchivePath := ''Backup/a''\<rparr>] \<and> mf_EmptyFolders m = [] \<and> mf_TotalBytes m = 3"
proof -
  let ?repo = "NewArchiveRepository Repository.wit_pool"
  have j: "j_RootFolderID wit_job = ''r''" "j_ArchiveName wit_job = ''Backup.zip''" by (simp_all add: wit_job_def)
  have "GetFilesForFolderTree Repository.wit_pool ''r'' = Some (Ok [wit_dfile])"
    using GetFiles_paged [OF wit_answers wit_folder_tree wit_distinct] by (simp add: wit_resolved)
  moreover have "GetFolderTree Repository.wit_pool ''r'' = Ok (map to_folder wit_tree)"
    by (simp add: GetFolderTree_def Repository.wit_pool_def wit_tree_def tree_base_def wit_db_def)
  ultimately have r: "r_GetFilesForFolderTree ?repo ''r'' = Some (Ok [wit_dfile])" "r_GetFolderTree ?repo ''r'' = Ok (map to_folder wit_tree)"
    by (simp_all add: NewArchiveRepository_def)
  show ?thesis
    by (simp add: buildManifest_def j r wit_root Let_def rebase_file_def rebase_folder_def rebaseArchivePath_def
        computeEmptyFolders_filter wit_dfile_def wit_tree_def tree_base_def wit_db_def to_folder_def wrap64_def)
qed


section \<open>From the worker to the client\<close>

definition gets_download :: "http_env \<Rightarrow> request \<Rightarrow> string \<Rightarrow> string \<Rightarrow> bool" where
  "gets_download hx r i tok \<longleftrightarrow> rq_method r = ''GET'' \<and> cleanPath (rq_path r) = rq_path r \<and> rq_path r \<noteq> ''*''
     \<and> route_segments (rq_path r) = [''archives'', i, ''download''] \<and> rq_token r = tok \<and> hx_open hx = None"

text \<open>The whole stack of middleware, router and handler, on a download of a completed job.\<close>

lemma serve_download:
  assumes "gets_download hx r i tok" "tok \<noteq> []" "world_wf s w" "GetJob w i = Ok j" "j_Status j = JobStatusCompleted"
    "j_CompletedAt j = Some t" "OpenArchive s None w i = Ok f"
    "ValidateDownloadToken w (hx_now hx) i tok = (if late then Err ErrTokenExpired else Ok ())"
  shows "\<exists>resp le. serve c s expiry hx w r = (resp, w, le)
    \<and> (if late then rp_status resp = 401 \<and> rp_body resp = ErrorBody ''download token expired''
       else rp_status resp = 200 \<and> rp_body resp = Content (j_ArchiveName j) t f
         \<and> (''Content-Type'', ContentType (j_ExportType j)) \<in> set (rp_header resp))"
proof -
  note g = assms(1) [unfolded gets_download_def]
  have id: "j_ID j = i" "valid_id i"
    using mem.get_id [OF world_wfD(1) [OF assms(3)]] world_wfD(4) [OF assms(3)] assms(4) by (simp_all add: GetJob_def)
  then have "i \<noteq> ''/''" by (auto simp: valid_id_def)
  then have rt: "match_route (rq_path r) = Some (DownloadRoute i)" using g by (simp add: match_route_def)
  let ?resp = "Download s (hx_now hx) None w i tok"
  have "\<exists>le. serve c s expiry hx w r = (?resp\<lparr>rp_header := cors_headers r @ rp_header ?resp\<rparr>, w, le)"
    using g rt by (simp add: serve_def requestLogger_def cors_def ServeMux_def Let_def)
  moreover have "if late then rp_status ?resp = 401 \<and> rp_body ?resp = ErrorBody ''download token expired''
       else rp_status ?resp = 200 \<and> rp_body ?resp = Content (j_ArchiveName j) t f
         \<and> (''Content-Type'', ContentType (j_ExportType j)) \<in> set (rp_header ?resp)"
    using assms(2,4-8) id by (simp add: Download_def writeError_def writeJSON_def)
  ultimately show ?thesis by (auto split: if_splits)
qed

lemma ProcessJob_token:
  assumes "world_wf s w" "GetJob w i = Ok j0" "ProcessJob s px w i = Returned w'" "GetJob w' i = Ok j"
    "j_Status j = JobStatusCompleted" "px_rand px = Ok raw" "length raw = tokenBytes"
  shows "j_DownloadToken j \<noteq> []"
proof -
  have "\<exists>toks. token_Issue (w_tokens w) (Ok raw) (px_issue px) i (cfg_Expiry (sv_cfg s)) = Ok (j_DownloadToken j, toks)"
    using ProcessJob_run [OF assms(1) assms(2) [unfolded GetJob_def] assms(3)] assms(4-6)
    by (auto simp: run_frame_def stored_def GetJob_def ends_failed_def ends_completed_def)
  then have "length (j_DownloadToken j) = 43" using token_encoding [OF assms(7,7)] by blast
  then show ?thesis by auto
qed

lemma ProcessJob_wf:
  assumes "world_wf s w" "GetJob w i = Ok j0" "ProcessJob s px w i = Returned w'"
  shows "world_wf s w'"
  using ProcessJob_run [OF assms(1) assms(2) [unfolded GetJob_def] assms(3)] assms(1)
  by (auto simp: run_frame_def stored_def world_wf_def)

text \<open>
  What a worker packed is what the client gets. When a run leaves a job completed, a GET of its
  download path with the token from its record, served by the whole stack of middleware, router
  and handler, answers 200 with the closed archive of the job's manifest under the archive's
  name until the token expires, and 401 afterwards; it changes nothing.
\<close>

lemma completed_archive_is_served:
  assumes "world_wf s w" "GetJob w i = Ok j0" "ProcessJob s px w i = Returned w'"
    "GetJob w' i = Ok j" "j_Status j = JobStatusCompleted"
    "0 \<le> cfg_MaxSizeBytes (sv_cfg s)" "cfg_MaxSizeBytes (sv_cfg s) < 2 ^ 63 - 1"
    "gets_download hx r i (j_DownloadToken j)" "j_DownloadToken j \<noteq> []"
  shows "\<exists>resp le m out es ds. serve c s expiry hx w' r = (resp, w', le)
    \<and> buildManifest (sv_upper_lower s) (sv_repo s) j0 = Some (Ok m)
    \<and> ao_closed out \<and> ao_entries out = es @ ds
    \<and> list_all2 (file_entry (mf_ExportType m = ExportTypeTar) (px_gen px)) (mf_Files m) es
    \<and> list_all2 dir_entry (mf_EmptyFolders m) ds
    \<and> (if px_issue px + cfg_Expiry (sv_cfg s) < hx_now hx
       then rp_status resp = 401 \<and> rp_body resp = ErrorBody ''download token expired''
       else rp_status resp = 200 \<and> rp_body resp = Content (j_ArchiveName j) (px_now px) (FileNode [out])
         \<and> (''Content-Type'', ContentType (j_ExportType j)) \<in> set (rp_header resp))"
proof -
  obtain m out es ds where a: "buildManifest (sv_upper_lower s) (sv_repo s) j0 = Some (Ok m)"
    "OpenArchive s None w' i = Ok (FileNode [out])" "j_CompletedAt j = Some (px_now px)"
    "ao_closed out" "ao_entries out = es @ ds"
    "list_all2 (file_entry (mf_ExportType m = ExportTypeTar) (px_gen px)) (mf_Files m) es"
    "list_all2 dir_entry (mf_EmptyFolders m) ds"
    "\<And>t. ValidateDownloadToken w' t i (j_DownloadToken j) =
       (if px_issue px + cfg_Expiry (sv_cfg s) < t then Err ErrTokenExpired else Ok ())"
    using completed_archive [OF assms(1-7)] by auto
  from serve_download [OF assms(8,9) ProcessJob_wf [OF assms(1-3)] assms(4,5) a(3,2,8)] a(1,4-7)
  show ?thesis by blast
qed

definition wit_get_rq :: "string \<Rightarrow> request" where
  "wit_get_rq tok = \<lparr>rq_method = ''GET'', rq_path = ''/archives/job1/download'', rq_header = (\<lambda>_. []), rq_token = tok,
     rq_body = wit_body []\<rparr>"

lemma wit_gets_download: "hx_open hx = None \<Longrightarrow> gets_download hx (wit_get_rq tok) ''job1'' tok"
proof -
  have "cleanPath ''/archives/job1/download'' = ''/archives/job1/download''"
    "route_segments ''/archives/job1/download'' = [''archives'', ''job1'', ''download'']"
    by code_simp+
  then show "hx_open hx = None \<Longrightarrow> ?thesis" by (simp add: gets_download_def wit_get_rq_def)
qed


text \<open>The concrete run: a POST of two fields to the empty service, the worker, and a GET.\<close>

definition wit_post_members :: "(string \<times> string) list" where
  "wit_post_members = [(''root_folder_id'', ''r''), (''archive_name'', ''Backup.zip'')]"

definition wit_post :: request where
  "wit_post = \<lparr>rq_method = ''POST'', rq_path = ''/internal/archives'', rq_header = (\<lambda>k. if k = ''X-API-Token'' then ''secret'' else []),
     rq_token = [], rq_body = wit_body wit_post_members\<rparr>"

definition wit_hx1 :: http_env where
  "wit_hx1 = \<lparr>hx_now = 1, hx_uuid = ''job1'', hx_open = None, hx_polls = []\<rparr>"

lemma wit_post_decoded: "decode_request (wit_body wit_post_members) = Some wit_req"
proof -
  have l: "last_member [] ''root_folder_id'' wit_post_members = ''r''"
    "last_member [] ''archive_name'' wit_post_members = ''Backup.zip''" "last_member [] ''export_type'' wit_post_members = []"
    by (simp_all add: last_member_def wit_post_members_def json_fold_names)
  have "wit_post_members \<noteq> []" "list_all (\<lambda>(k, v). utf8_valid k \<and> utf8_valid v) wit_post_members"
    "body_bytes (wit_body wit_post_members) = json_object (map (\<lambda>(k, v). (k, json_string v)) wit_post_members) @ ''garbage''"
    "length (json_object (map (\<lambda>(k, v). (k, json_string v)) wit_post_members)) \<le> maxCreateBodyBytes"
    by (simp_all add: wit_post_members_def utf8_valid_def byte_def RuneError_def wit_body_def body_bytes_def)
      (simp add: json_object_def json_string_def json_rune_def byte_def maxCreateBodyBytes_def)
  from decode_request_object [OF this] show ?thesis by (simp only: l wit_req_def)
qed

lemma wit_post_created: "CreateJob wit_svc 1 ''job1'' (sy_world wit_y0) wit_req = (Ok wit_job, wit_world)"
  using wit_check
  by (simp add: CreateJob_steps enqueue_def store_Create_def wit_y_defs wit_world_def wit_files_def)

lemma wit_post_served:
  "\<exists>resp le. serve wit_scfg wit_svc 60 wit_hx1 (sy_world wit_y0) wit_post = (resp, wit_world, le) \<and> rp_status resp = 202"
  using wit_route wit_post_decoded wit_post_created
  by (simp add: serve_def requestLogger_def cors_def ServeMux_def wit_post_def wit_scfg_def wit_hx1_def requireAPIToken_def
      apiTokenHeader_def ConstantTimeCompare_eq Create_def Let_def writeJSON_def)


section \<open>The running service\<close>



text \<open>The running jobs of a stream are among those that its client sees, and repetitions do not matter for the order.\<close>

lemma running_prefix: "\<exists>rest. seen ps = running ps @ rest"
  by (induction ps rule: Handlers.running.induct) auto

lemma sorted_wrt_remdups_adj: "sorted_wrt R xs \<Longrightarrow> sorted_wrt R (remdups_adj xs)"
  by (induction xs rule: remdups_adj.induct) auto

text \<open>
  C14. Progress never goes back. A client connects to the event stream of a job of the running
  service, and the stream's polls look the job up in later states of the run, whatever the workers,
  the requests and the cleanup do between them. Then the files processed and the total in the
  progress events only grow, no event shows more files processed than there are, no event repeats
  the one before, after them comes at most one event, which ends the stream, and a record that is
  seen completed has all its files processed.
\<close>

theorem progress_never_goes_back:
  assumes "reachable s c files y" "cl_dir c = temp_dir s" "storage_wf (temp_dir s) files" "0 \<le> cfg_QueueSize (sv_cfg s)"
    "GetJob (sy_world y) i = Ok j" "watches s c i y polls"
  shows "\<exists>ps rest. rp_body (Events h True now (GetJob (sy_world y) i) polls) = EventStream (map SSEProgress ps @ rest)
    \<and> sorted_wrt (\<lambda>p q. pe_ProcessedFiles p \<le> pe_ProcessedFiles q \<and> pe_TotalFiles p \<le> pe_TotalFiles q) ps
    \<and> (\<forall>p \<in> set ps. 0 \<le> pe_ProcessedFiles p \<and> pe_ProcessedFiles p \<le> pe_TotalFiles p)
    \<and> distinct_adj ps \<and> length rest \<le> 1 \<and> (\<forall>p. SSEProgress p \<notin> set rest)
    \<and> (\<forall>j' \<in> set (j # seen polls). j_Status j' = JobStatusCompleted \<longrightarrow> j_ProcessedFiles j' = j_TotalFiles j')"
proof -
  let ?r = "running ((now, Ok j) # polls)" and ?le = "\<lambda>p q. pe_ProcessedFiles p \<le> pe_ProcessedFiles q \<and> pe_TotalFiles p \<le> pe_TotalFiles q"
  let ?ps = "remdups_adj (map progress_event ?r)"
  have w: "list_all sane (j # seen polls)" "sorted_wrt continues (j # seen polls)"
    using watched [OF assms(6) reachable_progress [OF assms(1-4)] assms(5)] by blast+
  obtain rest where r: "j # seen polls = ?r @ rest" using running_prefix [of "(now, Ok j) # polls"] by auto
  have "sorted_wrt continues ?r" using w(2) unfolding r by (simp add: sorted_wrt_append)
  then have "sorted_wrt ?le (map progress_event ?r)" unfolding sorted_wrt_map
    by (rule sorted_wrt_mono_rel [rotated]) (simp add: continues_def progress_event_def)
  then have "sorted_wrt ?le ?ps" by (rule sorted_wrt_remdups_adj)
  moreover have "list_all sane ?r" using w(1) unfolding r by simp
  then have "\<forall>p \<in> set ?ps. 0 \<le> pe_ProcessedFiles p \<and> pe_ProcessedFiles p \<le> pe_TotalFiles p"
    by (auto simp: list_all_iff sane_def progress_event_def)
  moreover have "\<forall>j' \<in> set (j # seen polls). j_Status j' = JobStatusCompleted \<longrightarrow> j_ProcessedFiles j' = j_TotalFiles j'"
    using w(1) by (auto simp: list_all_iff sane_def)
  ultimately show ?thesis unfolding assms(5) event_stream_body
    by (intro exI [of _ ?ps] exI [of _ "ending h ((now, Ok j) # polls)"])
      (simp add: length_ending ending_no_progress del: Handlers.running.simps ending.simps One_nat_def)
qed

theorem progress_never_goes_back_witness:
  "\<exists>j polls ps rest. watches wit_svc wit_clean ''job1'' wit_y3 polls \<and> seen polls = [j] \<and> j_Status j = JobStatusCompleted
     \<and> j_ProcessedFiles j = j_TotalFiles j
     \<and> rp_body (Events (NewSSEHandler []) True 1 (GetJob (sy_world wit_y3) ''job1'') polls) = EventStream (map SSEProgress ps @ rest)
     \<and> (\<forall>p \<in> set ps. pe_ProcessedFiles p \<le> pe_TotalFiles p)"
proof -
  obtain w j where w: "ProcessJob wit_svc wit_px (wit_world\<lparr>w_queue := []\<rparr>) ''job1'' = Returned w" "GetJob w ''job1'' = Ok j"
    "j_Status j = JobStatusCompleted"
    using wit_processed by blast
  note v = wit_watched [OF w(1,2), of 9]
  have g: "GetJob (sy_world wit_y3) ''job1'' = Ok wit_job" using wit_get by (simp add: GetJob_def wit_y3_world)
  from progress_never_goes_back [OF wit_reachable(2) wit_run_conditions g v, of "NewSSEHandler []" 1] w(3) v
  show ?thesis by (intro exI [of _ j] exI [of _ "[(9, Ok j)]"]) auto
qed

end
